(* ===== verification/CPrelude.thy ===== *)
theory CPrelude
  imports
    "HOL-Library.Word"
    "HOL-Library.Monad_Syntax"
    "HOL-Library.Signed_Division"
    "HOL-Library.Extended_Nat"
begin

text \<open>
  Vocabulary shared by the component theories.

  \<^item> C integers.  Unsigned types of a fixed width are words (\<open>u8\<close>, \<open>u16\<close>, \<open>u32\<close>, \<open>u64\<close>), so
    that wrap-around is the one of the hardware.  A signed \<open>int\<close> is a mathematical \<open>int\<close>;
    signed overflow is undefined in C, and the components that compute with \<open>int\<close> prove
    that their values stay in \<open>int_ok\<close>.  \<open>size_t\<close> values that count objects in memory
    are \<open>nat\<close>.
  \<^item> Undefined behaviour.  A definition that may touch memory returns an \<open>option\<close>: \<open>None\<close>
    is a dereferenced NULL pointer, an access outside an object, a use after free, or a
    loop that never ends.  A theorem that an operation returns \<open>Some\<close> is a memory-safety
    and termination theorem.
  \<^item> Memory.  A flat object (an array, a string buffer) is a list, read and written through
    the bounds-checked \<open>buf_read\<close>, \<open>buf_write\<close>, \<open>get_at\<close>, \<open>set_at\<close>.  Linked structures live
    in a heap, a partial map from addresses to nodes, with address 0 for NULL.
\<close>

unbundle bit_operations_syntax

type_synonym u8 = "8 word"
type_synonym u16 = "16 word"
type_synonym u32 = "32 word"
type_synonym u64 = "64 word"

named_theorems buf_simps \<open>bounds-checked access to flat objects\<close>
named_theorems heap_simps \<open>reads and writes through pointers\<close>
named_theorems frame \<open>facts about memory that an update leaves alone\<close>

subsection \<open>Machine integers\<close>

definition INT_MAX :: int where
  "INT_MAX = 2147483647"

definition int_ok :: "int \<Rightarrow> bool" where
  "int_ok i \<longleftrightarrow> - INT_MAX - 1 \<le> i \<and> i \<le> INT_MAX"

text \<open>
  A \<open>size_t\<close> assigned to an \<open>int\<close> keeps its low 32 bits.  An index or counter of type \<open>int\<close> that the code
  counts up is a \<open>nat\<close> whose next value is checked: counting past \<open>INT_MAX\<close> is undefined.
\<close>

definition int_of_size :: "nat \<Rightarrow> int" where
  "int_of_size n = sint (word_of_nat n :: u32)"

definition int_index :: "nat \<Rightarrow> nat option" where
  "int_index n = (if int n \<le> INT_MAX then Some n else None)"

lemma int_of_size_small [simp]: "int n \<le> INT_MAX \<Longrightarrow> int_of_size n = int n"
  by (simp add: int_of_size_def INT_MAX_def sint_uint unsigned_of_nat take_bit_nat_eq_self
      signed_take_bit_int_eq_self)

lemma int_of_size_0 [simp]: "int_of_size 0 = 0"
  by (simp add: int_of_size_def)

lemma int_index_in [simp]: "int n \<le> INT_MAX \<Longrightarrow> int_index n = Some n"
  by (simp add: int_index_def)

text \<open>C's \<open>%\<close> and \<open>/\<close> truncate; on non-negative operands they are \<open>mod\<close> and \<open>div\<close>.\<close>

lemma smod_nonneg [simp]: "0 \<le> a \<Longrightarrow> 0 \<le> b \<Longrightarrow> (a :: int) smod b = a mod b"
  by (auto simp: signed_modulo_int_def signed_divide_int_def sgn_if minus_div_mult_eq_mod
      split: if_splits)

lemma sdiv_nonneg [simp]: "0 \<le> a \<Longrightarrow> 0 \<le> b \<Longrightarrow> (a :: int) sdiv b = a div b"
  by (auto simp: signed_divide_int_def sgn_if)

subsection \<open>Flat objects\<close>

definition buf_read :: "'a list \<Rightarrow> nat \<Rightarrow> nat \<Rightarrow> 'a list option" where
  "buf_read b off n = (if off + n \<le> length b then Some (take n (drop off b)) else None)"

definition buf_write :: "'a list \<Rightarrow> nat \<Rightarrow> 'a list \<Rightarrow> 'a list option" where
  "buf_write b off xs =
     (if off + length xs \<le> length b
      then Some (take off b @ xs @ drop (off + length xs) b) else None)"

text \<open>\<open>memcpy(dst + off, src, n)\<close>: both objects must be large enough.\<close>

definition memcpy_to :: "'a list \<Rightarrow> nat \<Rightarrow> 'a list \<Rightarrow> nat \<Rightarrow> 'a list option" where
  "memcpy_to dst off src n =
     (if n \<le> length src then buf_write dst off (take n src) else None)"

text \<open>
  \<open>vsnprintf(b + start, n, ...)\<close> with formatted text \<open>out\<close>: the text, cut to \<open>n - 1\<close> characters, and
  a NUL, nothing when \<open>n\<close> is 0; the result is the length of the uncut text.
\<close>

definition vsnprintf_at :: "u8 list \<Rightarrow> nat \<Rightarrow> nat \<Rightarrow> u8 list \<Rightarrow> u8 list option" where
  "vsnprintf_at b start n out =
     (if n = 0 then Some b else buf_write b start (take (n - 1) out @ [0]))"

definition get_at :: "'a list \<Rightarrow> nat \<Rightarrow> 'a option" where
  "get_at xs i = (if i < length xs then Some (xs ! i) else None)"

definition set_at :: "'a list \<Rightarrow> nat \<Rightarrow> 'a \<Rightarrow> 'a list option" where
  "set_at xs i v = (if i < length xs then Some (xs[i := v]) else None)"

lemma get_at_Some_iff [buf_simps]: "get_at xs i = Some x \<longleftrightarrow> i < length xs \<and> xs ! i = x"
  by (auto simp: get_at_def)

lemma get_at_in [simp]: "i < length xs \<Longrightarrow> get_at xs i = Some (xs ! i)"
  by (simp add: get_at_def)

lemma set_at_in [simp]: "i < length xs \<Longrightarrow> set_at xs i v = Some (xs[i := v])"
  by (simp add: set_at_def)

lemma buf_read_in [simp]: "off + n \<le> length b \<Longrightarrow> buf_read b off n = Some (take n (drop off b))"
  by (simp add: buf_read_def)

lemma buf_write_in [simp]:
  "off + length xs \<le> length b \<Longrightarrow>
     buf_write b off xs = Some (take off b @ xs @ drop (off + length xs) b)"
  by (simp add: buf_write_def)

lemma length_buf_write [buf_simps]: "buf_write b off xs = Some b' \<Longrightarrow> length b' = length b"
  by (auto simp: buf_write_def split: if_splits)

lemma memcpy_to_in [simp]:
  "n \<le> length src \<Longrightarrow> off + n \<le> length dst \<Longrightarrow>
     memcpy_to dst off src n = Some (take off dst @ take n src @ drop (off + n) dst)"
  by (simp add: memcpy_to_def)

text \<open>The bytes of another, disjoint, slice survive a write.\<close>

lemma slice_write_same:
  "off + length xs \<le> length b \<Longrightarrow>
     take (length xs) (drop off (take off b @ xs @ drop (off + length xs) b)) = xs"
  by simp

lemma slice_write_before [frame]:
  assumes "i + n \<le> off" and "off + length xs \<le> length b"
  shows "take n (drop i (take off b @ xs @ drop (off + length xs) b)) = take n (drop i b)"
proof -
  have "take n (drop i (take off b)) = take n (drop i b)"
    using assms by (simp add: drop_take min_def)
  then show ?thesis using assms by simp
qed

lemma slice_write_after [frame]:
  assumes "off + length xs \<le> i" and "off + length xs \<le> length b"
  shows "take n (drop i (take off b @ xs @ drop (off + length xs) b)) = take n (drop i b)"
proof -
  have "drop i (take off b @ xs @ drop (off + length xs) b)
      = drop (i - off - length xs) (drop (off + length xs) b)"
    using assms by simp
  also have "\<dots> = drop i b"
    using assms by simp
  finally show ?thesis by simp
qed

text \<open>An array of \<open>w\<close>-byte slots: slot \<open>i\<close> of \<open>b\<close>, and what a write to slot \<open>j\<close> leaves.\<close>

definition slot :: "nat \<Rightarrow> 'a list \<Rightarrow> nat \<Rightarrow> 'a list" where
  "slot w b i = take w (drop (i * w) b)"

lemma length_slot [simp]: "(Suc i) * w \<le> length b \<Longrightarrow> length (slot w b i) = w"
  by (simp add: slot_def)

lemma slot_in_bounds: "i < n \<Longrightarrow> length b = n * w \<Longrightarrow> i * w + w \<le> length b"
  using mult_le_mono1 [of "Suc i" n w] by simp

lemma slot_write:
  assumes "j < n" and "i < n" and "length b = n * w" and "length xs = w"
  shows "slot w (take (j * w) b @ xs @ drop (j * w + w) b) i = (if i = j then xs else slot w b i)"
proof -
  have j: "j * w + length xs \<le> length b"
    using slot_in_bounds [OF assms(1,3)] assms(4) by simp
  consider "i = j" | "Suc i \<le> j" | "Suc j \<le> i" by linarith
  then show ?thesis
  proof cases
    case 1
    with slice_write_same [OF j] assms(4) show ?thesis by (simp add: slot_def)
  next
    case 2
    then have "i * w + w \<le> j * w" using mult_le_mono1 [of "Suc i" j w] by simp
    from slice_write_before [OF this j] 2 assms(4) show ?thesis by (simp add: slot_def)
  next
    case 3
    then have "j * w + length xs \<le> i * w"
      using mult_le_mono1 [of "Suc j" i w] assms(4) by simp
    from slice_write_after [OF this j, of w] 3 assms(4) show ?thesis by (simp add: slot_def)
  qed
qed

subsection \<open>Heaps and pointers\<close>

type_synonym addr = nat
type_synonym 'n heap = "addr \<rightharpoonup> 'n"

abbreviation (input) NULL :: addr where
  "NULL \<equiv> 0"

definition deref :: "'n heap \<Rightarrow> addr \<Rightarrow> 'n option" where
  "deref h p = (if p = NULL then None else h p)"

definition update :: "'n heap \<Rightarrow> addr \<Rightarrow> ('n \<Rightarrow> 'n) \<Rightarrow> 'n heap option" where
  "update h p f = (case deref h p of None \<Rightarrow> None | Some n \<Rightarrow> Some (h(p \<mapsto> f n)))"

lemma deref_in [simp, heap_simps]: "p \<noteq> NULL \<Longrightarrow> deref h p = h p"
  by (simp add: deref_def)

lemma deref_NULL [simp, heap_simps]: "deref h NULL = None"
  by (simp add: deref_def)

lemma update_in [simp, heap_simps]: "p \<noteq> NULL \<Longrightarrow> h p = Some n \<Longrightarrow> update h p f = Some (h(p \<mapsto> f n))"
  by (simp add: update_def)

lemma update_NULL [simp, heap_simps]: "update h NULL f = None"
  by (simp add: update_def)

text \<open>
  A singly linked segment: starting at \<open>p\<close> and following the field read by \<open>nx\<close>, the nodes
  are \<open>as\<close>, after which the pointer is \<open>q\<close>.  A chain is a segment that ends in NULL.
\<close>

fun lseg :: "('n \<Rightarrow> addr) \<Rightarrow> 'n heap \<Rightarrow> addr \<Rightarrow> addr list \<Rightarrow> addr \<Rightarrow> bool" where
  "lseg nx h p [] q \<longleftrightarrow> p = q"
| "lseg nx h p (a # as) q \<longleftrightarrow>
     p = a \<and> a \<noteq> NULL \<and> (case h a of None \<Rightarrow> False | Some n \<Rightarrow> lseg nx h (nx n) as q)"

abbreviation chain :: "('n \<Rightarrow> addr) \<Rightarrow> 'n heap \<Rightarrow> addr \<Rightarrow> addr list \<Rightarrow> bool" where
  "chain nx h p as \<equiv> lseg nx h p as NULL"

lemma lseg_Cons_iff:
  "lseg nx h p (a # as) q \<longleftrightarrow> p = a \<and> a \<noteq> NULL \<and> (\<exists>n. h a = Some n \<and> lseg nx h (nx n) as q)"
  by (auto split: option.splits)

lemma lseg_append:
  "lseg nx h p (as @ bs) q \<longleftrightarrow> (\<exists>m. lseg nx h p as m \<and> lseg nx h m bs q)"
  by (induction as arbitrary: p) (auto split: option.splits)

lemma lseg_upd [frame, simp]:
  "a \<notin> set as \<Longrightarrow> lseg nx (h(a := v)) p as q = lseg nx h p as q"
  by (induction as arbitrary: p) (auto split: option.splits)

lemma lseg_cong_dom [frame]:
  "(\<And>a. a \<in> set as \<Longrightarrow> h' a = h a) \<Longrightarrow> lseg nx h' p as q = lseg nx h p as q"
  by (induction as arbitrary: p) (auto split: option.splits)

lemma chain_NULL [simp]: "chain nx h NULL as \<longleftrightarrow> as = []"
  by (cases as) auto

lemma chain_not_NULL:
  "p \<noteq> NULL \<Longrightarrow> chain nx h p as \<longleftrightarrow>
     (\<exists>n bs. as = p # bs \<and> h p = Some n \<and> chain nx h (nx n) bs)"
  by (cases as) (auto split: option.splits)

lemma chain_head: "chain nx h p as \<Longrightarrow> p = (case as of [] \<Rightarrow> NULL | a # _ \<Rightarrow> a)"
  by (cases as) auto

lemma lseg_alloc: "lseg nx h p as q \<Longrightarrow> a \<in> set as \<Longrightarrow> a \<noteq> NULL \<and> (\<exists>n. h a = Some n)"
  by (induction as arbitrary: p) (auto split: option.splits)

lemma chain_unique: "chain nx h p as \<Longrightarrow> chain nx h p bs \<Longrightarrow> as = bs"
proof (induction as arbitrary: p bs)
  case Nil
  then show ?case by simp
next
  case (Cons a as)
  then show ?case by (cases bs) (auto split: option.splits)
qed

lemma chain_distinct: "chain nx h p as \<Longrightarrow> distinct as"
proof (induction as arbitrary: p)
  case Nil
  then show ?case by simp
next
  case (Cons a as)
  then obtain n where n: "h a = Some n" and tl: "chain nx h (nx n) as"
    by (auto split: option.splits)
  have "a \<notin> set as"
  proof
    assume "a \<in> set as"
    then obtain bs cs where as: "as = bs @ a # cs" by (auto dest: split_list)
    with tl obtain m where m: "chain nx h m (a # cs)" by (auto simp: lseg_append)
    then have "chain nx h a (a # cs)" using chain_head [OF m] by simp
    moreover have "chain nx h a (a # as)" using Cons.prems by auto
    ultimately have "a # cs = a # as" by (rule chain_unique)
    with as show False by simp
  qed
  with Cons.IH [OF tl] show ?case by simp
qed

text \<open>Writing the last node of a segment relinks it.\<close>

lemma lseg_snoc_upd:
  assumes "lseg nx h p (as @ [a]) q" and "a \<notin> set as" and "nx n = r"
  shows "lseg nx (h(a \<mapsto> n)) p (as @ [a]) r"
  using assms by (auto simp: lseg_append split: option.splits)

end
