(* ===== verification/CString.thy ===== *)
theory CString
  imports CPrelude
begin

text \<open>
  C strings.  The memory a \<open>char *\<close> points into is the list of bytes from the pointer to the end
  of its object; the string is what precedes the first NUL.  A pointer into the middle of an
  object is its offset.  Reading past the end is \<open>None\<close>, so a missing terminator shows.  The
  functions of \<open>string.h\<close> and \<open>ctype.h\<close> the sources call (C locale) are here.
\<close>

text \<open>The bytes of a literal.\<close>

definition ascii :: "string \<Rightarrow> u8 list" where
  "ascii s = map of_char s"

definition c_strlen :: "u8 list \<Rightarrow> nat option" where
  "c_strlen b = (if 0 \<in> set b then Some (length (takeWhile (\<lambda>c. c \<noteq> 0) b)) else None)"

definition c_string :: "u8 list \<Rightarrow> nat \<Rightarrow> u8 list option" where
  "c_string b p = (if 0 \<in> set (drop p b) then Some (takeWhile (\<lambda>c. c \<noteq> 0) (drop p b)) else None)"

lemma takeWhile_string: "0 \<notin> set s \<Longrightarrow> takeWhile (\<lambda>c. c \<noteq> 0) (s @ 0 # z) = (s :: u8 list)"
  by (induction s) auto

lemma c_strlen_string [simp]: "0 \<notin> set s \<Longrightarrow> c_strlen (s @ 0 # z) = Some (length s)"
  by (simp add: c_strlen_def takeWhile_string)

lemma c_string_at [simp]: "length p = i \<Longrightarrow> 0 \<notin> set s \<Longrightarrow> c_string (p @ s @ 0 # z) i = Some s"
  by (simp add: c_string_def takeWhile_string)

lemma c_string_0 [simp]: "0 \<notin> set s \<Longrightarrow> c_string (s @ 0 # z) 0 = Some s"
  by (simp add: c_string_def takeWhile_string)

definition isspace :: "u8 \<Rightarrow> bool" where
  "isspace c \<longleftrightarrow> c = 0x20 \<or> 9 \<le> c \<and> c \<le> 13"

definition isdigit :: "u8 \<Rightarrow> bool" where
  "isdigit c \<longleftrightarrow> 0x30 \<le> c \<and> c \<le> 0x39"

definition isalpha :: "u8 \<Rightarrow> bool" where
  "isalpha c \<longleftrightarrow> 0x41 \<le> c \<and> c \<le> 0x5a \<or> 0x61 \<le> c \<and> c \<le> 0x7a"

text \<open>\<open>while (b[i] && P(b[i])) i++;\<close>, the loop most string functions are made of.\<close>

partial_function (option) scan :: "(u8 \<Rightarrow> bool) \<Rightarrow> u8 list \<Rightarrow> nat \<Rightarrow> nat option" where
  "scan P b i = do {
     c \<leftarrow> get_at b i;
     if c \<noteq> 0 \<and> P c then scan P b (i + 1) else Some i
   }"

lemma scan_in [simp]:
  "0 \<notin> set s \<Longrightarrow> length p = i \<Longrightarrow> scan P (p @ s @ 0 # z) i = Some (i + length (takeWhile P s))"
proof (induction s arbitrary: p i)
  case Nil
  then show ?case by (subst scan.simps) (simp add: nth_append)
next
  case (Cons c s)
  from Cons.IH [of "p @ [c]" "Suc i"] Cons.prems
  show ?case by (subst scan.simps) (simp add: nth_append)
qed

lemma scan_0 [simp]: "0 \<notin> set s \<Longrightarrow> scan P (s @ 0 # z) 0 = Some (length (takeWhile P s))"
  using scan_in [of s "[]" 0] by simp

text \<open>A fact about the bytes of a range is checked on each of them.\<close>

lemma bytes_between:
  "list_all P (map word_of_nat [unat lo..<Suc (unat hi)]) \<Longrightarrow> lo \<le> b \<Longrightarrow> b \<le> (hi :: u8) \<Longrightarrow> P b"
proof -
  assume P: "list_all P (map word_of_nat [unat lo..<Suc (unat hi)])" and "lo \<le> b" "b \<le> hi"
  then have "unat b \<in> set [unat lo..<Suc (unat hi)]" by (auto simp: word_le_nat_alt)
  then have "P (word_of_nat (unat b))" using P unfolding list_all_iff set_map by blast
  then show ?thesis by simp
qed
lemma uint_sub: "(a :: u8) \<le> b \<Longrightarrow> uint (b - a) = uint b - uint a"
  by (simp add: uint_minus_simple_alt word_le_def)

end
