(* ===== verification/Memory.thy ===== *)
theory Memory
  imports CString
begin

text \<open>
  The allocation wrappers of \<open>src/memory.c\<close>.  The allocator is a parameter: \<open>malloc n\<close> is \<open>None\<close>
  when memory has run out and otherwise the \<open>n\<close> bytes of the new object, whose values are the
  allocator's; \<open>realloc\<close> gets the old bytes.  \<open>Inl\<close> is a process that has ended, with its exit
  status; what follows an allocation goes through \<open>and_then\<close>.
\<close>

definition die_oom :: "int + 'a" where
  "die_oom = Inl (- 1)"

definition safe_malloc :: "(nat \<Rightarrow> u8 list option) \<Rightarrow> nat \<Rightarrow> int + u8 list" where
  "safe_malloc malloc size1 = (case malloc size1 of None \<Rightarrow> die_oom | Some p \<Rightarrow> Inr p)"

definition safe_calloc :: "(nat \<Rightarrow> u8 list option) \<Rightarrow> nat \<Rightarrow> nat \<Rightarrow> int + u8 list" where
  "safe_calloc malloc count size1 =
     (case malloc (count * size1) of None \<Rightarrow> die_oom | Some p \<Rightarrow> Inr (replicate (count * size1) 0))"

definition safe_strdup :: "(nat \<Rightarrow> u8 list option) \<Rightarrow> u8 list \<Rightarrow> (int + u8 list) option" where
  "safe_strdup malloc b = do {
     s \<leftarrow> c_string b 0;
     Some (case malloc (length s + 1) of None \<Rightarrow> die_oom | Some p \<Rightarrow> Inr (s @ [0]))
   }"

definition safe_realloc :: "(u8 list option \<Rightarrow> nat \<Rightarrow> u8 list option) \<Rightarrow> u8 list option \<Rightarrow> nat \<Rightarrow> int + u8 list" where
  "safe_realloc realloc data size1 = (case realloc data size1 of None \<Rightarrow> die_oom | Some p \<Rightarrow> Inr p)"

text \<open>The assertion is checked: \<open>None\<close> when it fails.\<close>

definition safe_realloc_zero ::
    "(u8 list option \<Rightarrow> nat \<Rightarrow> u8 list option) \<Rightarrow> u8 list option \<Rightarrow> nat \<Rightarrow> nat \<Rightarrow> (int + u8 list) option" where
  "safe_realloc_zero realloc data old_size new_size =
     (if old_size = new_size then None
      else case safe_realloc realloc data new_size of
          Inl rc \<Rightarrow> Some (Inl rc)
        | Inr p \<Rightarrow>
            if new_size > old_size
            then map_option Inr (buf_write p old_size (replicate (new_size - old_size) 0))
            else Some (Inr p))"

definition and_then :: "int + 'a \<Rightarrow> ('a \<Rightarrow> (int + 'b) option) \<Rightarrow> (int + 'b) option" where
  "and_then r f = (case r of Inl rc \<Rightarrow> Some (Inl rc) | Inr x \<Rightarrow> f x)"

lemma and_then_simps [simp]: "and_then (Inl rc) f = Some (Inl rc)" "and_then (Inr x) f = f x"
  by (simp_all add: and_then_def)

text \<open>
  Releasing: \<open>live\<close> are the addresses of the blocks the allocator has handed out and not got back, of which 0
  is none; any other address must not be freed.
\<close>

definition safe_free :: "nat set \<Rightarrow> nat \<Rightarrow> nat set option" where
  "safe_free live p = (if p \<noteq> 0 then (if p \<in> live then Some (live - {p}) else None) else Some live)"

lemma safe_free_twice: "p \<noteq> 0 \<Longrightarrow> Option.bind (safe_free live p) (\<lambda>live. safe_free live p) = None"
  by (simp add: safe_free_def)

text \<open>What the C standard says of the allocator.\<close>

definition malloc_ok :: "(nat \<Rightarrow> u8 list option) \<Rightarrow> bool" where
  "malloc_ok malloc \<longleftrightarrow> (\<forall>n p. malloc n = Some p \<longrightarrow> length p = n)"

definition realloc_ok :: "(u8 list option \<Rightarrow> nat \<Rightarrow> u8 list option) \<Rightarrow> bool" where
  "realloc_ok realloc \<longleftrightarrow> (\<forall>d n p. realloc (Some d) n = Some p \<longrightarrow>
     length p = n \<and> take (min n (length d)) p = take (min n (length d)) d) \<and>
     (\<forall>n p. realloc None n = Some p \<longrightarrow> length p = n)"

lemma safe_malloc_cases:
  assumes "malloc_ok malloc"
  obtains "safe_malloc malloc n = Inl (- 1)" "malloc n = None" | p where "safe_malloc malloc n = Inr p" "length p = n"
  using assms by (cases "malloc n") (auto simp: safe_malloc_def die_oom_def malloc_ok_def)

lemma safe_realloc_cases:
  assumes "realloc_ok realloc"
  obtains "safe_realloc realloc (Some d) n = Inl (- 1)"
    | p where "safe_realloc realloc (Some d) n = Inr p" "length p = n" "take (min n (length d)) p = take (min n (length d)) d"
  using assms by (cases "realloc (Some d) n") (auto simp: safe_realloc_def die_oom_def realloc_ok_def)

text \<open>The old bytes, then zeroes, or the end of the process; the assertion is the only other way out.\<close>

lemma safe_realloc_zero_grows:
  assumes "realloc_ok realloc" and "length d < n"
  shows "safe_realloc_zero realloc (Some d) (length d) n = Some (Inl (- 1)) \<or>
    safe_realloc_zero realloc (Some d) (length d) n = Some (Inr (d @ replicate (n - length d) 0))"
proof (rule safe_realloc_cases [OF assms(1), of d n])
  assume "safe_realloc realloc (Some d) n = Inl (- 1)"
  then show ?thesis using assms(2) by (simp add: safe_realloc_zero_def)
next
  fix p assume p: "safe_realloc realloc (Some d) n = Inr p" "length p = n"
    "take (min n (length d)) p = take (min n (length d)) d"
  have "buf_write p (length d) (replicate (n - length d) 0) = Some (d @ replicate (n - length d) 0)"
    using p(2,3) assms(2) by (simp add: buf_write_def min_def split: if_splits)
  then show ?thesis using assms(2) p(1) by (simp add: safe_realloc_zero_def)
qed

end
