(* ===== verification/FileUtils.thy ===== *)
theory FileUtils
  imports Memory "HOL-Library.Multiset"
begin

text \<open>
  Paths, whole-file reads and directory walks (\<open>src/file.c\<close>).  The file system is a parameter: a
  stream is the bytes it still yields and whether it then fails, a directory is what \<open>readdir\<close>
  returns for its path.
\<close>

subsection \<open>Paths\<close>

definition PATH_SEP :: u8 where
  "PATH_SEP = 0x2f"

definition path_join ::
    "(nat \<Rightarrow> u8 list option) \<Rightarrow> u8 list option \<Rightarrow> u8 list option \<Rightarrow> (int + u8 list option) option" where
  "path_join malloc p1 p2 = (case p2 of
       None \<Rightarrow> Some (Inr None)
     | Some b2 \<Rightarrow> do {
         c \<leftarrow> get_at b2 0;
         if c = PATH_SEP then do {
           r \<leftarrow> safe_strdup malloc b2;
           and_then r (\<lambda>s. Some (Inr (Some s)))
         }
         else do {
           p1_len \<leftarrow> (case p1 of None \<Rightarrow> Some 0 | Some b1 \<Rightarrow> c_strlen b1);
           p2_len \<leftarrow> c_strlen b2;
           and_then (safe_malloc malloc (p1_len + p2_len + 2)) (\<lambda>path. do {
             path \<leftarrow> (case p1 of None \<Rightarrow> Some path | Some b1 \<Rightarrow> memcpy_to path 0 b1 p1_len);
             sep \<leftarrow> (if p1_len \<noteq> 0 then map_option (\<lambda>c. c \<noteq> PATH_SEP) (get_at path (p1_len - 1)) else Some False);
             if sep then do {
               path \<leftarrow> set_at path p1_len PATH_SEP;
               path \<leftarrow> memcpy_to path (p1_len + 1) b2 p2_len;
               path \<leftarrow> set_at path (p1_len + 1 + p2_len) 0;
               Some (Inr (Some path))
             } else do {
               path \<leftarrow> memcpy_to path p1_len b2 p2_len;
               path \<leftarrow> set_at path (p1_len + p2_len) 0;
               Some (Inr (Some path))
             }
           })
         }
       })"

text \<open>The path a name denotes relative to a directory.\<close>

definition joined :: "u8 list \<Rightarrow> u8 list \<Rightarrow> u8 list" where
  "joined p q =
     (if q \<noteq> [] \<and> hd q = PATH_SEP then q
      else if p = [] \<or> last p = PATH_SEP then p @ q
      else p @ [PATH_SEP] @ q)"

lemma joined_assoc: "joined (joined p q) r = joined p (joined q r)"
  by (auto simp: joined_def hd_append)

lemma joined_Nil [simp]: "joined [] q = q"
  by (simp add: joined_def)

lemma strcpy_end:
  assumes "length (p @ q) < length b"
  shows "\<exists>r. (do { b \<leftarrow> memcpy_to (p @ drop (length p) b) (length p) (q @ 0 # z) (length q); set_at b (length p + length q) 0 })
    = Some (p @ q @ 0 # r)"
proof -
  obtain x r where x: "drop (length p + length q) b = x # r" using assms by (cases "drop (length p + length q) b") auto
  then show ?thesis using assms by (auto simp: list_update_append add.commute)
qed

lemma path_join_cases:
  assumes "malloc_ok malloc" and "0 \<notin> set p" and "0 \<notin> set q"
  shows "path_join malloc (Some (p @ 0 # z)) (Some (q @ 0 # y)) = Some (Inl (- 1)) \<and> (\<exists>n. malloc n = None) \<or>
    (\<exists>b r. path_join malloc (Some (p @ 0 # z)) (Some (q @ 0 # y)) = Some (Inr (Some b)) \<and> b = joined p q @ 0 # r)"
proof -
  have c: "get_at (q @ 0 # y) 0 = Some (if q = [] then 0 else hd q)" by (cases q) auto
  show "path_join malloc (Some (p @ 0 # z)) (Some (q @ 0 # y)) = Some (Inl (- 1)) \<and> (\<exists>n. malloc n = None) \<or>
      (\<exists>b r. path_join malloc (Some (p @ 0 # z)) (Some (q @ 0 # y)) = Some (Inr (Some b)) \<and> b = joined p q @ 0 # r)"
  proof (cases "q \<noteq> [] \<and> hd q = PATH_SEP")
    case True
    then show ?thesis using c assms(3)
      by (cases "malloc (length q + 1)") (auto simp: path_join_def safe_strdup_def die_oom_def joined_def simp del: get_at_in)
  next
    case False
    then have c': "get_at (q @ 0 # y) 0 = Some c \<Longrightarrow> c \<noteq> PATH_SEP" for c using c by (auto simp: PATH_SEP_def split: if_splits simp del: get_at_in)
    show ?thesis
    proof (rule safe_malloc_cases [OF assms(1), of "length p + length q + 2"])
      assume "safe_malloc malloc (length p + length q + 2) = Inl (- 1)" "malloc (length p + length q + 2) = None"
      then show ?thesis using c c' assms by (auto simp: path_join_def simp del: get_at_in)
    next
      fix b assume b: "safe_malloc malloc (length p + length q + 2) = Inr b" "length b = length p + length q + 2"
      have copy: "memcpy_to b 0 (p @ 0 # z) (length p) = Some (p @ drop (length p) b)" using b(2) by simp
      show ?thesis
      proof (cases "p = [] \<or> last p = PATH_SEP")
        case True
        obtain r where "(do { b \<leftarrow> memcpy_to (p @ drop (length p) b) (length p) (q @ 0 # y) (length q);
            set_at b (length p + length q) 0 }) = Some (p @ q @ 0 # r)"
          using strcpy_end [of p q b y] b(2) by auto
        moreover have "(if length p \<noteq> 0 then map_option (\<lambda>c. c \<noteq> PATH_SEP) (get_at (p @ drop (length p) b) (length p - 1))
            else Some False) = Some False" using True by (cases p rule: rev_cases) auto
        ultimately show ?thesis using False True b(1) c c' copy assms
          by (auto simp: path_join_def joined_def bind_eq_Some_conv simp del: get_at_in set_at_in memcpy_to_in)
      next
        case nosep: False
        have set: "set_at (p @ drop (length p) b) (length p) PATH_SEP = Some ((p @ [PATH_SEP]) @ drop (length (p @ [PATH_SEP])) b)"
          using Cons_nth_drop_Suc [of "length p" b, symmetric] b(2) by (simp add: list_update_append)
        obtain r where "(do { b \<leftarrow> memcpy_to ((p @ [PATH_SEP]) @ drop (length (p @ [PATH_SEP])) b) (length (p @ [PATH_SEP])) (q @ 0 # y) (length q);
            set_at b (length (p @ [PATH_SEP]) + length q) 0 }) = Some ((p @ [PATH_SEP]) @ q @ 0 # r)"
          using strcpy_end [of "p @ [PATH_SEP]" q b y] b(2) by auto
        moreover have "(if length p \<noteq> 0 then map_option (\<lambda>c. c \<noteq> PATH_SEP) (get_at (p @ drop (length p) b) (length p - 1))
            else Some False) = Some True" using nosep by (cases p rule: rev_cases) auto
        ultimately show ?thesis using False nosep b(1) c c' copy set assms
          by (auto simp: path_join_def joined_def bind_eq_Some_conv simp del: get_at_in set_at_in memcpy_to_in)
      qed
    qed
  qed
qed

text \<open>C19. \<open>path_join()\<close> returns a freshly allocated, terminated string with the path of \<open>q\<close>
  relative to \<open>p\<close>: \<open>q\<close> itself when it is absolute or \<open>p\<close> is empty or NULL, and otherwise \<open>p\<close> and \<open>q\<close>
  with exactly one separator added where \<open>p\<close> does not end in one.  Every write stays within the
  allocation; when memory runs out the process ends.\<close>

theorem path_join_correct:
  assumes "malloc_ok malloc" and "0 \<notin> set p" and "0 \<notin> set q"
  shows "path_join malloc (Some (p @ 0 # z)) (Some (q @ 0 # y)) = Some (Inl (- 1)) \<and> (\<exists>n. malloc n = None) \<or>
    (\<exists>b r. path_join malloc (Some (p @ 0 # z)) (Some (q @ 0 # y)) = Some (Inr (Some b)) \<and> b = joined p q @ 0 # r)"
  using assms by (rule path_join_cases)

text \<open>A NULL name gives NULL, a NULL directory the name itself.\<close>

lemma path_join_NULL: "path_join malloc p None = Some (Inr None)"
  by (simp add: path_join_def)

subsection \<open>Reading a stream to its end\<close>

text \<open>\<open>sm_bad\<close>: the stream fails, rather than ends, behind \<open>sm_rest\<close>.\<close>

record stream =
  sm_rest :: "u8 list"
  sm_bad :: bool
  sm_err :: bool
  sm_eof :: bool

definition fread :: "stream \<Rightarrow> nat \<Rightarrow> u8 list \<times> stream" where
  "fread s n =
     (if n \<le> length (sm_rest s) then (take n (sm_rest s), s\<lparr>sm_rest := drop n (sm_rest s)\<rparr>)
      else (sm_rest s, s\<lparr>sm_rest := [], sm_err := sm_err s \<or> sm_bad s, sm_eof := sm_eof s \<or> \<not> sm_bad s\<rparr>))"

text \<open>Sizes wrap at \<open>2 ^ 64\<close>.\<close>

definition size_add :: "nat \<Rightarrow> nat \<Rightarrow> nat" where
  "size_add a b = (a + b) mod 2 ^ 64"

partial_function (option) read_all_loop ::
    "(u8 list option \<Rightarrow> nat \<Rightarrow> u8 list option) \<Rightarrow> stream \<Rightarrow> u8 list option \<Rightarrow> nat \<Rightarrow> nat \<Rightarrow> nat \<Rightarrow>
       (int + (u8 list option \<times> nat \<times> stream) option) option" where
  "read_all_loop realloc in1 data size1 used chunk_size = do {
     let want = size_add (size_add used chunk_size) 1;
     if want > size1 \<and> want \<le> used then Some (Inr None)
     else case (if want > size1 then map_sum id Some (safe_realloc realloc data want) else Inr data) of
         Inl rc \<Rightarrow> Some (Inl rc)
       | Inr data \<Rightarrow> do {
           let size1 = (if want > size1 then want else size1);
           let (got, in1) = fread in1 chunk_size;
           b \<leftarrow> data;
           b \<leftarrow> buf_write b used got;
           let used = used + length got;
           if length got < chunk_size then Some (Inr (Some (Some b, used, in1)))
           else read_all_loop realloc in1 (Some b) size1 used ((chunk_size * 2) mod 2 ^ 64)
         }
   }"

text \<open>The result: the process ended, or a return value with the contents and their length on 0.\<close>

definition file_read_all ::
    "(u8 list option \<Rightarrow> nat \<Rightarrow> u8 list option) \<Rightarrow> stream option \<Rightarrow> (int + int \<times> (u8 list \<times> nat) option) option" where
  "file_read_all realloc in1 = (case in1 of
       None \<Rightarrow> Some (Inr (- 1, None))
     | Some in1 \<Rightarrow>
         if sm_err in1 then Some (Inr (- 1, None))
         else do {
           r \<leftarrow> read_all_loop realloc in1 None 0 0 (2 * 1024);
           and_then r (\<lambda>res. case res of
               None \<Rightarrow> Some (Inr (- 1, None))
             | Some (data, used, in1) \<Rightarrow>
                 if sm_err in1 \<or> \<not> sm_eof in1 then Some (Inr (- 1, None))
                 else and_then (safe_realloc realloc data (size_add used 1)) (\<lambda>b. do {
                   b \<leftarrow> set_at b used 0;
                   Some (Inr (0, Some (b, used)))
                 }))
         })"

text \<open>The allocator cannot give \<open>n\<close> bytes or fewer.\<close>

definition realloc_fails :: "(u8 list option \<Rightarrow> nat \<Rightarrow> u8 list option) \<Rightarrow> nat \<Rightarrow> bool" where
  "realloc_fails realloc n \<longleftrightarrow> (\<exists>d m. m \<le> n \<and> realloc d m = None)"

lemma realloc_fails_mono: "realloc_fails realloc n \<Longrightarrow> n \<le> m \<Longrightarrow> realloc_fails realloc m"
  unfolding realloc_fails_def by (blast intro: le_trans)

lemma safe_realloc_grows:
  assumes "realloc_ok realloc" and "\<forall>b. data = Some b \<longrightarrow> k \<le> length b \<and> take k b = front" and "data = None \<longrightarrow> k = 0 \<and> front = []" and "k \<le> n"
  shows "safe_realloc realloc data n = Inl (- 1) \<and> realloc_fails realloc n \<or>
    (\<exists>b. safe_realloc realloc data n = Inr b \<and> length b = n \<and> take k b = front)"
proof (cases "realloc data n")
  case None
  then show ?thesis by (auto simp: safe_realloc_def die_oom_def realloc_fails_def)
next
  case (Some b)
  have "length b = n \<and> take k b = front"
  proof (cases data)
    case None
    then show ?thesis using assms Some by (auto simp: realloc_ok_def)
  next
    case (Some d)
    then have "length b = n" and eq: "take (min n (length d)) b = take (min n (length d)) d"
      using assms(1) \<open>realloc data n = Some b\<close> by (auto simp: realloc_ok_def)
    have "take k (take (min n (length d)) b) = take k (take (min n (length d)) d)" using eq by simp
    then show ?thesis using assms(2,4) Some \<open>length b = n\<close> by (simp add: min_def split: if_splits)
  qed
  then show ?thesis using Some by (simp add: safe_realloc_def)
qed

lemma read_all_loop_reads:
  assumes "realloc_ok realloc" and "\<forall>b. data = Some b \<longrightarrow> used \<le> length b \<and> take used b = front"
    and "data = None \<longrightarrow> used = 0" and "size1 \<le> used + 1" and "chunk = used + 2048" and "length front = used"
    and "used + length (sm_rest s) < 2 ^ 62"
  shows "read_all_loop realloc s data size1 used chunk = Some (Inl (- 1)) \<and>
      realloc_fails realloc (2 * (used + length (sm_rest s)) + 2049) \<or>
    (\<exists>b. read_all_loop realloc s data size1 used chunk = Some (Inr (Some (Some b, used + length (sm_rest s),
        s\<lparr>sm_rest := [], sm_err := sm_err s \<or> sm_bad s, sm_eof := sm_eof s \<or> \<not> sm_bad s\<rparr>))) \<and>
      used + length (sm_rest s) < length b \<and> take (used + length (sm_rest s)) b = front @ sm_rest s)"
  using assms
proof (induction "length (sm_rest s)" arbitrary: s data size1 used chunk front rule: less_induct)
  case less
  have want: "size_add (size_add used chunk) 1 = used + chunk + 1" "used + chunk + 1 > size1" "\<not> used + chunk + 1 \<le> used"
    using less.prems by (simp_all add: size_add_def)
  have none: "data = None \<longrightarrow> used = 0 \<and> front = []" using less.prems by auto
  have le: "used \<le> used + chunk + 1" by simp
  from safe_realloc_grows [OF assms(1) less.prems(2) none le] show ?case
  proof (elim disjE exE conjE)
    assume "safe_realloc realloc data (used + chunk + 1) = Inl (- 1)" and fails: "realloc_fails realloc (used + chunk + 1)"
    moreover have "realloc_fails realloc (2 * (used + length (sm_rest s)) + 2049)"
      by (rule realloc_fails_mono [OF fails]) (use less.prems(5) in simp)
    ultimately show ?thesis using want by (subst read_all_loop.simps) (simp add: Let_def)
  next
    fix b assume b: "safe_realloc realloc data (used + chunk + 1) = Inr b" "length b = used + chunk + 1" "take used b = front"
    show ?thesis
    proof (cases "chunk \<le> length (sm_rest s)")
      case True
      let ?got = "take chunk (sm_rest s)"
      let ?s = "s\<lparr>sm_rest := drop chunk (sm_rest s)\<rparr>"
      let ?b = "front @ ?got @ drop (used + chunk) b"
      have wr: "buf_write b used ?got = Some ?b" using b True by simp
      have fr: "fread s chunk = (?got, ?s)" using True by (simp add: fread_def)
      have ch: "(chunk * 2) mod 2 ^ 64 = used + chunk + 2048" using less.prems(5,7) True by simp
      have shorter: "length (sm_rest ?s) < length (sm_rest s)" using True less.prems(5) by simp
      have step: "read_all_loop realloc s data size1 used chunk
          = read_all_loop realloc ?s (Some ?b) (used + chunk + 1) (used + chunk) (used + chunk + 2048)"
        using want b(1) wr fr ch True by (subst read_all_loop.simps) (simp add: Let_def)
      have front: "length (front @ ?got) = used + chunk" using less.prems(6) True by simp
      have "take (used + chunk) ?b = front @ ?got" using less.prems(6) True by simp
      moreover have "used + chunk \<le> length ?b" using b(2) front by simp
      ultimately show ?thesis unfolding step
        using less.hyps [OF shorter assms(1), of "Some ?b" "used + chunk" "front @ ?got" "used + chunk + 1" "used + chunk + 2048"]
          front less.prems(7) True by simp
    next
      case False
      let ?b = "front @ sm_rest s @ drop (used + length (sm_rest s)) b"
      have wr: "buf_write b used (sm_rest s) = Some ?b" using b False by simp
      have fr: "fread s chunk = (sm_rest s, s\<lparr>sm_rest := [], sm_err := sm_err s \<or> sm_bad s, sm_eof := sm_eof s \<or> \<not> sm_bad s\<rparr>)"
        using False by (simp add: fread_def)
      have "read_all_loop realloc s data size1 used chunk = Some (Inr (Some (Some ?b, used + length (sm_rest s),
          s\<lparr>sm_rest := [], sm_err := sm_err s \<or> sm_bad s, sm_eof := sm_eof s \<or> \<not> sm_bad s\<rparr>)))"
        using want b(1) wr fr False by (subst read_all_loop.simps) (simp add: Let_def)
      moreover have "used + length (sm_rest s) < length ?b \<and> take (used + length (sm_rest s)) ?b = front @ sm_rest s"
        using less.prems(6) b(2) False by simp
      ultimately show ?thesis by blast
    qed
  qed
qed

text \<open>The loop, the end of the stream and the terminator together.\<close>

lemma file_read_all_reads:
  assumes "realloc_ok realloc" and "length (sm_rest s) < 2 ^ 62" and "\<not> sm_eof s"
  shows "file_read_all realloc (Some s) = (if sm_err s \<or> sm_bad s then Some (Inr (- 1, None))
      else Some (Inr (0, Some (sm_rest s @ [0], length (sm_rest s))))) \<or>
    \<not> sm_err s \<and> file_read_all realloc (Some s) = Some (Inl (- 1)) \<and> realloc_fails realloc (2 * length (sm_rest s) + 2049)"
proof (cases "sm_err s")
  case True
  then show ?thesis by (simp add: file_read_all_def)
next
  case False
  let ?n = "length (sm_rest s)"
  let ?s = "s\<lparr>sm_rest := [], sm_err := sm_err s \<or> sm_bad s, sm_eof := sm_eof s \<or> \<not> sm_bad s\<rparr>"
  from read_all_loop_reads [OF assms(1), of None 0 "[]" 0 2048 s] assms(2)
  consider "read_all_loop realloc s None 0 0 2048 = Some (Inl (- 1))" "realloc_fails realloc (2 * ?n + 2049)"
    | b where "read_all_loop realloc s None 0 0 2048 = Some (Inr (Some (Some b, ?n, ?s)))" "?n < length b" "take ?n b = sm_rest s"
    by auto
  then show ?thesis
  proof cases
    case 1
    then show ?thesis using False by (simp add: file_read_all_def)
  next
    case (2 b)
    show ?thesis
    proof (cases "sm_bad s")
      case True
      then show ?thesis using 2(1) False by (simp add: file_read_all_def)
    next
      case ok: False
      have add: "size_add ?n 1 = ?n + 1" using assms(2) by (simp add: size_add_def)
      have "\<forall>c. Some b = Some c \<longrightarrow> ?n \<le> length c \<and> take ?n c = sm_rest s" using 2 by simp
      from safe_realloc_grows [OF assms(1) this, of "?n + 1"] consider
          "safe_realloc realloc (Some b) (?n + 1) = Inl (- 1)" "realloc_fails realloc (?n + 1)"
        | c where "safe_realloc realloc (Some b) (?n + 1) = Inr c" "length c = ?n + 1" "take ?n c = sm_rest s"
        by auto
      then show ?thesis
      proof cases
        case 1
        from 1(2) have "realloc_fails realloc (2 * ?n + 2049)" by (rule realloc_fails_mono) simp
        with 1(1) show ?thesis using 2(1) ok False assms(3) add by (simp add: file_read_all_def)
      next
        case (2 c)
        have "c = sm_rest s @ [c ! ?n]" using 2(2,3) by (metis Suc_eq_plus1 lessI take_Suc_conv_app_nth take_all_iff order_refl)
        then have "set_at c ?n 0 = Some (sm_rest s @ [0])" using 2(2) by (metis list_update_length less_add_one set_at_in)
        then show ?thesis using 2(1) \<open>read_all_loop realloc s None 0 0 2048 = _\<close> ok False assms(3) add
          by (simp add: file_read_all_def del: set_at_in)
      qed
    qed
  qed
qed

text \<open>C18. \<open>file_read_all()\<close> on a fresh stream of any length below \<open>2 ^ 62\<close> terminates and returns 0 with
  exactly the bytes of the stream, a NUL behind them and their number; a stream that fails before
  its end, or had failed before, gives -1.  No read or write leaves the growing buffer.  The process
  ends only when the allocator refuses a request, which is of at most twice the length of the
  stream and 2049 bytes.\<close>

theorem file_read_all_correct:
  assumes "realloc_ok realloc" and "length (sm_rest s) < 2 ^ 62" and "\<not> sm_eof s"
  shows "file_read_all realloc (Some s) = (if sm_err s \<or> sm_bad s then Some (Inr (- 1, None))
      else Some (Inr (0, Some (sm_rest s @ [0], length (sm_rest s))))) \<or>
    \<not> sm_err s \<and> file_read_all realloc (Some s) = Some (Inl (- 1)) \<and> realloc_fails realloc (2 * length (sm_rest s) + 2049)"
  using assms by (rule file_read_all_reads)

text \<open>An allocator that never fails and clears nothing.\<close>

definition plain_realloc :: "u8 list option \<Rightarrow> nat \<Rightarrow> u8 list option" where
  "plain_realloc d n = (let d = (case d of None \<Rightarrow> [] | Some d \<Rightarrow> d) in Some (take n d @ replicate (n - length d) 0x7f))"

lemma plain_realloc_ok: "realloc_ok plain_realloc"
  by (auto simp: realloc_ok_def plain_realloc_def min_def)

lemma plain_realloc_never_fails: "\<not> realloc_fails plain_realloc n"
  by (simp add: realloc_fails_def plain_realloc_def Let_def)

theorem file_read_all_correct_witness:
  "file_read_all plain_realloc (Some \<lparr> sm_rest = [1, 2], sm_bad = False, sm_err = False, sm_eof = False \<rparr>)
    = Some (Inr (0, Some ([1, 2, 0], length [1, 2 :: u8])))"
  using file_read_all_correct [OF plain_realloc_ok, of "\<lparr> sm_rest = [1, 2], sm_bad = False, sm_err = False, sm_eof = False \<rparr>"]
    plain_realloc_never_fails by auto

theorem path_join_correct_witness:
  "\<exists>b r. path_join (\<lambda>n. Some (replicate n 0x7f)) (Some [0x61, 0]) (Some [0x62, 0]) = Some (Inr (Some b)) \<and> b = [0x61, 0x2f, 0x62, 0] @ r"
  using path_join_correct [of "\<lambda>n. Some (replicate n 0x7f)" "[0x61]" "[0x62]" "[]" "[]"]
  by (auto simp: malloc_ok_def joined_def PATH_SEP_def)

end
