(* ===== verification/FileOps.thy ===== *)
theory FileOps
  imports FileUtils
begin

text \<open>
  Whole binary files, tests on paths and the parts of a path (\<open>src/file.c\<close>).  What the system says
  about a path is a parameter.
\<close>

subsection \<open>Binary files\<close>

text \<open>
  A file on disk or a stream: its contents, whether it can be positioned, and the offset at which
  reading it fails, if it does.
\<close>

record bin_file =
  fl_data :: "u8 list"
  fl_seekable :: bool
  fl_bad :: "nat option"

definition good_file :: "u8 list \<Rightarrow> bin_file" where
  "good_file d = \<lparr> fl_data = d, fl_seekable = True, fl_bad = None \<rparr>"

text \<open>\<open>ftell\<close> answers -1 on a file that cannot be positioned, which becomes the largest \<open>size_t\<close>.\<close>

definition file_size :: "bin_file \<Rightarrow> nat" where
  "file_size fp = (if fl_seekable fp then length (fl_data fp) else 2 ^ 64 - 1)"

text \<open>
  \<open>fread(buf, size, 1, fp)\<close> is 1 when \<open>size\<close> bytes were there; of no bytes it is 0.  The buffer and the
  size are stored even if reading fails.
\<close>

definition read_binary_file ::
    "(nat \<Rightarrow> u8 list option) \<Rightarrow> bin_file option \<Rightarrow> (int + int \<times> (u8 list \<times> nat) option) option" where
  "read_binary_file malloc path = (case path of
       None \<Rightarrow> Some (Inr (- 1, None))
     | Some fp \<Rightarrow>
         let size1 = file_size fp
         in and_then (safe_malloc malloc size1) (\<lambda>buf. do {
              let got = take (min size1 (case fl_bad fp of None \<Rightarrow> size1 | Some n \<Rightarrow> n)) (fl_data fp);
              buf \<leftarrow> buf_write buf 0 got;
              Some (Inr (if size1 = 0 \<or> length got < size1 then - 1 else 0, Some (buf, size1)))
            }))"

text \<open>Opening for writing empties the file; \<open>room\<close> is the number of bytes that can be written.\<close>

definition write_binary_file :: "bool \<Rightarrow> nat \<Rightarrow> u8 list \<Rightarrow> nat \<Rightarrow> (int \<times> bin_file option) option" where
  "write_binary_file can_open room buf size1 =
     (if \<not> can_open then Some (- 1, None)
      else do {
        data \<leftarrow> buf_read buf 0 (min room size1);
        Some (if size1 = 0 \<or> room < size1 then - 1 else 0, Some (good_file data))
      })"

text \<open>What was written is read back, with its size.  An empty file fails both ways.\<close>

lemma binary_file_round_trip:
  assumes "malloc_ok malloc" and "malloc (length data) = Some p" and "data \<noteq> []" and "length data \<le> room"
  shows "write_binary_file True room data (length data) = Some (0, Some (good_file data)) \<and>
    read_binary_file malloc (Some (good_file data)) = Some (Inr (0, Some (data, length data)))"
proof -
  have "length p = length data" using assms(1,2) by (auto simp: malloc_ok_def)
  with assms show ?thesis
    by (simp add: write_binary_file_def read_binary_file_def buf_read_def buf_write_def file_size_def
        good_file_def safe_malloc_def Let_def)
qed

lemma binary_file_empty:
  assumes "malloc 0 = Some p"
  shows "write_binary_file True room buf 0 = Some (- 1, Some (good_file [])) \<and>
    read_binary_file malloc (Some (good_file [])) = Some (Inr (- 1, Some (p, 0)))"
  using assms by (simp add: write_binary_file_def read_binary_file_def buf_read_def buf_write_def file_size_def
      good_file_def safe_malloc_def Let_def)

subsection \<open>Tests on paths\<close>

text \<open>The answers of \<open>opendir\<close>, \<open>access\<close> and \<open>getcwd\<close>; \<open>stat\<close> leaves \<open>junk\<close> when it fails.\<close>

definition dir_exists :: "bool \<Rightarrow> bool" where
  "dir_exists opendir_ok = opendir_ok"

definition file_exists :: "int \<Rightarrow> bool" where
  "file_exists access_rc \<longleftrightarrow> access_rc = 0"

definition is_regular_file :: "bool \<Rightarrow> bool option \<Rightarrow> bool" where
  "is_regular_file junk st_isreg = (case st_isreg of None \<Rightarrow> junk | Some b \<Rightarrow> b)"

definition get_working_directory :: "u8 list option \<Rightarrow> u8 list option" where
  "get_working_directory cwd = (case cwd of None \<Rightarrow> None | Some d \<Rightarrow> if length d < 4096 then Some d else None)"

subsection \<open>The parts of a path\<close>

text \<open>
  \<open>dirname\<close> and \<open>basename\<close> of the C library on a path as \<open>realpath\<close> gives it: absolute, without a slash
  at the end unless it is the root.  \<open>dirname\<close> cuts its argument.
\<close>

definition libc_dirname :: "u8 list \<Rightarrow> u8 list" where
  "libc_dirname s = (let d = butlast (rev (dropWhile (\<lambda>c. c \<noteq> PATH_SEP) (rev s))) in if d = [] then [PATH_SEP] else d)"

definition libc_basename :: "u8 list \<Rightarrow> u8 list" where
  "libc_basename s = (let n = rev (takeWhile (\<lambda>c. c \<noteq> PATH_SEP) (rev s)) in if n = [] then s else n)"

text \<open>
  The result and the two strings, for the ones asked for.  Strings are without terminators; running
  out of memory ends the process and is left out.  The base name is taken from \<open>rpath\<close> as \<open>dirname\<close>
  has left it.
\<close>

definition path_extract ::
    "bool \<Rightarrow> u8 list option \<Rightarrow> bool \<Rightarrow> bool \<Rightarrow> int \<times> u8 list option \<times> u8 list option" where
  "path_extract regular realpath want_dir want_base =
     (if \<not> regular then (- 1, None, None)
      else case realpath of
          None \<Rightarrow> (- 1, None, None)
        | Some rpath \<Rightarrow>
            let dname = libc_dirname rpath;
                dir_name = (if want_dir then Some dname else None);
                rpath = (if want_dir then dname else rpath);
                base_name = (if want_base then Some (libc_basename rpath) else None)
            in (0, dir_name, base_name))"

lemma libc_dirname_append:
  assumes "PATH_SEP \<notin> set n"
  shows "libc_dirname (d @ PATH_SEP # n) = (if d = [] then [PATH_SEP] else d)"
proof -
  have "dropWhile (\<lambda>c. c \<noteq> PATH_SEP) (rev (d @ PATH_SEP # n)) = PATH_SEP # rev d"
    using assms dropWhile_append2 [of "rev n" "\<lambda>c. c \<noteq> PATH_SEP" "PATH_SEP # rev d"] by (auto simp del: dropWhile_append)
  then show ?thesis by (simp add: libc_dirname_def)
qed

lemma libc_basename_append:
  assumes "PATH_SEP \<notin> set n" and "n \<noteq> []"
  shows "libc_basename (d @ PATH_SEP # n) = n"
proof -
  have "takeWhile (\<lambda>c. c \<noteq> PATH_SEP) (rev (d @ PATH_SEP # n)) = rev n"
    using assms takeWhile_append2 [of "rev n" "\<lambda>c. c \<noteq> PATH_SEP" "PATH_SEP # rev d"] by (auto simp del: takeWhile_append)
  with assms(2) show ?thesis by (simp add: libc_basename_def)
qed

text \<open>
  Asked for one part of the path of a regular file, \<open>path_extract()\<close> returns it.  Asked for both, it
  returns the directory, and as base name the name of the directory instead of the file's: \<open>dirname\<close>
  has cut \<open>rpath\<close> before it is copied for \<open>basename\<close>.
\<close>

lemma path_extract_one_part:
  assumes n: "PATH_SEP \<notin> set n" "n \<noteq> []"
  shows "path_extract True (Some (d @ PATH_SEP # n)) True False = (0, Some (if d = [] then [PATH_SEP] else d), None)"
    and "path_extract True (Some (d @ PATH_SEP # n)) False True = (0, None, Some n)"
  by (simp_all add: path_extract_def libc_dirname_append [OF n(1)] libc_basename_append [OF n])

lemma path_extract_both_parts:
  assumes e: "PATH_SEP \<notin> set e" "e \<noteq> []" and n: "PATH_SEP \<notin> set n" "n \<noteq> []"
  shows "path_extract True (Some (d @ PATH_SEP # e @ PATH_SEP # n)) True True = (0, Some (d @ PATH_SEP # e), Some e)"
  using libc_dirname_append [OF n(1), of "d @ PATH_SEP # e"] libc_basename_append [OF e, of d]
  by (simp add: path_extract_def)

end
