(* ===== verification/StrUtils.thy ===== *)
theory StrUtils
  imports CString "HOL-Library.Sublist"
begin

text \<open>
  The string editing functions of \<open>src/strutils.c\<close>: parsing a number, bounded copies, trimming,
  removing and counting characters, case conversion.  Each works in place on the bytes of the
  object its argument points to and returns the new bytes.
\<close>

subsection \<open>safe_atoi and safe_strncpy\<close>

fun dec_value :: "u8 list \<Rightarrow> int \<Rightarrow> int" where
  "dec_value [] v = v"
| "dec_value (c # s) v = (if isdigit c then dec_value s (v * 10 + uint (c - 0x30)) else v)"

text \<open>\<open>atoi\<close>: white space, an optional sign, digits.  An unrepresentable value is undefined.\<close>

definition atoi :: "u8 list \<Rightarrow> int option" where
  "atoi s =
     (let s = dropWhile isspace s;
          v = (case s of [] \<Rightarrow> 0
               | c # s' \<Rightarrow> if c = 0x2d then - dec_value s' 0 else if c = 0x2b then dec_value s' 0
                          else dec_value s 0)
      in if int_ok v then Some v else None)"

definition safe_atoi :: "u8 list option \<Rightarrow> int \<Rightarrow> (int \<times> int) option" where
  "safe_atoi a i = (case a of
       None \<Rightarrow> Some (- 1, i)
     | Some a \<Rightarrow> do {
         s \<leftarrow> c_string a 0;
         val \<leftarrow> atoi s;
         c \<leftarrow> get_at a 0;
         if val = 0 \<and> c \<noteq> 0x30 then Some (- 1, i) else Some (0, val)
       })"

text \<open>\<open>strncpy(dest, src, n)\<close> copies at most \<open>n\<close> characters and pads with NULs up to \<open>n\<close>.\<close>

fun strncpy_loop :: "u8 list \<Rightarrow> u8 list \<Rightarrow> nat \<Rightarrow> nat \<Rightarrow> bool \<Rightarrow> u8 list option" where
  "strncpy_loop dest src i 0 pad = Some dest"
| "strncpy_loop dest src i (Suc n) pad = do {
     c \<leftarrow> (if pad then Some 0 else get_at src i);
     dest \<leftarrow> set_at dest i c;
     strncpy_loop dest src (i + 1) n (c = 0)
   }"

text \<open>\<open>size - 1\<close> wraps at 0: the copy would then be of \<open>SIZE_MAX\<close> bytes.\<close>

definition safe_strncpy :: "u8 list \<Rightarrow> u8 list \<Rightarrow> u64 \<Rightarrow> u8 list option" where
  "safe_strncpy dest src size1 = do {
     dest \<leftarrow> strncpy_loop dest src 0 (unat (size1 - 1)) False;
     set_at dest (unat (size1 - 1)) 0
   }"

subsection \<open>Trimming\<close>

text \<open>\<open>while (i > 0 && P(str[i - 1])) { str[i - 1] = 0; i -= 1; }\<close>\<close>

fun strip_back :: "(u8 \<Rightarrow> bool) \<Rightarrow> u8 list \<Rightarrow> nat \<Rightarrow> (nat \<times> u8 list) option" where
  "strip_back P str 0 = Some (0, str)"
| "strip_back P str (Suc i) = do {
     c \<leftarrow> get_at str i;
     if P c then do { str \<leftarrow> set_at str i 0; strip_back P str i } else Some (Suc i, str)
   }"

definition rstrip :: "u8 list \<Rightarrow> (int \<times> u8 list) option" where
  "rstrip str = do {
     n \<leftarrow> c_strlen str;
     let i = int_of_size n;
     if i > 0 then do { (i, str) \<leftarrow> strip_back (\<lambda>c. c = 0x20) str (nat i); Some (int i, str) }
     else Some (i, str)
   }"

definition chomp :: "u8 list \<Rightarrow> (nat \<times> u8 list) option" where
  "chomp str = do {
     i \<leftarrow> c_strlen str;
     strip_back (\<lambda>c. c = 0x0a \<or> c = 0x0d) str i
   }"

partial_function (option) copy_down :: "u8 list \<Rightarrow> nat \<Rightarrow> nat \<Rightarrow> (nat \<times> u8 list) option" where
  "copy_down str i j = do {
     c \<leftarrow> get_at str i;
     if c = 0 then Some (j, str)
     else do { str \<leftarrow> set_at str j c; i \<leftarrow> int_index (i + 1); j \<leftarrow> int_index (j + 1); copy_down str i j }
   }"

definition lstrip :: "u8 list \<Rightarrow> (int \<times> u8 list) option" where
  "lstrip str = do {
     i \<leftarrow> scan (\<lambda>c. c = 0x20) str 0;
     i \<leftarrow> int_index i;
     if i = 0 then Some (- 1, str)
     else do {
       (j, str) \<leftarrow> copy_down str i 0;
       str \<leftarrow> set_at str j 0;
       Some (if j > 0 then int j - 1 else 0, str)
     }
   }"

text \<open>The macro moves the pointer \<open>p\<close>, which may be null, and leaves the string alone.\<close>

definition lstrip_soft :: "u8 list \<Rightarrow> nat option \<Rightarrow> nat option option" where
  "lstrip_soft str p = (case p of None \<Rightarrow> Some None | Some p \<Rightarrow> map_option Some (scan (\<lambda>c. c = 0x20) str p))"

definition strip :: "u8 list \<Rightarrow> (int \<times> u8 list) option" where
  "strip str = do {
     (rs_len, str) \<leftarrow> rstrip str;
     (ls_len, str) \<leftarrow> lstrip str;
     Some (if ls_len > 0 then ls_len else rs_len, str)
   }"

fun tail_match :: "u8 list \<Rightarrow> u8 list \<Rightarrow> nat \<Rightarrow> nat \<Rightarrow> nat option" where
  "tail_match str suffix1 i 0 = Some i"
| "tail_match str suffix1 i (Suc j) =
     (if i = 0 then None
      else do {
        c \<leftarrow> get_at str (i - 1);
        d \<leftarrow> get_at suffix1 j;
        if c = d then tail_match str suffix1 (i - 1) j else Some i
      })"

definition trim_suffix :: "u8 list option \<Rightarrow> u8 list option \<Rightarrow> (int \<times> u8 list option) option" where
  "trim_suffix str suffix1 = (case (str, suffix1) of
       (Some s, Some t) \<Rightarrow> do {
         n \<leftarrow> c_strlen s;
         m \<leftarrow> c_strlen t;
         let i = int_of_size n;
         let j = int_of_size m;
         if j > i then Some (- 1, Some s)
         else if i < 0 then None
         else do {
           i \<leftarrow> tail_match s t (nat i) (nat j);
           s \<leftarrow> set_at s i 0;
           Some (0, Some s)
         }
       }
     | _ \<Rightarrow> Some (- 1, str))"

subsection \<open>Filtering, counting, case\<close>

partial_function (option) remove_loop :: "u8 \<Rightarrow> u8 list \<Rightarrow> nat \<Rightarrow> nat \<Rightarrow> (nat \<times> u8 list) option" where
  "remove_loop c str i j = do {
     x \<leftarrow> get_at str i;
     if x = 0 then Some (j, str)
     else do {
       (str, j) \<leftarrow> (if x \<noteq> c then do { str \<leftarrow> set_at str j x; j \<leftarrow> int_index (j + 1); Some (str, j) } else Some (str, j));
       i \<leftarrow> int_index (i + 1);
       remove_loop c str i j
     }
   }"

definition remove_all :: "u8 list \<Rightarrow> u8 \<Rightarrow> u8 list option" where
  "remove_all str c = do { (j, str) \<leftarrow> remove_loop c str 0 0; set_at str j 0 }"

partial_function (option) count_loop :: "u8 list \<Rightarrow> u8 \<Rightarrow> nat \<Rightarrow> nat \<Rightarrow> nat option" where
  "count_loop s c i count = do {
     x \<leftarrow> get_at s i;
     if x = 0 then Some count
     else do {
       count \<leftarrow> (if x = c then int_index (count + 1) else Some count);
       i \<leftarrow> int_index (i + 1);
       count_loop s c i count
     }
   }"

definition strcntchr :: "u8 list \<Rightarrow> u8 \<Rightarrow> nat option" where
  "strcntchr s c = count_loop s c 0 0"

definition strisempty :: "u8 list option \<Rightarrow> bool option" where
  "strisempty s = (case s of
       None \<Rightarrow> Some True
     | Some b \<Rightarrow> do { i \<leftarrow> scan isspace b 0; c \<leftarrow> get_at b i; Some (c = 0) })"

partial_function (option) case_loop :: "(u8 \<Rightarrow> u8) \<Rightarrow> u8 list \<Rightarrow> nat \<Rightarrow> u8 list option" where
  "case_loop f s i = do {
     c \<leftarrow> get_at s i;
     if c = 0 then Some s
     else do { s \<leftarrow> (if isalpha c then set_at s i (f c) else Some s); case_loop f s (i + 1) }
   }"

definition to_upper :: "u8 list \<Rightarrow> u8 list option" where
  "to_upper s = case_loop (\<lambda>c. c AND NOT 0x20) s 0"

definition to_lower :: "u8 list \<Rightarrow> u8 list option" where
  "to_lower s = case_loop (\<lambda>c. c OR 0x20) s 0"

subsection \<open>Bounded copy\<close>

lemma strncpy_loop_pads:
  "length p = i \<Longrightarrow> n \<le> length d \<Longrightarrow>
     strncpy_loop (p @ d) src i n True = Some (p @ replicate n 0 @ drop n d)"
proof (induction n arbitrary: p i d)
  case (Suc n)
  then obtain x d' where "d = x # d'" by (cases d) auto
  with Suc.IH [of "p @ [0]" "Suc i" d'] Suc.prems show ?case
    by (simp add: list_update_append replicate_append_same)
qed simp

lemma strncpy_loop_copies:
  "length p = i \<Longrightarrow> length q = i \<Longrightarrow> n \<le> length d \<Longrightarrow> 0 \<notin> set s \<Longrightarrow>
     strncpy_loop (p @ d) (q @ s @ 0 # z) i n False = Some (p @ take n (s @ replicate n 0) @ drop n d)"
proof (induction n arbitrary: p q i d s)
  case (Suc n)
  then obtain x d' where d: "d = x # d'" by (cases d) auto
  show ?case
  proof (cases s)
    case Nil
    with Suc.prems d strncpy_loop_pads [of "p @ [0]" "Suc i" n d'] show ?thesis
      by (simp add: list_update_append nth_append)
  next
    case (Cons c s')
    have "take n (s' @ replicate (Suc n) 0) = take n (s' @ replicate n 0)"
      by (simp add: take_Cons' flip: replicate_append_same)
    with Cons Suc.IH [of "p @ [c]" "Suc i" "q @ [c]" d' s'] Suc.prems d show ?thesis
      by (simp add: list_update_append nth_append)
  qed
qed simp

lemma strncpy_loop_overruns: "length dest < i + n \<Longrightarrow> i \<le> length dest \<Longrightarrow> strncpy_loop dest src i n pad = None"
proof (induction n arbitrary: dest i pad)
  case (Suc n)
  have "strncpy_loop d src (Suc i) n pad = None" if "set_at dest i c = Some d" for d c pad
    using that Suc.prems by (intro Suc.IH) (auto simp: set_at_def split: if_splits)
  then show ?case by (auto split: bind_splits)
qed simp

lemma unat_minus_1: "0 < (k :: 'a::len word) \<Longrightarrow> unat (k - 1) = unat k - 1"
  by (metis unat_1 unat_sub word_gt_0 word_less_1 not_less word_le_less_eq)

text \<open>\<open>safe_strncpy()\<close> with a non-zero size that the destination has leaves in it the first
  \<open>size - 1\<close> characters of the source, NUL-terminated, and nothing past \<open>size\<close>; the source is read
  up to its terminator only.  With size 0 the length passed to \<open>strncpy\<close> wraps and the copy leaves
  every destination.\<close>

theorem safe_strncpy_correct:
  assumes "0 \<notin> set s" and "unat n \<le> length dest" and "length dest < 2 ^ 64 - 1"
  shows "if n = 0 then safe_strncpy dest (s @ 0 # z) n = None
    else \<exists>dest'. safe_strncpy dest (s @ 0 # z) n = Some dest' \<and> c_string dest' 0 = Some (take (unat n - 1) s) \<and>
      length dest' = length dest \<and> drop (unat n) dest' = drop (unat n) dest"
proof (cases "n = 0")
  case True
  have "unat (n - 1) = 2 ^ 64 - 1" using True by (simp add: unsigned_minus_1_eq_mask mask_eq_exp_minus_1)
  with strncpy_loop_overruns [of dest 0 "2 ^ 64 - 1" "s @ 0 # z" False] assms True show ?thesis
    by (simp add: safe_strncpy_def)
next
  case False
  define k where "k = unat n - 1"
  have n: "unat n = Suc k" and k: "unat (n - 1) = k"
    using False unat_minus_1 [of n] by (auto simp: k_def word_gt_0 unat_gt_0)
  have loop: "strncpy_loop dest (s @ 0 # z) 0 k False = Some (take k (s @ replicate k 0) @ drop k dest)"
    using strncpy_loop_copies [of "[]" 0 "[]" k dest s z] assms n by simp
  obtain x d where d: "drop k dest = x # d" "drop (Suc k) dest = d"
    using assms n by (cases "drop k dest") (auto simp: drop_Suc drop_tl)
  have "(take k (s @ replicate k 0) @ x # d)[k := 0] = take k (s @ replicate k 0) @ 0 # d"
    using list_update_length [of "take k (s @ replicate k 0)" x d 0] by (simp del: take_append)
  then have "safe_strncpy dest (s @ 0 # z) n = Some (take k (s @ replicate k 0) @ 0 # d)"
    using loop d by (simp add: safe_strncpy_def k set_at_def min_def del: take_append)
  moreover have "take k (s @ replicate k 0) @ 0 # d = take k s @ 0 # (if k \<le> length s then d else replicate (k - length s - 1) 0 @ 0 # d)"
    by (cases "k - length s") (auto simp: replicate_app_Cons_same)
  moreover have "0 \<notin> set (take k s)" using assms by (meson in_set_takeD)
  moreover have "length d = length dest - Suc k" using d by (metis length_drop)
  ultimately show ?thesis
    using False n d assms by (auto simp: drop_Cons' intro!: exI)
qed

theorem safe_strncpy_correct_witness:
  "\<exists>dest'. safe_strncpy [9, 9, 9, 9, 9] [0x61, 0x62, 0x63, 0] 3 = Some dest' \<and>
     c_string dest' 0 = Some [0x61, 0x62] \<and> length dest' = length [9, 9, 9, 9, 9 :: u8] \<and> drop 3 dest' = [9, 9]"
  using safe_strncpy_correct [of "[0x61, 0x62, 0x63]" 3 "[9, 9, 9, 9, 9]" "[]"] by simp

subsection \<open>Trimming\<close>

definition rtrim :: "(u8 \<Rightarrow> bool) \<Rightarrow> u8 list \<Rightarrow> u8 list" where
  "rtrim P s = rev (dropWhile P (rev s))"

lemma rtrim_snoc [simp]: "rtrim P (s @ [c]) = (if P c then rtrim P s else s @ [c])"
  by (simp add: rtrim_def)

lemma rtrim_Nil [simp]: "rtrim P [] = []"
  by (simp add: rtrim_def)

lemma length_rtrim: "length (rtrim P s) \<le> length s"
  using length_dropWhile_le [of P "rev s"] by (simp add: rtrim_def)

lemma set_rtrim: "set (rtrim P s) \<subseteq> set s"
  by (auto simp: rtrim_def dest: set_dropWhileD)

lemma rtrim_takes: "\<exists>t. s = rtrim P s @ t \<and> (\<forall>c\<in>set t. P c)"
  by (rule exI [of _ "rev (takeWhile P (rev s))"])
    (auto simp: rtrim_def simp flip: rev_append dest: set_takeWhileD)

lemma strip_back_trims:
  "strip_back P (s @ w) (length s)
     = Some (length (rtrim P s), rtrim P s @ replicate (length s - length (rtrim P s)) 0 @ w)"
proof (induction s arbitrary: w rule: rev_induct)
  case Nil
  then show ?case by simp
next
  case (snoc c s)
  from snoc.IH [of "0 # w"] show ?case
    using length_rtrim [of P s]
    by (simp add: nth_append list_update_append Suc_diff_le replicate_app_Cons_same)
qed

lemma rstrip_trims:
  "0 \<notin> set s \<Longrightarrow> int (length s) \<le> INT_MAX \<Longrightarrow> rstrip (s @ 0 # z) = (let t = rtrim (\<lambda>c. c = 0x20) s
     in Some (int (length t), t @ replicate (length s - length t) 0 @ 0 # z))"
  using c_strlen_string [of s z] by (cases "s = []") (simp_all add: rstrip_def strip_back_trims Let_def del: c_strlen_string)

lemma chomp_trims:
  "0 \<notin> set s \<Longrightarrow> chomp (s @ 0 # z) = (let t = rtrim (\<lambda>c. c = 0x0a \<or> c = 0x0d) s
     in Some (length t, t @ replicate (length s - length t) 0 @ 0 # z))"
  by (simp add: chomp_def strip_back_trims Let_def)

text \<open>The two loops that move characters towards the front: \<open>u\<close> is done, \<open>v\<close> is free, \<open>t\<close> is to come.\<close>

lemma get_at_gap: "length u = j \<Longrightarrow> j + length v = i \<Longrightarrow> get_at (u @ v @ c # r) i = Some c"
  by (auto simp: nth_append)

lemma set_at_gap:
  assumes "length u = j"
  obtains v' where "set_at (u @ v @ c # r) j c = Some (u @ c # v' @ r)" and "length v' = length v"
proof (cases v)
  case Nil
  then show ?thesis using assms that [of "[]"] by (simp add: list_update_append)
next
  case (Cons x v'')
  then show ?thesis using assms that [of "v'' @ [c]"] by (simp add: list_update_append)
qed

lemma copy_down_moves:
  "length u = j \<Longrightarrow> length (u @ v) = i \<Longrightarrow> 0 \<notin> set t \<Longrightarrow> int (i + length t) \<le> INT_MAX \<Longrightarrow>
     \<exists>w. length w = length v \<and> copy_down (u @ v @ t @ 0 # z) i j = Some (j + length t, u @ t @ w @ 0 # z)"
proof (induction t arbitrary: u v i j)
  case Nil
  then show ?case by (subst copy_down.simps) (auto simp: nth_append)
next
  case (Cons c t)
  obtain v' where v': "set_at (u @ v @ c # t @ 0 # z) j c = Some (u @ c # v' @ t @ 0 # z)" "length v' = length v"
    using set_at_gap Cons.prems(1) .
  from Cons.IH [of "u @ [c]" "Suc j" v' "Suc i"] v' Cons.prems obtain w where
    "length w = length v" "copy_down ((u @ [c]) @ v' @ t @ 0 # z) (Suc i) (Suc j) = Some (Suc j + length t, (u @ [c]) @ t @ w @ 0 # z)"
    by auto
  then show ?case using Cons.prems v'
    by (intro exI [of _ w]) (subst copy_down.simps, simp add: get_at_gap del: set_at_in get_at_in)
qed

lemma remove_loop_moves:
  "length u = j \<Longrightarrow> length (u @ v) = i \<Longrightarrow> 0 \<notin> set t \<Longrightarrow> int (i + length t) \<le> INT_MAX \<Longrightarrow>
     \<exists>w. length w = length v + length t - length (filter (\<lambda>x. x \<noteq> c) t) \<and> remove_loop c (u @ v @ t @ 0 # z) i j
       = Some (j + length (filter (\<lambda>x. x \<noteq> c) t), u @ filter (\<lambda>x. x \<noteq> c) t @ w @ 0 # z)"
proof (induction t arbitrary: u v i j)
  case Nil
  then show ?case by (subst remove_loop.simps) (auto simp: nth_append)
next
  case (Cons x t)
  show ?case
  proof (cases "x = c")
    case True
    from Cons.IH [of u j "v @ [x]" "Suc i"] True Cons.prems show ?thesis
      by (subst remove_loop.simps) (auto simp: nth_append)
  next
    case False
    obtain v' where v': "set_at (u @ v @ x # t @ 0 # z) j x = Some (u @ x # v' @ t @ 0 # z)" "length v' = length v"
      using set_at_gap Cons.prems(1) .
    from Cons.IH [of "u @ [x]" "Suc j" v' "Suc i"] v' Cons.prems obtain w where
      "length w = length v + length t - length (filter (\<lambda>x. x \<noteq> c) t)"
      "remove_loop c ((u @ [x]) @ v' @ t @ 0 # z) (Suc i) (Suc j)
        = Some (Suc j + length (filter (\<lambda>x. x \<noteq> c) t), (u @ [x]) @ filter (\<lambda>x. x \<noteq> c) t @ w @ 0 # z)"
      by auto
    then show ?thesis using Cons.prems v' False
      by (intro exI [of _ w]) (subst remove_loop.simps, simp add: get_at_gap del: set_at_in get_at_in)
  qed
qed

lemma lstrip_trims:
  assumes "0 \<notin> set s" and len: "int (length s) \<le> INT_MAX" and "t = dropWhile (\<lambda>c. c = 0x20) s"
  obtains w where "length t + length w = length s"
    and "lstrip (s @ 0 # z)
      = Some (if t = s then - 1 else if t = [] then 0 else int (length t) - 1, t @ 0 # w @ z)"
proof -
  define v where "v = takeWhile (\<lambda>c. c = 0x20) s"
  have s: "s = v @ t" using assms(3) by (simp add: v_def)
  have v: "int_index (length v) = Some (length v)" using len s by simp
  have "t = s \<longleftrightarrow> v = []" using s by auto
  show ?thesis
  proof (cases v)
    case Nil
    have "scan (\<lambda>c. c = 0x20) (s @ 0 # z) 0 = Some 0"
      using assms(1) Nil by (simp flip: v_def)
    then show ?thesis using that [of "[]"] s Nil len by (simp add: lstrip_def INT_MAX_def)
  next
    case (Cons x v')
    have t: "0 \<notin> set t" using assms(1) s by auto
    obtain w where w: "length w = length v" "copy_down (s @ 0 # z) (length v) 0 = Some (length t, t @ w @ 0 # z)"
      using copy_down_moves [of "[]" 0 v "length v" t z] t s len by auto
    obtain y w' where y: "w = y # w'" using w(1) Cons by (cases w) auto
    have "scan (\<lambda>c. c = 0x20) (s @ 0 # z) 0 = Some (length v)"
      using assms(1) by (simp add: v_def)
    moreover have "set_at (t @ w @ 0 # z) (length t) 0 = Some (t @ 0 # (w' @ [0]) @ z)"
      using y by (simp add: list_update_append)
    moreover have "length v \<noteq> 0" "t \<noteq> s" using Cons \<open>t = s \<longleftrightarrow> v = []\<close> by auto
    ultimately show ?thesis
      using that [of "w' @ [0]"] w y s v by (cases t) (auto simp: lstrip_def)
  qed
qed

text \<open>The macro finds the string that \<open>lstrip\<close> moves to the front.\<close>

lemma lstrip_soft_trims:
  assumes "0 \<notin> set s"
  shows "\<exists>p. lstrip_soft (s @ 0 # z) (Some 0) = Some (Some p) \<and> c_string (s @ 0 # z) p = Some (dropWhile (\<lambda>c. c = 0x20) s)"
proof -
  let ?n = "length (takeWhile (\<lambda>c. c = 0x20) s)"
  have "drop ?n s = dropWhile (\<lambda>c. c = 0x20) s" by (simp add: dropWhile_eq_drop)
  moreover have "0 \<notin> set (dropWhile (\<lambda>c. c = 0x20) s)" using assms by (auto dest: set_dropWhileD)
  moreover have "?n \<le> length s" by (rule length_takeWhile_le)
  ultimately have "c_string (s @ 0 # z) ?n = Some (dropWhile (\<lambda>c. c = 0x20) s)"
    by (simp add: c_string_def takeWhile_string)
  with assms show ?thesis by (simp add: lstrip_soft_def)
qed



text \<open>The longest string that both arguments end in.\<close>

definition common_suffix :: "u8 list \<Rightarrow> u8 list \<Rightarrow> u8 list" where
  "common_suffix s t = rev (longest_common_prefix (rev s) (rev t))"

lemma common_suffix_snoc:
  "common_suffix (s @ [c]) (t @ [d]) = (if c = d then common_suffix s t @ [c] else [])"
  by (simp add: common_suffix_def)

lemma common_suffix_Nil [simp]: "common_suffix s [] = []"
  by (simp add: common_suffix_def)

lemma tail_match_common:
  "length t \<le> length s \<Longrightarrow>
     tail_match (s @ w) (t @ v) (length s) (length t) = Some (length s - length (common_suffix s t))"
proof (induction t arbitrary: s w v rule: rev_induct)
  case Nil
  then show ?case by simp
next
  case (snoc d t)
  then obtain s' c where s: "s = s' @ [c]" by (cases s rule: rev_cases) auto
  show ?case
    using snoc.IH [of s' "c # w" "d # v"] snoc.prems s
    by (cases "c = d") (simp_all add: common_suffix_snoc nth_append)
qed

lemma common_suffix_props:
  "suffix (common_suffix s t) s" "suffix (common_suffix s t) t"
  "suffix u s \<Longrightarrow> suffix u t \<Longrightarrow> suffix u (common_suffix s t)"
  using longest_common_prefix_prefix1 [of "rev s" "rev t"] longest_common_prefix_prefix2 [of "rev s" "rev t"]
    longest_common_prefix_max_prefix [of "rev u" "rev s" "rev t"]
  by (simp_all add: common_suffix_def suffix_to_prefix)

text \<open>\<open>trim_suffix()\<close> cuts off the longest string that both of its arguments end in, and
  returns 0: the suffix when the string ends with it, but also any part of it the string happens
  to end in.  A missing argument or a suffix longer than the string gives -1 and no change.\<close>

theorem trim_suffix_correct:
  assumes "0 \<notin> set s" and "0 \<notin> set t" and "int (length s) \<le> INT_MAX" and "int (length t) \<le> INT_MAX"
  shows "if length s < length t
    then trim_suffix (Some (s @ 0 # z)) (Some (t @ 0 # y)) = Some (- 1, Some (s @ 0 # z))
    else \<exists>s' u w. s = s' @ u \<and> suffix u t \<and> (\<forall>x. suffix x s \<and> suffix x t \<longrightarrow> suffix x u) \<and>
      trim_suffix (Some (s @ 0 # z)) (Some (t @ 0 # y)) = Some (0, Some (s' @ 0 # w)) \<and>
      c_string (s' @ 0 # w) 0 = Some s'"
proof (cases "length s < length t")
  case True
  then show ?thesis using assms by (simp add: trim_suffix_def)
next
  case False
  define u where "u = common_suffix s t"
  obtain s' where s: "s = s' @ u" using common_suffix_props(1) [of s t] by (auto simp: suffix_def u_def)
  have len: "length s = length s' + length u" using s by simp
  obtain x w where x: "u @ 0 # z = x # w" by (cases "u @ 0 # z") auto
  have "tail_match (s @ 0 # z) (t @ 0 # y) (length s) (length t) = Some (length s')"
    using tail_match_common [of t s "0 # z" "0 # y"] False len by (simp flip: u_def)
  moreover have "set_at (s @ 0 # z) (length s') 0 = Some (s' @ 0 # w)"
    using s x by (simp add: list_update_append)
  ultimately have "trim_suffix (Some (s @ 0 # z)) (Some (t @ 0 # y)) = Some (0, Some (s' @ 0 # w))"
    using assms False by (simp add: trim_suffix_def)
  moreover have "suffix u t" "\<forall>x. suffix x s \<and> suffix x t \<longrightarrow> suffix x u"
    using common_suffix_props by (simp_all add: u_def)
  moreover have "0 \<notin> set s'" using s assms(1) by simp
  ultimately show ?thesis
    using False s by (simp only: if_False) (intro exI [of _ s'] exI [of _ u] exI [of _ w], simp)
qed

theorem trim_suffix_correct_witness:
  "\<exists>s' u w. [0x66, 0x6f, 0x62, 0x61, 0x72] = s' @ u \<and>
     trim_suffix (Some [0x66, 0x6f, 0x62, 0x61, 0x72, 0]) (Some [0x78, 0x62, 0x61, 0x72, 0]) = Some (0, Some (s' @ 0 # w))"
  using trim_suffix_correct [of "[0x66, 0x6f, 0x62, 0x61, 0x72]" "[0x78, 0x62, 0x61, 0x72]" "[]" "[]"]
  by (auto simp: INT_MAX_def)

subsection \<open>Filtering, counting, case\<close>

lemma remove_all_filters:
  assumes "0 \<notin> set s" and "int (length s) \<le> INT_MAX"
  obtains w where "remove_all (s @ 0 # z) c = Some (filter (\<lambda>x. x \<noteq> c) s @ 0 # w)"
    and "length (filter (\<lambda>x. x \<noteq> c) s @ 0 # w) = length (s @ 0 # z)"
proof -
  let ?t = "filter (\<lambda>x. x \<noteq> c) s"
  obtain w where w: "length w = length s - length ?t"
      "remove_loop c (s @ 0 # z) 0 0 = Some (length ?t, ?t @ w @ 0 # z)"
    using remove_loop_moves [of "[]" 0 "[]" 0 s c z] assms by auto
  obtain x v where "w @ 0 # z = x # v" by (cases "w @ 0 # z") auto
  moreover from this have "length v = length w + length z" by (metis add_Suc_right length_Cons length_append nat.inject)
  ultimately show ?thesis
    using that [of v] w length_filter_le [of "\<lambda>x. x \<noteq> c" s]
    by (simp add: remove_all_def list_update_append)
qed

lemma count_loop_counts:
  "length p = i \<Longrightarrow> 0 \<notin> set s \<Longrightarrow> int (i + length s) \<le> INT_MAX \<Longrightarrow> k \<le> i \<Longrightarrow>
     count_loop (p @ s @ 0 # z) c i k = Some (k + length (filter (\<lambda>x. x = c) s))"
proof (induction s arbitrary: p i k)
  case Nil
  then show ?case by (subst count_loop.simps) (simp add: nth_append)
next
  case (Cons x s)
  from Cons.IH [of "p @ [x]" "Suc i" "if x = c then k + 1 else k"] Cons.prems
  show ?case by (subst count_loop.simps) (auto simp: nth_append)
qed

lemma strcntchr_counts:
  "0 \<notin> set s \<Longrightarrow> int (length s) \<le> INT_MAX \<Longrightarrow> strcntchr (s @ 0 # z) c = Some (length (filter (\<lambda>x. x = c) s))"
  using count_loop_counts [of "[]" 0 s] by (simp add: strcntchr_def)

text \<open>\<open>remove_all()\<close> leaves the characters of its argument that differ from \<open>c\<close>, in their
  order; \<open>strcntchr()\<close> counts the others: it returns how much shorter the string becomes.  A
  second \<open>remove_all()\<close> finds nothing left to remove.\<close>

theorem remove_all_correct:
  assumes "0 \<notin> set s" and "int (length s) \<le> INT_MAX"
  shows "\<exists>b n. remove_all (s @ 0 # z) c = Some b \<and> c_string b 0 = Some (filter (\<lambda>x. x \<noteq> c) s) \<and>
    length b = length (s @ 0 # z) \<and> strcntchr (s @ 0 # z) c = Some n \<and>
    length (filter (\<lambda>x. x \<noteq> c) s) + n = length s \<and> (\<exists>b'. strcntchr b c = Some 0 \<and>
      remove_all b c = Some b' \<and> c_string b' 0 = c_string b 0)"
proof -
  let ?t = "filter (\<lambda>x. x \<noteq> c) s"
  obtain w where w: "remove_all (s @ 0 # z) c = Some (?t @ 0 # w)" "length (?t @ 0 # w) = length (s @ 0 # z)"
    using remove_all_filters [OF assms] .
  have t: "0 \<notin> set ?t" "int (length ?t) \<le> INT_MAX"
    using assms length_filter_le [of "\<lambda>x. x \<noteq> c" s] by (simp, linarith)
  obtain w' where "remove_all (?t @ 0 # w) c = Some (filter (\<lambda>x. x \<noteq> c) ?t @ 0 # w')"
    using remove_all_filters [OF t] .
  moreover have "filter (\<lambda>x. x \<noteq> c) ?t = ?t" "filter (\<lambda>x. x = c) ?t = []" by (simp_all add: filter_empty_conv)
  moreover have "length ?t + length (filter (\<lambda>x. x = c) s) = length s"
    using sum_length_filter_compl [of "\<lambda>x. x = c" s] by simp
  ultimately show ?thesis
    using w t assms by (intro exI [of _ "?t @ 0 # w"] exI [of _ "length (filter (\<lambda>x. x = c) s)"])
      (simp add: strcntchr_counts)
qed

theorem remove_all_correct_witness:
  "\<exists>b. remove_all [0x61, 0x2d, 0x2d, 0x62, 0, 7] 0x2d = Some b \<and> c_string b 0 = Some [0x61, 0x62]"
  using remove_all_correct [of "[0x61, 0x2d, 0x2d, 0x62]" "[7]" 45] by (auto simp: INT_MAX_def)

lemma strisempty_iff:
  "0 \<notin> set s \<Longrightarrow> strisempty (Some (s @ 0 # z)) = Some (\<forall>c\<in>set s. isspace c)"
proof -
  assume s: "0 \<notin> set s"
  have "(s @ 0 # z) ! length (takeWhile isspace s) = 0 \<longleftrightarrow> (\<forall>c\<in>set s. isspace c)"
    using s
  proof (induction s)
    case (Cons c s)
    then show ?case by auto
  qed simp
  with s length_takeWhile_le [of isspace s] show ?thesis by (simp add: strisempty_def)
qed

lemma case_loop_maps:
  "length p = i \<Longrightarrow> 0 \<notin> set s \<Longrightarrow> (\<And>c. isalpha c \<Longrightarrow> f c \<noteq> 0) \<Longrightarrow>
     case_loop f (p @ s @ 0 # z) i = Some (p @ map (\<lambda>c. if isalpha c then f c else c) s @ 0 # z)"
proof (induction s arbitrary: p i)
  case Nil
  then show ?case by (subst case_loop.simps) (simp add: nth_append)
next
  case (Cons c s)
  from Cons.IH [of "p @ [if isalpha c then f c else c]" "Suc i"] Cons.prems
  show ?case by (subst case_loop.simps) (auto simp: nth_append list_update_append)
qed

definition upper :: "u8 \<Rightarrow> u8" where
  "upper c = (if 0x61 \<le> c \<and> c \<le> 0x7a then c - 0x20 else c)"

definition lower :: "u8 \<Rightarrow> u8" where
  "lower c = (if 0x41 \<le> c \<and> c \<le> 0x5a then c + 0x20 else c)"

lemma alpha_bits: "isalpha c \<Longrightarrow> c AND NOT 0x20 = upper c \<and> c OR 0x20 = lower c \<and> upper c \<noteq> 0 \<and> lower c \<noteq> 0"
  unfolding isalpha_def
proof (elim disjE conjE)
  show "0x41 \<le> c \<Longrightarrow> c \<le> 0x5a \<Longrightarrow> c AND NOT 0x20 = upper c \<and> c OR 0x20 = lower c \<and> upper c \<noteq> 0 \<and> lower c \<noteq> 0"
    by (rule bytes_between [of _ 65 90]) (code_simp, simp_all)
  show "0x61 \<le> c \<Longrightarrow> c \<le> 0x7a \<Longrightarrow> c AND NOT 0x20 = upper c \<and> c OR 0x20 = lower c \<and> upper c \<noteq> 0 \<and> lower c \<noteq> 0"
    by (rule bytes_between [of _ 97 122]) (code_simp, simp_all)
qed

lemma not_alpha: "\<not> isalpha c \<Longrightarrow> upper c = c \<and> lower c = c"
  by (auto simp: isalpha_def upper_def lower_def)

lemma to_upper_maps: "0 \<notin> set s \<Longrightarrow> to_upper (s @ 0 # z) = Some (map upper s @ 0 # z)"
  using case_loop_maps [of "[]" 0 s "\<lambda>c. c AND NOT 0x20"] alpha_bits not_alpha
  by (simp add: to_upper_def cong: map_cong if_cong)

lemma to_lower_maps: "0 \<notin> set s \<Longrightarrow> to_lower (s @ 0 # z) = Some (map lower s @ 0 # z)"
  using case_loop_maps [of "[]" 0 s "\<lambda>c. c OR 0x20"] alpha_bits not_alpha
  by (simp add: to_lower_def cong: map_cong if_cong)

subsection \<open>Numbers\<close>

lemma isdigit_value: "isdigit c \<Longrightarrow> uint (c - 0x30) = uint c - 48"
  by (simp add: isdigit_def uint_sub)

lemma dec_value_digits:
  "\<forall>c\<in>set s. isdigit c \<Longrightarrow> dec_value s v = foldl (\<lambda>v c. v * 10 + (uint c - 48)) v s"
  by (induction s arbitrary: v) (auto simp: isdigit_value)

lemma safe_atoi_digits:
  assumes "s \<noteq> []" and "\<forall>c\<in>set s. isdigit c"
    and "v = foldl (\<lambda>v c. v * 10 + (uint c - 48)) 0 s" and "int_ok v"
    and "hd s = 0x30 \<or> v \<noteq> 0"
  shows "safe_atoi (Some (s @ 0 # z)) i = Some (0, v)"
proof -
  obtain c t where s: "s = c # t" using assms(1) by (cases s) auto
  have "0 \<notin> set s" using assms(2) by (auto simp: isdigit_def)
  moreover have "\<not> isspace c" "c \<noteq> 0x2d" "c \<noteq> 0x2b"
    using assms(2) s by (auto simp: isspace_def isdigit_def word_le_nat_alt word_less_nat_alt)
  then have "atoi s = Some v" using assms s dec_value_digits [of s 0] by (simp add: atoi_def del: dec_value.simps)
  moreover have "get_at (s @ 0 # z) 0 = Some c" using s by simp
  ultimately show ?thesis using s assms(5) by (auto simp: safe_atoi_def simp del: append_Cons)
qed

end
