(* ===== verification/Logger.thy ===== *)
theory Logger
  imports StrUtils
begin

unbundle bit_operations_syntax

text \<open>
  The logger (\<open>src/logger.c\<close>).  Functions and files are named by numbers; the time stamp and the
  message the format produces are parameters.  What a call prints is a list of outputs.
\<close>

record logger =
  lg_name :: "u8 list"
  lg_root_path :: "u8 list option"
  lg_log_level :: int
  lg_flags :: u32
  lg_file :: "nat option"
  lg_puts :: "nat option"
  lg_cb :: "nat option"

definition LOGGER_NAME_MAXLEN :: nat where
  "LOGGER_NAME_MAXLEN = 32"

definition LOGGER_FLAG_NO_COLORS :: u32 where
  "LOGGER_FLAG_NO_COLORS = 1"

definition LOG_BUF_LEN :: nat where
  "LOG_BUF_LEN = 192"

definition LOG_MAX_LEVEL :: int where
  "LOG_MAX_LEVEL = 8"

definition log_level_names :: "u8 list list" where
  "log_level_names = map ascii
     [''EMERG'', ''ALERT'', ''CRIT '', ''ERROR'', ''WARN '', ''NOTIC'', ''INFO '', ''DEBUG'']"

text \<open>The colours, by the digit in their escape sequence; \<open>0\<close> is the reset.\<close>

definition escape :: "string \<Rightarrow> u8 list" where
  "escape s = 27 # ascii s"

definition RESET :: "u8 list" where
  "RESET = escape ''[0m''"

definition log_level_colors :: "u8 list list" where
  "log_level_colors = map escape
     [''[31m'', ''[31m'', ''[31m'', ''[31m'', ''[33m'', ''[35m'', ''[32m'', ''[0m'']"

datatype log_output =
    Color nat "u8 list"
  | FPuts nat "u8 list"
  | Puts nat "u8 list"
  | Callback nat int "u8 list" nat "u8 list"

definition logger_log_set_color :: "(nat \<Rightarrow> bool) \<Rightarrow> logger \<Rightarrow> u8 list \<Rightarrow> log_output list" where
  "logger_log_set_color isatty ctx color =
     (if lg_flags ctx AND LOGGER_FLAG_NO_COLORS \<noteq> 0 then []
      else case lg_file ctx of
          None \<Rightarrow> []
        | Some f \<Rightarrow> if isatty f then [Color f (take 8 color)] else [])"

text \<open>\<open>while (len && buf[--len] == 0);\<close>\<close>

fun back_up :: "u8 list \<Rightarrow> nat \<Rightarrow> nat option" where
  "back_up buf 0 = Some 0"
| "back_up buf (Suc n) = do { c \<leftarrow> get_at buf n; if c = 0 then back_up buf n else Some n }"

definition terminate_log_line :: "u8 list \<Rightarrow> nat \<Rightarrow> (nat \<times> u8 list) option" where
  "terminate_log_line buf len = do {
     len \<leftarrow> back_up buf len;
     c \<leftarrow> get_at buf len;
     (len, buf) \<leftarrow> (if c \<noteq> 10 then map_option (Pair (len + 1)) (set_at buf (len + 1) 10) else Some (len, buf));
     buf \<leftarrow> set_at buf (len + 1) 0;
     Some (len + 1, buf)
   }"

text \<open>What follows the last \<open>/\<close>.\<close>

definition base_name :: "u8 list \<Rightarrow> u8 list" where
  "base_name file = rev (takeWhile (\<lambda>c. c \<noteq> 47) (rev file))"

text \<open>\<open>%11s\<close>, \<open>%-4lu\<close> and the prefix they are part of.\<close>

fun decimal :: "nat \<Rightarrow> u8 list" where
  "decimal n = (if n < 10 then [of_nat (48 + n)] else decimal (n div 10) @ [of_nat (48 + n mod 10)])"

definition pad_left :: "nat \<Rightarrow> u8 list \<Rightarrow> u8 list" where
  "pad_left w s = replicate (w - length s) 32 @ s"

definition pad_right :: "nat \<Rightarrow> u8 list \<Rightarrow> u8 list" where
  "pad_right w s = s @ replicate (w - length s) 32"

definition log_prefix :: "u8 list \<Rightarrow> u8 list \<Rightarrow> u8 list \<Rightarrow> nat \<Rightarrow> u8 list \<Rightarrow> u8 list" where
  "log_prefix name tstamp file line level =
     name @ ascii '': '' @ tstamp @ ascii '' '' @ pad_left 11 file @ ascii '':'' @ pad_right 4 (decimal line) @
     ascii '' ['' @ level @ ascii ''] ''"

text \<open>
  \<open>dflt\<close> is the logger used for a NULL context, \<open>text\<close> the message.  A level outside the table
  passes with a callback only; then the table is not read.
\<close>

definition logger_log ::
    "logger \<Rightarrow> (nat \<Rightarrow> bool) \<Rightarrow> u8 list \<Rightarrow> logger option \<Rightarrow> int \<Rightarrow> u8 list \<Rightarrow> nat \<Rightarrow> u8 list \<Rightarrow> (nat \<times> log_output list) option" where
  "logger_log dflt isatty tstamp ctx level file line text = do {
     let buf = replicate (LOG_BUF_LEN + 2) 0;
     let ctx = (case ctx of None \<Rightarrow> dflt | Some c \<Rightarrow> c);
     let file = base_name file;
     if lg_cb ctx = None \<and> (level < 0 \<or> level \<ge> LOG_MAX_LEVEL \<or> level > lg_log_level ctx) then Some (0, [])
     else do {
       (len, buf) \<leftarrow> (if lg_cb ctx = None
         then do {
           name \<leftarrow> c_string (lg_name ctx) 0;
           let prefix = log_prefix name tstamp file line (log_level_names ! nat level);
           map_option (Pair (length prefix)) (vsnprintf_at buf 0 LOG_BUF_LEN prefix)
         }
         else Some (0, buf));
       (len, buf) \<leftarrow> (if len > LOG_BUF_LEN then Some (len, buf)
         else map_option (Pair (len + length text)) (vsnprintf_at buf len (LOG_BUF_LEN - len) text));
       let len = (if len > LOG_BUF_LEN then LOG_BUF_LEN else len);
       (len, buf) \<leftarrow> terminate_log_line buf len;
       msg \<leftarrow> c_string buf 0;
       (case lg_cb ctx of
          Some cb \<Rightarrow> Some (len, [Callback cb level file line msg])
        | None \<Rightarrow> do {
            out \<leftarrow> (case lg_file ctx of
               Some f \<Rightarrow> Some (FPuts f msg)
             | None \<Rightarrow> map_option (\<lambda>p. Puts p msg) (lg_puts ctx));
            Some (len, logger_log_set_color isatty ctx (log_level_colors ! nat level) @ [out] @
                       logger_log_set_color isatty ctx RESET)
          })
     }
   }"

definition logger_set_name :: "logger \<Rightarrow> u8 list option \<Rightarrow> logger option" where
  "logger_set_name ctx name =
     (case name of
        None \<Rightarrow> Some ctx
      | Some n \<Rightarrow> do {
          buf \<leftarrow> strncpy_loop (lg_name ctx) n 0 LOGGER_NAME_MAXLEN False;
          buf \<leftarrow> set_at buf (LOGGER_NAME_MAXLEN - 1) 0;
          Some (ctx\<lparr>lg_name := buf\<rparr>)
        })"

definition logger_init ::
    "logger \<Rightarrow> int \<Rightarrow> u8 list option \<Rightarrow> u8 list option \<Rightarrow> nat option \<Rightarrow> nat option \<Rightarrow> nat option \<Rightarrow> u32 \<Rightarrow> (int \<times> logger) option" where
  "logger_init ctx level name root_path puts_fn file cb flags =
     (if puts_fn = None \<and> file = None \<and> cb = None then Some (- 1, ctx)
      else do {
        let ctx = ctx\<lparr>lg_log_level := level, lg_root_path := root_path, lg_puts := puts_fn, lg_file := file,
                      lg_flags := flags, lg_cb := cb\<rparr>;
        let ctx = (if lg_file ctx \<noteq> None \<or> lg_cb ctx \<noteq> None
                   then ctx\<lparr>lg_flags := lg_flags ctx OR LOGGER_FLAG_NO_COLORS\<rparr> else ctx);
        ctx \<leftarrow> logger_set_name ctx name;
        Some (0, ctx)
      })"

definition logger_set_log_level :: "logger \<Rightarrow> int \<Rightarrow> logger" where
  "logger_set_log_level ctx level = ctx\<lparr>lg_log_level := level\<rparr>"

definition logger_set_put_fn :: "logger \<Rightarrow> nat option \<Rightarrow> logger" where
  "logger_set_put_fn ctx fn = ctx\<lparr>lg_puts := fn\<rparr>"

definition logger_set_file :: "logger \<Rightarrow> nat option \<Rightarrow> logger" where
  "logger_set_file ctx f = ctx\<lparr>lg_file := f\<rparr>"

text \<open>\<open>logger_get_default()\<close> and \<open>logger_set_default()\<close> copy between the caller's logger and the global one.\<close>

definition logger_get_default :: "logger \<Rightarrow> logger \<Rightarrow> logger" where
  "logger_get_default dflt ctx = dflt"

definition logger_set_default :: "logger \<Rightarrow> logger \<Rightarrow> logger" where
  "logger_set_default dflt logger = logger"

subsection \<open>The line a call prints\<close>

lemma back_up_zeros:
  "0 \<notin> set s \<Longrightarrow> length s \<le> n \<Longrightarrow> n \<le> length s + k \<Longrightarrow> back_up (s @ replicate k 0) n = Some (length s - 1)"
proof (induction n)
  case (Suc n)
  then show ?case
  proof (cases "length s = Suc n")
    case True
    then have "s ! n \<noteq> 0" using Suc.prems(1) by (metis lessI nth_mem)
    with True Suc.prems show ?thesis by (simp add: nth_append)
  next
    case False
    with Suc show ?thesis by (simp add: nth_append)
  qed
qed simp

text \<open>The text as one line.\<close>

definition line_of :: "u8 list \<Rightarrow> u8 list" where
  "line_of s = (if s \<noteq> [] \<and> last s = 10 then s else s @ [10])"

lemma terminate_log_line_correct:
  assumes "0 \<notin> set s" and "s \<noteq> []" and "length s \<le> n" and "n \<le> length s + k" and "2 \<le> k"
  shows "\<exists>r. terminate_log_line (s @ replicate k 0) n = Some (length (line_of s), line_of s @ 0 # r)"
proof -
  obtain l where l: "length s = Suc l" using assms(2) by (cases s) auto
  obtain k' where k: "k = Suc (Suc k')" using assms(5) by (metis Suc_le_D numeral_2_eq_2 Suc_le_mono)
  have c: "get_at (s @ replicate k 0) l = Some (last s)"
    using assms(2) l by (simp add: get_at_def nth_append last_conv_nth)
  have b: "back_up (s @ replicate k 0) n = Some l" using back_up_zeros [OF assms(1,3,4)] l by simp
  have w: "set_at (s @ replicate k 0) (Suc l) v = Some (s @ v # replicate (Suc k') 0)" for v
    by (simp add: set_at_def k l flip: l)
  have w2: "set_at (s @ v # replicate (Suc k') 0) (Suc (Suc l)) 0 = Some (s @ v # 0 # replicate k' 0)" for v :: u8
    using list_update_append [of s "v # replicate (Suc k') 0" "Suc (Suc l)" 0] l by (simp add: set_at_def)
  show ?thesis
    using assms(2) by (cases "last s = 10") (simp_all add: terminate_log_line_def line_of_def b c w w2 l del: replicate.simps)
qed

text \<open>An empty message has no last character: the newline lands behind the terminator.\<close>

lemma terminate_log_line_empty:
  "2 < k \<Longrightarrow> terminate_log_line (replicate k 0) n = (if n \<le> k then Some (2, 0 # 10 # replicate (k - 2) 0) else None)"
proof -
  assume k: "2 < k"
  have "back_up (replicate k 0) n = (if n \<le> k then Some 0 else None)"
    by (induction n) (auto simp: get_at_def)
  moreover have "k = Suc (Suc (Suc (k - 3)))" using k by simp
  then obtain k' where "k = Suc (Suc (Suc k'))" by blast
  ultimately show ?thesis by (simp add: terminate_log_line_def set_at_def get_at_def)
qed

text \<open>The buffer after printing: the text cut to 191 characters, then zeros.\<close>

definition log_buf :: "u8 list \<Rightarrow> u8 list" where
  "log_buf s = take 191 s @ replicate (194 - min 191 (length s)) 0"

lemma print_text:
  assumes "length p \<le> 192"
  shows "vsnprintf_at (log_buf p) (length p) (192 - length p) s = Some (log_buf (p @ s))"
proof (cases "length p = 192")
  case True
  then show ?thesis by (simp add: vsnprintf_at_def log_buf_def)
next
  case False
  with assms have l: "length p \<le> 191" by simp
  then have "buf_write (log_buf p) (length p) (take (191 - length p) s @ [0]) =
      Some (p @ take (191 - length p) s @ 0 # replicate (193 - min 191 (length p + length s)) 0)"
    by (auto simp: buf_write_def log_buf_def min_def)
  also have "\<dots> = Some (log_buf (p @ s))"
    using l by (simp add: log_buf_def Suc_diff_le flip: replicate_Suc)
  finally show ?thesis using l False by (simp add: vsnprintf_at_def)
qed

lemma print_prefix: "vsnprintf_at (replicate 194 0) 0 192 s = Some (log_buf s)"
  using print_text [of "[]" s] by (simp add: log_buf_def)

lemma terminate_log_buf:
  assumes "0 \<notin> set s" and "s \<noteq> []"
  shows "\<exists>r. terminate_log_line (log_buf s) (min 192 (length s)) =
    Some (length (line_of (take 191 s)), line_of (take 191 s) @ 0 # r)"
  unfolding log_buf_def
  by (rule terminate_log_line_correct) (use assms in \<open>auto dest: in_set_takeD\<close>)

lemma decimal_no_nul: "0 \<notin> set (decimal n)"
proof (induction n rule: decimal.induct)
  case (1 n)
  have d: "(of_nat (48 + m) :: u8) \<noteq> 0" if "m < 10" for m
  proof -
    have "\<not> 2 ^ LENGTH(8) dvd 48 + m" using that by (intro nat_dvd_not_less) simp_all
    then show ?thesis using word_of_nat_eq_0_iff [where 'a = 8, of "48 + m"] by blast
  qed
  with 1 show ?case by (subst decimal.simps) (auto simp del: decimal.simps of_nat_add)
qed

lemma log_prefix_no_nul:
  "0 \<notin> set name \<Longrightarrow> 0 \<notin> set ts \<Longrightarrow> 0 \<notin> set file \<Longrightarrow> 0 \<notin> set level \<Longrightarrow> 0 \<notin> set (log_prefix name ts file line level)"
  using decimal_no_nul [of line] by (simp add: log_prefix_def pad_left_def pad_right_def ascii_def del: decimal.simps)

lemma log_level_names_no_nul: "0 \<le> level \<Longrightarrow> level < LOG_MAX_LEVEL \<Longrightarrow> 0 \<notin> set (log_level_names ! nat level)"
proof -
  assume "0 \<le> level" "level < LOG_MAX_LEVEL"
  then have "nat level < length log_level_names" by (simp add: LOG_MAX_LEVEL_def log_level_names_def)
  moreover have "\<forall>n \<in> set log_level_names. 0 \<notin> set n" by (simp add: log_level_names_def ascii_def)
  ultimately show ?thesis using nth_mem by blast
qed

lemma base_name_set: "set (base_name file) \<subseteq> set file"
  by (auto simp: base_name_def dest: set_takeWhileD)

text \<open>The messages of a call, colours left out.\<close>

fun message_of :: "log_output \<Rightarrow> u8 list list" where
  "message_of (Color f c) = []"
| "message_of (FPuts f m) = [m]"
| "message_of (Puts p m) = [m]"
| "message_of (Callback cb level file line m) = [m]"

lemma message_of_color: "concat (map message_of (logger_log_set_color isatty ctx color)) = []"
  by (cases "lg_file ctx") (simp_all add: logger_log_set_color_def)

text \<open>The text of a call before it is cut.\<close>

definition log_text :: "logger \<Rightarrow> u8 list \<Rightarrow> u8 list \<Rightarrow> int \<Rightarrow> u8 list \<Rightarrow> nat \<Rightarrow> u8 list \<Rightarrow> u8 list" where
  "log_text lg name tstamp level file line text =
     (if lg_cb lg = None then log_prefix name tstamp (base_name file) line (log_level_names ! nat level) else []) @ text"

definition log_enabled :: "logger \<Rightarrow> int \<Rightarrow> bool" where
  "log_enabled lg level \<longleftrightarrow> lg_cb lg \<noteq> None \<or> 0 \<le> level \<and> level < LOG_MAX_LEVEL \<and> level \<le> lg_log_level lg"

text \<open>The buffer just before the line is terminated.\<close>

lemma log_buffer:
  fixes lg pre "text"
  defines "P \<equiv> (if lg_cb lg = None then pre else []) @ text"
  shows "do {
       (len, buf) \<leftarrow> (if lg_cb lg = None then map_option (Pair (length pre)) (vsnprintf_at (replicate 194 0) 0 192 pre)
         else Some (0, replicate 194 0));
       (len, buf) \<leftarrow> (if len > 192 then Some (len, buf)
         else map_option (Pair (len + length text)) (vsnprintf_at buf len (192 - len) text));
       f (if len > 192 then 192 else len) buf
     } = f (min 192 (length P)) (log_buf P)"
proof -
  have e: "replicate 194 0 = log_buf []" by (simp add: log_buf_def)
  have cut: "log_buf pre = log_buf (pre @ text)" if "192 < length pre" using that by (simp add: log_buf_def)
  show ?thesis
    using print_text [of pre "text"] print_text [of "[]" "text"] cut
    by (cases "192 < length pre") (auto simp: print_prefix P_def min_def e print_prefix [unfolded e])
qed

text \<open>What is done with a line.\<close>

definition log_emit :: "logger \<Rightarrow> (nat \<Rightarrow> bool) \<Rightarrow> int \<Rightarrow> u8 list \<Rightarrow> nat \<Rightarrow> nat \<Rightarrow> u8 list \<Rightarrow> (nat \<times> log_output list) option" where
  "log_emit lg isatty level file line len msg =
     (case lg_cb lg of
        Some cb \<Rightarrow> Some (len, [Callback cb level (base_name file) line msg])
      | None \<Rightarrow> do {
          out \<leftarrow> (case lg_file lg of Some f \<Rightarrow> Some (FPuts f msg) | None \<Rightarrow> map_option (\<lambda>p. Puts p msg) (lg_puts lg));
          Some (len, logger_log_set_color isatty lg (log_level_colors ! nat level) @ [out] @
                     logger_log_set_color isatty lg RESET) })"

lemma log_emit_message:
  assumes "lg_puts lg \<noteq> None \<or> lg_file lg \<noteq> None \<or> lg_cb lg \<noteq> None"
  shows "\<exists>outs. log_emit lg isatty level file line len msg = Some (len, outs) \<and> concat (map message_of outs) = [msg]"
  using assms by (auto simp: log_emit_def message_of_color split: option.splits)

lemma logger_log_enabled:
  fixes line :: nat
  assumes lg: "lg = (case ctx of None \<Rightarrow> dflt | Some c \<Rightarrow> c)"
    and name: "c_string (lg_name lg) 0 = Some name"
    and nul: "0 \<notin> set tstamp" "0 \<notin> set file" "0 \<notin> set text"
    and enabled: "log_enabled lg level"
  defines "full \<equiv> log_text lg name tstamp level file line text"
  shows "logger_log dflt isatty tstamp ctx level file line text =
    (if full = [] then log_emit lg isatty level file line 2 []
     else log_emit lg isatty level file line (length (line_of (take 191 full))) (line_of (take 191 full)))"
proof -
  let ?pre = "log_prefix name tstamp (base_name file) line (log_level_names ! nat level)"
  have run: "logger_log dflt isatty tstamp ctx level file line text = do {
      (len, buf) \<leftarrow> terminate_log_line (log_buf full) (min 192 (length full));
      msg \<leftarrow> c_string buf 0;
      log_emit lg isatty level file line len msg }"
  proof -
    have en: "(lg_cb lg = None \<and> (level < 0 \<or> level \<ge> LOG_MAX_LEVEL \<or> level > lg_log_level lg)) = False"
      using enabled by (auto simp: log_enabled_def)
    have size: "192 + 2 = (194 :: nat)" by simp
    show ?thesis
      unfolding logger_log_def lg [symmetric] Let_def LOG_BUF_LEN_def size en if_False name bind.bind_lunit
        full_def log_text_def log_emit_def
      by (rule log_buffer [of lg ?pre "text"
            "\<lambda>len buf. do { (len, buf) \<leftarrow> terminate_log_line buf len; msg \<leftarrow> c_string buf 0;
               log_emit lg isatty level file line len msg }", unfolded log_emit_def])
  qed
  have nn: "0 \<notin> set name" using name by (auto simp: c_string_def dest: set_takeWhileD split: if_splits)
  have no: "0 \<notin> set full"
    using enabled nul(3) log_prefix_no_nul [OF nn nul(1), of "base_name file"] nul(2) base_name_set [of "file"]
      log_level_names_no_nul [of level]
    by (auto simp: full_def log_text_def log_enabled_def)
  show ?thesis
  proof (cases "full = []")
    case True
    with run terminate_log_line_empty [of 194 0] show ?thesis
      by (simp add: log_buf_def c_string_def)
  next
    case False
    from terminate_log_buf [OF no False] obtain r where
      t: "terminate_log_line (log_buf full) (min 192 (length full)) =
        Some (length (line_of (take 191 full)), line_of (take 191 full) @ 0 # r)" by blast
    have "0 \<notin> set (line_of (take 191 full))" using no by (auto simp: line_of_def dest: in_set_takeD)
    with run t False show ?thesis by simp
  qed
qed


text \<open>The logger the library starts with, and a message longer than the buffer.\<close>

definition some_logger :: logger where
  "some_logger = \<lparr> lg_name = ascii ''GLOBAL'' @ replicate 26 0, lg_root_path = None, lg_log_level = 6,
     lg_flags = 0, lg_file = None, lg_puts = Some 1, lg_cb = None \<rparr>"


subsection \<open>Names and colours\<close>

text \<open>\<open>logger_set_name()\<close> stores the name, cut to 31 characters and terminated.\<close>

lemma logger_set_name_correct:
  assumes "length (lg_name ctx) = LOGGER_NAME_MAXLEN" and "0 \<notin> set n"
  shows "\<exists>ctx'. logger_set_name ctx (Some (n @ 0 # z)) = Some ctx' \<and> length (lg_name ctx') = LOGGER_NAME_MAXLEN \<and>
    c_string (lg_name ctx') 0 = Some (take 31 n)"
proof -
  have c: "strncpy_loop (lg_name ctx) (n @ 0 # z) 0 32 False = Some (take 32 (n @ replicate 32 0))"
    using strncpy_loop_copies [of "[]" 0 "[]" 32 "lg_name ctx" n z] assms by (simp add: LOGGER_NAME_MAXLEN_def)
  have "(take 32 (n @ replicate 32 0))[31 := 0] = take 31 (n @ replicate 32 0) @ [0]"
    by (subst upd_conv_take_nth_drop) (simp_all add: take_take)
  also have "\<dots> = take 31 n @ replicate (32 - min 31 (length n)) 0"
  proof (cases "31 \<le> length n")
    case False
    then obtain k where "31 = length n + Suc k" by (metis add_Suc_right less_iff_Suc_add not_le)
    then have "31 - length n = Suc k" "32 - length n = Suc (Suc k)" by simp_all
    with False show ?thesis by (simp add: replicate_append_same)
  qed simp
  also have "32 - min 31 (length n) = Suc (31 - min 31 (length n))" by simp
  finally have "(take 32 (n @ replicate 32 0))[31 := 0] = take 31 n @ 0 # replicate (31 - min 31 (length n)) 0"
    by simp
  moreover have "set_at (take 32 (n @ replicate 32 0)) 31 (0 :: u8) = Some ((take 32 (n @ replicate 32 0))[31 := 0])"
    unfolding set_at_def by (rule if_P) simp
  ultimately have "logger_set_name ctx (Some (n @ 0 # z)) =
      Some (ctx\<lparr>lg_name := take 31 n @ 0 # replicate (31 - min 31 (length n)) 0\<rparr>)"
    using c by (simp add: logger_set_name_def LOGGER_NAME_MAXLEN_def del: take_append)
  moreover have "0 \<notin> set (take 31 n)" using assms(2) by (auto dest: in_set_takeD)
  ultimately show ?thesis by (simp add: LOGGER_NAME_MAXLEN_def)
qed

text \<open>
  \<open>logger_init()\<close> turns colours off whenever there is a file, and colours are written to files only:
  a logger never writes colours until its file is changed.
\<close>

lemma logger_init_no_colors:
  assumes "logger_init ctx level name root_path puts_fn file cb flags = Some (0, lg)"
  shows "logger_log_set_color isatty lg color = []"
  using assms
  by (auto simp: logger_init_def logger_set_name_def logger_log_set_color_def LOGGER_FLAG_NO_COLORS_def
      bit.conj_disj_distrib2 Let_def split: option.splits if_splits bind_splits)

end
