(* ===== verification/ProcUtils.thy ===== *)
theory ProcUtils
  imports FileOps Logger
begin

text \<open>
  Process helpers (\<open>src/procutils.c\<close>): PID files, redirection of the standard streams, the arguments
  of a running process, and the search for a process by the name of its executable.  The files under
  \<open>/proc\<close> and what the system says of a path are parameters.
\<close>

subsection \<open>PID files\<close>

text \<open>\<open>fscanf("%d")\<close> on the contents of a file: like \<open>atoi\<close>, but at least a digit is needed.\<close>

definition scan_digits :: "u8 list \<Rightarrow> u8 list" where
  "scan_digits s =
     (let s = dropWhile isspace s;
          s = (case s of [] \<Rightarrow> [] | c # s' \<Rightarrow> if c = 0x2d \<or> c = 0x2b then s' else s)
      in takeWhile isdigit s)"

definition scan_int :: "u8 list \<Rightarrow> int option option" where
  "scan_int s = (if scan_digits s = [] then Some None else map_option Some (atoi s))"

text \<open>
  \<open>path\<close> is \<open>None\<close> for a null pointer, \<open>Some None\<close> for a file that cannot be opened.  \<open>junk\<close> is what
  \<open>pid_val\<close> holds before it is assigned.  The result is the code returned and what is stored.
\<close>

definition read_pid :: "int \<Rightarrow> u8 list option option \<Rightarrow> (int \<times> int option) option" where
  "read_pid junk path = (case path of
       None \<Rightarrow> Some (- 1, None)
     | Some None \<Rightarrow> Some (- 1, None)
     | Some (Some s) \<Rightarrow> do {
         v \<leftarrow> scan_int s;
         Some (case v of None \<Rightarrow> (- 1, Some junk) | Some pid_val \<Rightarrow> (0, Some pid_val))
       })"

text \<open>The contents of the file afterwards; \<open>path\<close> tells whether it can be opened.\<close>

definition write_pid :: "nat \<Rightarrow> bool option \<Rightarrow> int \<times> u8 list option" where
  "write_pid getpid path = (case path of
       None \<Rightarrow> (1, None)
     | Some False \<Rightarrow> (- 1, None)
     | Some True \<Rightarrow> (0, Some (take 31 (decimal getpid @ [10]))))"

declare decimal.simps [simp del]

lemma decimal_digits: "\<forall>c\<in>set (decimal n). isdigit c"
proof (induction n rule: decimal.induct)
  case (1 n)
  have d: "isdigit (of_nat (48 + k))" if "k < 10" for k
  proof -
    have "unat (of_nat (48 + k) :: u8) = 48 + k" using that by (simp add: unat_of_nat del: of_nat_add)
    then show ?thesis using that by (simp add: isdigit_def word_le_nat_alt)
  qed
  show ?case using 1 d [of "n mod 10"] d [of n] by (subst decimal.simps) (auto simp del: of_nat_add)
qed

lemma decimal_nonempty [simp]: "decimal n \<noteq> []"
  by (subst decimal.simps) simp

lemma dec_value_append:
  "\<forall>c\<in>set s. isdigit c \<Longrightarrow> dec_value (s @ t) v = dec_value t (dec_value s v)"
  by (induction s arbitrary: v) auto

lemma dec_value_decimal: "dec_value (decimal n) 0 = int n"
proof (induction n rule: decimal.induct)
  case (1 n)
  have v: "isdigit (of_nat (48 + k))" "uint (of_nat (48 + k) - 0x30 :: u8) = int k" if "k < 10" for k
  proof -
    have "unat (of_nat (48 + k) :: u8) = 48 + k" using that by (simp add: unat_of_nat del: of_nat_add)
    then show "isdigit (of_nat (48 + k))" using that by (simp add: isdigit_def word_le_nat_alt)
    have "of_nat (48 + k) - 0x30 = (of_nat k :: u8)" by simp
    then show "uint (of_nat (48 + k) - 0x30 :: u8) = int k" using that by (simp add: uint_nat unat_of_nat)
  qed
  have "int (n div 10) * 10 + int (n mod 10) = int n" by presburger
  then show ?case
    using 1 v [of "n mod 10"] v [of n] decimal_digits [of "n div 10"]
    by (subst decimal.simps) (auto simp: dec_value_append simp del: of_nat_add)
qed

lemma isdigit_not_space: "isdigit c \<Longrightarrow> \<not> isspace c \<and> c \<noteq> 0x2d \<and> c \<noteq> 0x2b \<and> c \<noteq> 0"
  by (auto simp: isdigit_def isspace_def word_le_nat_alt)

lemma decimal_Cons: "\<exists>c t. decimal n = c # t \<and> isdigit c"
  using decimal_digits [of n] by (cases "decimal n") auto

text \<open>What \<open>write_pid()\<close> has written, \<open>read_pid()\<close> reads back.\<close>

lemma length_decimal: "n < 10 ^ Suc k \<Longrightarrow> length (decimal n) \<le> Suc k"
proof (induction k arbitrary: n)
  case (Suc k)
  then have "n div 10 < 10 ^ Suc k" by (simp add: div_less_iff_less_mult mult.commute)
  from Suc.IH [OF this] show ?case by (simp add: decimal.simps [of n])
qed (simp add: decimal.simps)

lemma pid_round_trip:
  assumes "int_ok (int pid)"
  shows "write_pid pid (Some True) = (0, Some (decimal pid @ [10]))"
    and "read_pid junk (Some (Some (decimal pid @ [10]))) = Some (0, Some (int pid))"
proof -
  have "pid < 10 ^ 10" using assms by (simp add: int_ok_def INT_MAX_def)
  then have "length (decimal pid) \<le> 10" using length_decimal [of pid 9] by simp
  then show "write_pid pid (Some True) = (0, Some (decimal pid @ [10]))" by (simp add: write_pid_def)
  obtain c t where d: "decimal pid = c # t" "isdigit c" using decimal_Cons by blast
  have nd: "\<not> isdigit 10" by (simp add: isdigit_def)
  have "atoi (decimal pid @ [10]) = Some (int pid)"
    using d isdigit_not_space [OF d(2)] dec_value_append [OF decimal_digits, of pid "[10]" 0] dec_value_decimal [of pid] nd assms
    by (simp add: atoi_def)
  moreover have "scan_digits (decimal pid @ [10]) \<noteq> []"
    using d isdigit_not_space [OF d(2)] by (simp add: scan_digits_def)
  ultimately show "read_pid junk (Some (Some (decimal pid @ [10]))) = Some (0, Some (int pid))"
    by (simp add: read_pid_def scan_int_def)
qed

text \<open>A file without a number gives -1, and an indeterminate value is stored all the same.\<close>

lemma read_pid_stores_junk: "read_pid junk (Some (Some [])) = Some (- 1, Some junk)"
  by (simp add: read_pid_def scan_int_def scan_digits_def)

subsection \<open>Redirection\<close>

text \<open>
  The descriptor table maps descriptors to open files; \<open>opened\<close> is the descriptor and the file that
  \<open>open\<close> gives, if a path was passed and opening works; \<open>dup_ok\<close> tells which \<open>dup2\<close> calls work.
\<close>

definition o_redirect ::
    "(int \<Rightarrow> bool) \<Rightarrow> int \<Rightarrow> (int \<times> nat) option option \<Rightarrow> (int \<rightharpoonup> nat) \<Rightarrow> int \<times> (int \<rightharpoonup> nat)" where
  "o_redirect dup_ok mode opened tab = (case opened of
       None \<Rightarrow> if mode = 3 then (0, tab(0 := None, 1 := None, 2 := None)) else (0, tab)
     | Some None \<Rightarrow> (- 1, tab)
     | Some (Some (fd, f)) \<Rightarrow>
         let tab = tab(fd \<mapsto> f);
             out = bit mode 0;
             err = bit mode 1;
             tab = (if out \<and> dup_ok 1 then tab(1 := tab fd) else tab);
             tab = (if err \<and> dup_ok 2 then tab(2 := tab fd) else tab)
         in (if (out \<and> \<not> dup_ok 1) \<or> (err \<and> \<not> dup_ok 2) then - 1 else 0, tab))"

text \<open>
  With a path, the chosen streams end up on the file, and the descriptor that was opened stays open.
  Without one nothing happens unless \<open>mode\<close> is 3, and then standard input is closed as well.
\<close>

lemma o_redirect_file:
  assumes "\<And>d. dup_ok d" and "2 < fd" and "o_redirect dup_ok mode (Some (Some (fd, f))) tab = (rc, tab')"
  shows "rc = 0" and "tab' 1 = (if bit mode 0 then Some f else tab 1)"
    and "tab' 2 = (if bit mode 1 then Some f else tab 2)" and "tab' 0 = tab 0" and "tab' fd = Some f"
  using assms by (auto simp: o_redirect_def Let_def)

lemma o_redirect_close:
  "o_redirect dup_ok mode None tab = (0, if mode = 3 then tab(0 := None, 1 := None, 2 := None) else tab)"
  by (simp add: o_redirect_def)

subsection \<open>Arguments of a process\<close>

text \<open>A stream is what is left of it, and whether reading has reached its end.\<close>

fun skip_arg :: "u8 list \<Rightarrow> u8 list \<times> bool" where
  "skip_arg [] = ([], True)"
| "skip_arg (c # s) = (if c = 0 then (s, False) else skip_arg s)"

fun skip_args :: "nat \<Rightarrow> u8 list \<times> bool \<Rightarrow> u8 list \<times> bool" where
  "skip_args 0 fd = fd"
| "skip_args (Suc n) fd = skip_args n (skip_arg (fst fd))"

definition MAX_PROC_CMDLINE_ARG_SZ :: nat where
  "MAX_PROC_CMDLINE_ARG_SZ = 200"

fun read_arg :: "u8 list \<Rightarrow> nat \<Rightarrow> u8 list \<Rightarrow> (u8 list \<times> nat) option" where
  "read_arg arg ndx [] = Some (arg, ndx)"
| "read_arg arg ndx (c # s) = do {
     arg \<leftarrow> set_at arg ndx c;
     if c = 0 \<or> MAX_PROC_CMDLINE_ARG_SZ \<le> ndx + 1 then Some (arg, ndx + 1) else read_arg arg (ndx + 1) s
   }"

text \<open>\<open>cmdline\<close> is the contents of the file of the process, if it can be opened.\<close>

definition parse_proc_cmdline ::
    "(nat \<Rightarrow> u8 list option) \<Rightarrow> u8 list option \<Rightarrow> int \<Rightarrow> (int + u8 list option) option" where
  "parse_proc_cmdline malloc cmdline pos = (case cmdline of
       None \<Rightarrow> Some (Inr None)
     | Some s \<Rightarrow>
         if \<not> int_ok (pos - 1) then None
         else let (s, eof) = skip_args (nat (pos - 1)) (s, False)
           in if eof then Some (Inr None)
              else and_then (safe_malloc malloc (MAX_PROC_CMDLINE_ARG_SZ + 1)) (\<lambda>arg. do {
                (arg, ndx) \<leftarrow> read_arg arg 0 s;
                arg \<leftarrow> set_at arg ndx 0;
                Some (Inr (if ndx = 1 then None else Some arg))
              }))"

lemma skip_arg_append: "0 \<notin> set a \<Longrightarrow> skip_arg (a @ 0 # s) = (s, False)"
  by (induction a) auto

lemma skip_args_end: "skip_args n ([], True) = ([], True)"
  by (induction n) auto

definition proc_args :: "u8 list list \<Rightarrow> u8 list" where
  "proc_args args = concat (map (\<lambda>a. a @ [0]) args)"

lemma skip_args_args:
  assumes "\<forall>a\<in>set args. 0 \<notin> set a"
  shows "skip_args n (proc_args args, False) = (proc_args (drop n args), length args < n)"
  using assms
proof (induction args arbitrary: n)
  case Nil
  then show ?case by (cases n) (simp_all add: proc_args_def skip_args_end)
next
  case (Cons a args)
  then show ?case by (cases n) (simp_all add: proc_args_def skip_arg_append)
qed

lemma read_arg_args:
  assumes "0 \<notin> set a" and "length arg = 201" and "ndx < 200"
  shows "read_arg arg ndx (a @ 0 # s) =
    (if ndx + length a < 200 then Some (take ndx arg @ a @ 0 # drop (ndx + length a + 1) arg, ndx + length a + 1)
     else Some (take ndx arg @ take (200 - ndx) a @ drop 200 arg, 200))"
  using assms
proof (induction a arbitrary: arg ndx)
  case Nil
  then show ?case by (simp add: upd_conv_take_nth_drop MAX_PROC_CMDLINE_ARG_SZ_def)
next
  case (Cons c a)
  show ?case
  proof (cases "ndx = 199")
    case True
    then show ?thesis using Cons.prems by (simp add: upd_conv_take_nth_drop MAX_PROC_CMDLINE_ARG_SZ_def)
  next
    case False
    have t: "take (Suc ndx) (arg[ndx := c]) = take ndx arg @ [c]"
      using Cons.prems by (simp add: take_Suc_conv_app_nth)
    have "read_arg arg ndx ((c # a) @ 0 # s) = read_arg (arg[ndx := c]) (ndx + 1) (a @ 0 # s)"
      using Cons.prems False by (simp add: MAX_PROC_CMDLINE_ARG_SZ_def)
    also have "\<dots> = (if ndx + 1 + length a < 200
        then Some (take (ndx + 1) (arg[ndx := c]) @ a @ 0 # drop (ndx + 1 + length a + 1) (arg[ndx := c]), ndx + 1 + length a + 1)
        else Some (take (ndx + 1) (arg[ndx := c]) @ take (200 - (ndx + 1)) a @ drop 200 (arg[ndx := c]), 200))"
      using Cons.prems False by (intro Cons.IH) auto
    finally show ?thesis using Cons.prems False t by (simp add: take_Cons')
  qed
qed

text \<open>
  The argument at a position is returned up to 200 bytes.  An empty argument is \<open>NULL\<close>, as is a
  position past the one behind the last argument.  At that one, which is also the first of a process
  without arguments, the result is the empty string.
\<close>

lemma parse_proc_cmdline_correct:
  assumes "malloc_ok malloc" and "malloc 201 = Some p" and "\<forall>a\<in>set args. 0 \<notin> set a" and "int_ok (int pos)" and "0 < pos"
  shows "\<exists>r. parse_proc_cmdline malloc (Some (proc_args args)) (int pos) = Some (Inr r) \<and>
    (if pos \<le> length args \<and> args ! (pos - 1) \<noteq> []
     then \<exists>b. r = Some b \<and> c_string b 0 = Some (take 200 (args ! (pos - 1)))
     else if pos = length args + 1 then \<exists>b. r = Some b \<and> c_string b 0 = Some []
     else r = None)"
proof -
  have l: "length p = 201" using assms(1,2) by (auto simp: malloc_ok_def)
  have i: "int_ok (int pos - 1)" using assms(4) by (simp add: int_ok_def INT_MAX_def)
  have n: "nat (int pos - 1) = pos - 1" by simp
  note d = parse_proc_cmdline_def i n skip_args_args [OF assms(3)] safe_malloc_def assms(2) MAX_PROC_CMDLINE_ARG_SZ_def
  consider "length args < pos - 1" | "pos = length args + 1" | "pos - 1 < length args" using assms(5) by linarith
  then show ?thesis
  proof cases
    case 1
    then show ?thesis by (simp add: d)
  next
    case 2
    then have "proc_args (drop (pos - 1) args) = []" by (simp add: proc_args_def)
    moreover obtain c q where "p = c # q" using l by (cases p) auto
    ultimately show ?thesis using 2 i by (simp add: d c_string_def)
  next
    case 3
    define a where "a = args ! (pos - 1)"
    have a': "args ! (pos - Suc 0) = a" by (simp add: a_def)
    have a: "0 \<notin> set a" using 3 assms(3) by (simp add: a_def)
    have "proc_args (drop (pos - 1) args) = a @ 0 # proc_args (drop pos args)"
      using 3 assms(5) by (simp add: Cons_nth_drop_Suc [symmetric] proc_args_def a_def)
    note r = read_arg_args [OF a l, of 0 "proc_args (drop pos args)", folded this]
    show ?thesis
    proof (cases "length a < 200")
      case True
      then show ?thesis using 3 l a r by (auto simp: d a' list_update_append)
    next
      case False
      then have "take 200 a @ drop 200 p = take 200 a @ [p ! 200]" using l by (simp add: Cons_nth_drop_Suc [symmetric])
      moreover have "0 \<notin> set (take 200 a)" using a by (meson in_set_takeD)
      ultimately show ?thesis using False 3 l r by (auto simp: d a' list_update_append)
    qed
  qed
qed

subsection \<open>Searching\<close>

text \<open>\<open>strtoul(s, &ptr, 10)\<close> and what \<open>ptr\<close> points to.\<close>

definition strtoul10 :: "u8 list \<Rightarrow> u64 \<times> u8 list" where
  "strtoul10 s =
     (let t = dropWhile isspace s;
          neg = (t \<noteq> [] \<and> hd t = 0x2d);
          t = (if t \<noteq> [] \<and> (hd t = 0x2d \<or> hd t = 0x2b) then tl t else t);
          v = dec_value (takeWhile isdigit t) 0
      in if takeWhile isdigit t = [] then (0, s)
         else (if 2 ^ 64 \<le> v then - 1 else if neg then - word_of_int v else word_of_int v, dropWhile isdigit t))"

text \<open>Both comparison functions; the difference of two \<open>int\<close>s may overflow.\<close>

definition pid_cmp_func :: "u32 \<Rightarrow> u32 \<Rightarrow> int option" where
  "pid_cmp_func a b = (let d = sint a - sint b in if int_ok d then Some d else None)"

text \<open>\<open>qsort\<close> and \<open>bsearch\<close> of the C library; neither is defined if a comparison is not.\<close>

definition qsort_pids :: "u32 list \<Rightarrow> u32 list option" where
  "qsort_pids arr =
     (if list_all (\<lambda>a. list_all (\<lambda>b. pid_cmp_func a b \<noteq> None) arr) arr then Some (sort_key sint arr) else None)"

definition bsearch_pid :: "u32 \<Rightarrow> u32 list \<Rightarrow> bool option" where
  "bsearch_pid key arr =
     (if list_all (\<lambda>e. pid_cmp_func key e \<noteq> None) arr
      then Some (list_ex (\<lambda>e. pid_cmp_func key e = Some 0) arr) else None)"

text \<open>\<open>fs\<close> is what \<open>stat\<close> and \<open>realpath\<close> say of a path.  Strings here are without terminators.\<close>

definition cmp_arg0_basename ::
    "(u8 list \<Rightarrow> bool \<times> u8 list option) \<Rightarrow> u8 list \<Rightarrow> u8 list \<Rightarrow> bool" where
  "cmp_arg0_basename fs arg0 basename =
     (case snd (snd (path_extract (fst (fs arg0)) (snd (fs arg0)) False True)) of
        None \<Rightarrow> False
      | Some ptr \<Rightarrow> take MAX_PROC_CMDLINE_ARG_SZ basename = take MAX_PROC_CMDLINE_ARG_SZ ptr)"

text \<open>The loop over the names in \<open>/proc\<close>; \<open>cmdline\<close> gives the argument file of a process.\<close>

fun pid_loop ::
    "(nat \<Rightarrow> u8 list option) \<Rightarrow> (u32 \<Rightarrow> u8 list option) \<Rightarrow> (u8 list \<Rightarrow> bool \<times> u8 list option) \<Rightarrow>
     u8 list \<Rightarrow> u32 list option \<Rightarrow> u8 list list \<Rightarrow> (int + u32) option" where
  "pid_loop malloc cmdline fs exe_name pomit [] = Some (Inr 0)"
| "pid_loop malloc cmdline fs exe_name pomit (d_name # ents) =
     (let continue1 = pid_loop malloc cmdline fs exe_name pomit ents;
          (v, ptr) = strtoul10 d_name;
          pid = ucast v
      in if d_name = [] \<or> ptr \<noteq> [] then continue1
         else do {
           omit \<leftarrow> (case pomit of None \<Rightarrow> Some False | Some arr \<Rightarrow> bsearch_pid pid arr);
           if omit then continue1
           else do {
             r \<leftarrow> parse_proc_cmdline malloc (cmdline pid) 1;
             and_then r (\<lambda>arg0. case arg0 of
                 None \<Rightarrow> continue1
               | Some b \<Rightarrow> do {
                   s \<leftarrow> c_string b 0;
                   if s = ascii ''/proc/self/exe'' \<or> \<not> cmp_arg0_basename fs s exe_name then continue1
                   else Some (Inr pid)
                 })
           }
         })"

text \<open>The result, and the array of the caller, which is left sorted.\<close>

definition pid_of ::
    "(nat \<Rightarrow> u8 list option) \<Rightarrow> u8 list list option \<Rightarrow> (u32 \<Rightarrow> u8 list option) \<Rightarrow> (u8 list \<Rightarrow> bool \<times> u8 list option) \<Rightarrow>
     u8 list \<Rightarrow> u32 list option \<Rightarrow> nat \<Rightarrow> (int + u32 \<times> u32 list option) option" where
  "pid_of malloc proc cmdline fs exe_name pomit_arr arr_len =
     (if pomit_arr = None \<and> arr_len \<noteq> 0 then Some (Inr (0, None))
      else case proc of
          None \<Rightarrow> Some (Inr (0, pomit_arr))
        | Some ents \<Rightarrow> do {
            pomit \<leftarrow> (case pomit_arr of None \<Rightarrow> Some None
                       | Some arr \<Rightarrow> map_option Some (buf_read arr 0 arr_len \<bind> qsort_pids));
            r \<leftarrow> pid_loop malloc cmdline fs exe_name pomit ents;
            and_then r (\<lambda>pid. Some (Inr (pid,
              case (pomit, pomit_arr) of (Some a, Some arr) \<Rightarrow> Some (a @ drop arr_len arr) | _ \<Rightarrow> pomit_arr)))
          })"

definition any_pid_of ::
    "(nat \<Rightarrow> u8 list option) \<Rightarrow> u8 list list option \<Rightarrow> (u32 \<Rightarrow> u8 list option) \<Rightarrow> (u8 list \<Rightarrow> bool \<times> u8 list option) \<Rightarrow>
     u8 list \<Rightarrow> (int + u32) option" where
  "any_pid_of malloc proc cmdline fs exe_name =
     map_option (map_sum id fst) (pid_of malloc proc cmdline fs exe_name None 0)"

lemma strtoul10_decimal:
  assumes "n < 2 ^ 64"
  shows "strtoul10 (decimal n) = (word_of_nat n, [])"
proof -
  obtain c t where d: "decimal n = c # t" "isdigit c" using decimal_Cons by blast
  have tw: "takeWhile isdigit (decimal n) = decimal n" "dropWhile isdigit (decimal n) = []"
    using decimal_digits [of n] by (simp_all add: takeWhile_eq_all_conv dropWhile_eq_Nil_conv)
  have sp: "dropWhile isspace (decimal n) = decimal n" "hd (decimal n) \<noteq> 0x2d" "hd (decimal n) \<noteq> 0x2b"
    using d isdigit_not_space [OF d(2)] by simp_all
  have "int n < 2 ^ 64" using assms by simp
  then show ?thesis by (simp add: strtoul10_def sp tw dec_value_decimal Let_def)
qed

lemma pid_cmp_small:
  assumes "unat a < 2 ^ 31" and "unat b < 2 ^ 31"
  shows "pid_cmp_func a b = Some (uint a - uint b)"
proof -
  have less: "uint e < 2147483648" if "unat e < 2 ^ 31" for e :: u32
  proof -
    from that have "int (unat e) < int (2 ^ 31)" by (simp only: of_nat_less_iff)
    then show ?thesis by simp
  qed
  then have si: "sint e = uint e" if "unat e < 2 ^ 31" for e :: u32
    using less [OF that] uint_ge_0 [of e]
    by (simp add: sint_uint signed_take_bit_int_eq_self_iff order_trans [OF _ uint_ge_0])
  have "int_ok (uint a - uint b)"
    using less [OF assms(1)] less [OF assms(2)] uint_ge_0 [of a] uint_ge_0 [of b]
    unfolding int_ok_def INT_MAX_def by (intro conjI; linarith)
  then show ?thesis using assms by (simp add: pid_cmp_func_def si Let_def)
qed

lemma bsearch_pid_small:
  assumes "unat key < 2 ^ 31" and "\<forall>e\<in>set arr. unat e < 2 ^ 31"
  shows "bsearch_pid key arr = Some (key \<in> set arr)"
proof -
  have "pid_cmp_func key e = Some (uint key - uint e)" if "e \<in> set arr" for e
    using assms that by (intro pid_cmp_small) auto
  moreover have "uint key - uint e = 0 \<longleftrightarrow> e = key" for e by (auto simp: word_uint_eq_iff)
  ultimately show ?thesis
    unfolding bsearch_pid_def by (auto simp: list_all_iff list_ex_iff)
qed

lemma qsort_pids_small:
  assumes "\<forall>e\<in>set arr. unat e < 2 ^ 31"
  shows "qsort_pids arr = Some (sort_key sint arr)"
  using assms by (simp add: qsort_pids_def list_all_iff pid_cmp_small)

text \<open>
  The process a name in \<open>/proc\<close> stands for: the number, for a name that is one.
\<close>

definition proc_pid :: "u8 list \<Rightarrow> u32 option" where
  "proc_pid s = (if s \<noteq> [] \<and> list_all isdigit s then Some (word_of_int (dec_value s 0)) else None)"

lemma dec_value_nonneg: "0 \<le> v \<Longrightarrow> 0 \<le> dec_value s v"
  by (induction s v rule: dec_value.induct) auto

text \<open>What the guard of the loop makes of a name that does not begin with a blank or a sign.\<close>

lemma strtoul10_name:
  assumes "s \<noteq> []" and "\<not> isspace (hd s)" and "hd s \<noteq> 0x2d" "hd s \<noteq> 0x2b"
  shows "if list_all isdigit s then snd (strtoul10 s) = [] \<and> (dec_value s 0 < 2 ^ 64 \<longrightarrow> fst (strtoul10 s) = word_of_int (dec_value s 0))
    else snd (strtoul10 s) \<noteq> []"
proof -
  have sp: "dropWhile isspace s = s" using assms(1,2) by (cases s) simp_all
  show ?thesis
  proof (cases "list_all isdigit s")
    case True
    then have tw: "takeWhile isdigit s = s" "dropWhile isdigit s = []"
      by (simp_all add: takeWhile_eq_all_conv dropWhile_eq_Nil_conv list_all_iff)
    from True assms show ?thesis by (simp add: strtoul10_def sp tw Let_def)
  next
    case False
    then have "dropWhile isdigit s \<noteq> []" by (auto simp: dropWhile_eq_Nil_conv list_all_iff)
    with False assms show ?thesis by (simp add: strtoul10_def sp Let_def)
  qed
qed

text \<open>
  The processes whose first argument, of which 200 bytes count, is a path of the executable: a regular
  file whose last name is \<open>exe_name\<close>.  A first argument that is no path from the current directory is
  not found.
\<close>

definition runs :: "(u8 list \<Rightarrow> bool \<times> u8 list option) \<Rightarrow> u8 list \<Rightarrow> u8 list list option \<Rightarrow> bool" where
  "runs fs exe_name args \<longleftrightarrow> (case args of
       None \<Rightarrow> False
     | Some as \<Rightarrow> as \<noteq> [] \<and> hd as \<noteq> [] \<and> take 200 (hd as) \<noteq> ascii ''/proc/self/exe'' \<and>
         cmp_arg0_basename fs (take 200 (hd as)) exe_name)"

definition omitted :: "u32 list option \<Rightarrow> u32 set" where
  "omitted omit = (case omit of None \<Rightarrow> {} | Some arr \<Rightarrow> set arr)"

lemma pid_loop_one:
  assumes m: "malloc_ok malloc" "malloc 201 = Some p"
    and args: "\<forall>as. args pid = Some as \<longrightarrow> (\<forall>a\<in>set as. 0 \<notin> set a)" and fs: "fst (fs []) = False"
  shows "(do {
      r \<leftarrow> parse_proc_cmdline malloc (map_option proc_args (args pid)) 1;
      and_then r (\<lambda>arg0. case arg0 of
          None \<Rightarrow> rest
        | Some b \<Rightarrow> do {
            s \<leftarrow> c_string b 0;
            if s = ascii ''/proc/self/exe'' \<or> \<not> cmp_arg0_basename fs s exe_name then rest else Some (Inr pid)
          })
    }) = (if runs fs exe_name (args pid) then Some (Inr pid) else rest)"
proof (cases "args pid")
  case None
  then show ?thesis by (simp add: parse_proc_cmdline_def runs_def)
next
  case (Some as)
  then have as: "\<forall>a\<in>set as. 0 \<notin> set a" using args by auto
  have one: "int_ok (int 1)" "0 < (1 :: nat)" by (simp_all add: int_ok_def INT_MAX_def)
  from parse_proc_cmdline_correct [OF m as one] obtain r where
    r': "parse_proc_cmdline malloc (Some (proc_args as)) (int 1) = Some (Inr r)"
      "if 1 \<le> length as \<and> as ! (1 - 1) \<noteq> [] then \<exists>b. r = Some b \<and> c_string b 0 = Some (take 200 (as ! (1 - 1)))
       else if 1 = length as + 1 then \<exists>b. r = Some b \<and> c_string b 0 = Some [] else r = None" by blast
  have r: "parse_proc_cmdline malloc (Some (proc_args as)) 1 = Some (Inr r)"
      "if as \<noteq> [] \<and> hd as \<noteq> [] then \<exists>b. r = Some b \<and> c_string b 0 = Some (take 200 (hd as))
       else if as = [] then \<exists>b. r = Some b \<and> c_string b 0 = Some [] else r = None"
    subgoal using r'(1) by simp
    subgoal using r'(2) by (cases "as = []") (simp_all add: hd_conv_nth Suc_le_eq cong: if_cong)
    done
  have e: "\<not> cmp_arg0_basename fs [] exe_name" using fs by (simp add: cmp_arg0_basename_def path_extract_def)
  show ?thesis
  proof (cases "as = [] \<or> hd as = []")
    case True
    then have "r = None \<or> (\<exists>b. r = Some b \<and> c_string b 0 = Some [])" using r(2) by (cases as) auto
    then show ?thesis using True Some r(1) e by (auto simp: runs_def)
  next
    case False
    then obtain bb where "r = Some bb" "c_string bb 0 = Some (take 200 (hd as))" using r(2) by auto
    then show ?thesis using False Some r(1) by (auto simp: runs_def)
  qed
qed

lemma pid_loop_finds:
  assumes m: "malloc_ok malloc" "malloc 201 = Some p"
    and names: "\<forall>s\<in>set ents. s \<noteq> [] \<longrightarrow> \<not> isspace (hd s) \<and> hd s \<noteq> 0x2d \<and> hd s \<noteq> 0x2b"
      "\<forall>s\<in>set ents. list_all isdigit s \<longrightarrow> dec_value s 0 < 2 ^ 31"
    and omit: "\<forall>e\<in>omitted omit. unat e < 2 ^ 31"
    and args: "\<forall>pid as. args pid = Some as \<longrightarrow> (\<forall>a\<in>set as. 0 \<notin> set a)" and fs: "fst (fs []) = False"
  shows "pid_loop malloc (\<lambda>pid. map_option proc_args (args pid)) fs exe_name omit ents =
    Some (Inr (case find (\<lambda>pid. pid \<notin> omitted omit \<and> runs fs exe_name (args pid)) (List.map_filter proc_pid ents) of
      None \<Rightarrow> 0 | Some pid \<Rightarrow> pid))"
  using names
proof (induction ents)
  case Nil
  then show ?case by (simp add: map_filter_simps)
next
  case (Cons s ents)
  let ?rest = "pid_loop malloc (\<lambda>pid. map_option proc_args (args pid)) fs exe_name omit ents"
  have name: "s \<noteq> [] \<Longrightarrow> \<not> isspace (hd s) \<and> hd s \<noteq> 0x2d \<and> hd s \<noteq> 0x2b" and small: "list_all isdigit s \<Longrightarrow> dec_value s 0 < 2 ^ 31"
    using Cons.prems by simp_all
  show ?case
  proof (cases "s \<noteq> [] \<and> list_all isdigit s")
    case False
    then have "s = [] \<or> snd (strtoul10 s) \<noteq> []" using strtoul10_name [of s] name by auto
    then have "pid_loop malloc (\<lambda>pid. map_option proc_args (args pid)) fs exe_name omit (s # ents) = ?rest"
      by (auto simp: Let_def split: prod.splits)
    moreover have "proc_pid s = None" using False by (simp add: proc_pid_def)
    ultimately show ?thesis using Cons by (simp add: map_filter_simps)
  next
    case True
    define pid :: u32 where "pid = word_of_int (dec_value s 0)"
    have v: "0 \<le> dec_value s 0" "dec_value s 0 < 2 ^ 31" using dec_value_nonneg small True by simp_all
    then have st: "strtoul10 s = (word_of_int (dec_value s 0), [])"
      using strtoul10_name [of s] name True by (cases "strtoul10 s") simp
    have u: "(ucast (word_of_int (dec_value s 0) :: u64) :: u32) = pid"
      unfolding pid_def by (rule bit_word_eqI) (simp add: bit_ucast_iff bit_word_of_int_iff)
    have "uint pid = dec_value s 0" using v by (simp add: pid_def uint_word_of_int)
    then have "unat pid < 2 ^ 31" using v by (simp add: unat_eq_nat_uint nat_less_iff)
    then have b: "(case omit of None \<Rightarrow> Some False | Some arr \<Rightarrow> bsearch_pid pid arr) = Some (pid \<in> omitted omit)"
      using omit bsearch_pid_small [of pid] by (auto simp: omitted_def split: option.splits)
    have "\<forall>as. args pid = Some as \<longrightarrow> (\<forall>a\<in>set as. 0 \<notin> set a)" using args by blast
    note one = pid_loop_one [of malloc p args pid fs ?rest exe_name, OF m this fs]
    have "pid_loop malloc (\<lambda>pid. map_option proc_args (args pid)) fs exe_name omit (s # ents) =
        (if pid \<in> omitted omit then ?rest else if runs fs exe_name (args pid) then Some (Inr pid) else ?rest)"
      using True unfolding pid_loop.simps st Let_def prod.case u b one by simp
    moreover have "proc_pid s = Some pid" using True by (simp add: proc_pid_def pid_def)
    ultimately show ?thesis using Cons by (simp add: map_filter_simps)
  qed
qed



end
