(* ===== verification/BufferSpec.thy ===== *)
theory BufferSpec
  imports CPrelude
begin

text \<open>
  The contract shared by the containers that hand elements back in arrival order or in
  reverse: the ring buffer of \<open>src/circbuf.c\<close>, the array stack of \<open>src/filo.c\<close>, and the
  intrusive queue and stack of \<open>src/queue.c\<close> and \<open>src/stack.c\<close>.  All of them return 0 on
  success and -1 when full or empty.  The abstract state is the list of held elements,
  oldest first; \<open>spec_run\<close> is the reference behaviour of a sequence of calls, \<open>run_ops\<close>
  the same sequence on an implementation.  The locales state what a provider promises for
  one call and prove, once, that any sequence of calls behaves as the reference.
\<close>

datatype 'a buf_op = Put 'a | Get

text \<open>Where the next element to leave sits in the oldest-first list.\<close>

datatype discipline = Fifo | Lifo

fun take_out :: "discipline \<Rightarrow> 'a list \<Rightarrow> ('a \<times> 'a list) option" where
  "take_out d [] = None"
| "take_out Fifo (x # xs) = Some (x, xs)"
| "take_out Lifo (x # xs) = Some (last (x # xs), butlast (x # xs))"

fun spec_step :: "discipline \<Rightarrow> enat \<Rightarrow> 'a list \<Rightarrow> 'a buf_op \<Rightarrow> (int \<times> 'a option) \<times> 'a list" where
  "spec_step d c xs (Put x) =
     (if enat (length xs) < c then ((0, None), xs @ [x]) else ((- 1, None), xs))"
| "spec_step d c xs Get =
     (case take_out d xs of None \<Rightarrow> ((- 1, None), xs) | Some (x, ys) \<Rightarrow> ((0, Some x), ys))"

fun spec_run :: "discipline \<Rightarrow> enat \<Rightarrow> 'a list \<Rightarrow> 'a buf_op list \<Rightarrow>
    (int \<times> 'a option) list \<times> 'a list" where
  "spec_run d c xs [] = ([], xs)"
| "spec_run d c xs (p # ps) =
     (let (out, ys) = spec_step d c xs p; (outs, zs) = spec_run d c ys ps in (out # outs, zs))"

fun run_ops :: "('s \<Rightarrow> 'a \<Rightarrow> (int \<times> 's) option) \<Rightarrow> ('s \<Rightarrow> (int \<times> 'a option \<times> 's) option) \<Rightarrow>
    's \<Rightarrow> 'a buf_op list \<Rightarrow> ((int \<times> 'a option) list \<times> 's) option" where
  "run_ops pt gt s [] = Some ([], s)"
| "run_ops pt gt s (Put x # ps) =
     (case pt s x of None \<Rightarrow> None
      | Some (rc, s') \<Rightarrow> map_option (\<lambda>(outs, t). ((rc, None) # outs, t)) (run_ops pt gt s' ps))"
| "run_ops pt gt s (Get # ps) =
     (case gt s of None \<Rightarrow> None
      | Some (rc, v, s') \<Rightarrow> map_option (\<lambda>(outs, t). ((rc, v) # outs, t)) (run_ops pt gt s' ps))"

fun puts_of :: "'a buf_op list \<Rightarrow> 'a list" where
  "puts_of [] = []"
| "puts_of (Put x # ps) = x # puts_of ps"
| "puts_of (Get # ps) = puts_of ps"

lemma take_out_Some_length: "take_out d xs = Some (x, ys) \<Longrightarrow> length xs = Suc (length ys)"
  by (cases "(d, xs)" rule: take_out.cases) auto

lemma take_out_Fifo_Some: "take_out Fifo xs = Some (x, ys) \<longleftrightarrow> xs = x # ys"
  by (cases xs) auto

lemma take_out_Lifo_snoc [simp]: "take_out Lifo (ys @ [x]) = Some (x, ys)"
  by (cases ys) auto

lemma take_out_Lifo_Some: "take_out Lifo xs = Some (x, ys) \<longleftrightarrow> xs = ys @ [x]"
  by (cases xs rule: rev_cases) auto

lemma take_out_None: "take_out d xs = None \<longleftrightarrow> xs = []"
  by (cases "(d, xs)" rule: take_out.cases) auto

subsection \<open>What a provider promises\<close>

text \<open>
  \<open>R s xs\<close>: the concrete state \<open>s\<close> is well formed and holds \<open>xs\<close>.  \<open>fits s ys\<close>: the
  elements \<open>ys\<close> may be offered to \<open>s\<close> one after the other (they have the right size, or
  they are distinct allocated nodes that are not linked yet).
\<close>

locale bounded_buffer =
  fixes R :: "'s \<Rightarrow> 'a list \<Rightarrow> bool"
    and cap :: "'s \<Rightarrow> enat"
    and fits :: "'s \<Rightarrow> 'a list \<Rightarrow> bool"
    and pt :: "'s \<Rightarrow> 'a \<Rightarrow> (int \<times> 's) option"
  assumes within: "R s xs \<Longrightarrow> enat (length xs) \<le> cap s"
    and put_room: "R s xs \<Longrightarrow> fits s (x # ys) \<Longrightarrow> enat (length xs) < cap s \<Longrightarrow>
      \<exists>s'. pt s x = Some (0, s') \<and> R s' (xs @ [x]) \<and> cap s' = cap s \<and> fits s' ys"
    and put_full: "R s xs \<Longrightarrow> fits s (x # ys) \<Longrightarrow> \<not> enat (length xs) < cap s \<Longrightarrow>
      pt s x = Some (- 1, s) \<and> fits s ys"

locale disciplined = bounded_buffer R cap fits pt
  for R :: "'s \<Rightarrow> 'a list \<Rightarrow> bool" and cap fits and pt :: "'s \<Rightarrow> 'a \<Rightarrow> (int \<times> 's) option" +
  fixes d :: discipline
    and gt :: "'s \<Rightarrow> (int \<times> 'a option \<times> 's) option"
  assumes get_some: "R s xs \<Longrightarrow> take_out d xs = Some (x, ys) \<Longrightarrow>
      \<exists>s'. gt s = Some (0, Some x, s') \<and> R s' ys \<and> cap s' = cap s \<and>
        (\<forall>zs. fits s zs \<longrightarrow> fits s' zs)"
    and get_none: "R s [] \<Longrightarrow> gt s = Some (- 1, None, s)"
begin

lemma step_simulates:
  assumes "R s xs" and "fits s (puts_of (p # ps))"
  shows "\<exists>rc v s' ys. spec_step d (cap s) xs p = ((rc, v), ys) \<and>
    run_ops pt gt s [p] = Some ([(rc, v)], s') \<and> R s' ys \<and> cap s' = cap s \<and> fits s' (puts_of ps)"
proof (cases p)
  case (Put x)
  show ?thesis
  proof (cases "enat (length xs) < cap s")
    case True
    then obtain s' where "pt s x = Some (0, s')" "R s' (xs @ [x])" "cap s' = cap s"
      "fits s' (puts_of ps)"
      using put_room [OF assms(1), of x "puts_of ps"] assms(2) Put by auto
    with Put True show ?thesis by auto
  next
    case False
    then have "pt s x = Some (- 1, s)" "fits s (puts_of ps)"
      using put_full [OF assms(1), of x "puts_of ps"] assms(2) Put by auto
    with Put False assms(1) show ?thesis by auto
  qed
next
  case Get
  show ?thesis
  proof (cases "take_out d xs")
    case None
    then have "xs = []" by (simp add: take_out_None)
    with None Get get_none assms show ?thesis by (auto intro!: exI [of _ s])
  next
    case (Some r)
    then obtain x ys where r: "take_out d xs = Some (x, ys)" by (cases r) auto
    with get_some [OF assms(1) r] Get assms(2) show ?thesis by fastforce
  qed
qed

lemma run_ops_Cons:
  "run_ops pt gt s [p] = Some ([v], s') \<Longrightarrow>
     run_ops pt gt s (p # ps) = map_option (\<lambda>(outs, t). (v # outs, t)) (run_ops pt gt s' ps)"
  by (cases p) (auto split: option.splits)

text \<open>Any sequence of calls returns what the reference returns and ends in its state.\<close>

lemma run_simulates:
  assumes "R s xs" and "fits s (puts_of ps)" and "spec_run d (cap s) xs ps = (outs, ys)"
  shows "\<exists>s'. run_ops pt gt s ps = Some (outs, s') \<and> R s' ys \<and> cap s' = cap s"
  using assms
proof (induction ps arbitrary: s xs outs)
  case Nil
  then show ?case by simp
next
  case (Cons p ps)
  from step_simulates [OF Cons.prems(1,2)] obtain rc v s' zs where
    step: "spec_step d (cap s) xs p = ((rc, v), zs)" "run_ops pt gt s [p] = Some ([(rc, v)], s')"
    and inv: "R s' zs" "cap s' = cap s" "fits s' (puts_of ps)"
    by blast
  obtain outs' where rest: "spec_run d (cap s) zs ps = (outs', ys)" "outs = (rc, v) # outs'"
    using Cons.prems(3) step(1) by (auto split: prod.splits)
  from Cons.IH [OF inv(1,3)] rest(1) inv(2) obtain s'' where
    "run_ops pt gt s' ps = Some (outs', s'')" "R s'' ys" "cap s'' = cap s"
    by auto
  then show ?case using run_ops_Cons [OF step(2)] rest(2) by auto
qed

end

subsection \<open>Filling and draining\<close>

lemma spec_run_append:
  "spec_run d c xs (ps @ qs) =
     (let (o1, ys) = spec_run d c xs ps; (o2, zs) = spec_run d c ys qs in (o1 @ o2, zs))"
  by (induction ps arbitrary: xs) (auto simp: Let_def split: prod.splits)

lemma spec_run_puts:
  "enat (length xs + length as) \<le> c \<Longrightarrow>
     spec_run d c xs (map Put as) = (replicate (length as) (0, None), xs @ as)"
proof (induction as arbitrary: xs)
  case Nil
  then show ?case by simp
next
  case (Cons a as)
  then have "enat (length xs) < c"
    by (metis add_Suc_right enat_ord_simps(2) length_Cons less_add_Suc1 order_less_le_trans)
  with Cons show ?case by simp
qed

lemma spec_run_gets_Fifo:
  "spec_run Fifo c xs (replicate (length xs) Get) = (map (\<lambda>x. (0, Some x)) xs, [])"
  by (induction xs) auto

lemma spec_run_gets_Lifo:
  "spec_run Lifo c xs (replicate (length xs) Get) = (map (\<lambda>x. (0, Some x)) (rev xs), [])"
proof (induction xs rule: rev_induct)
  case Nil
  then show ?case by simp
next
  case (snoc x xs)
  have "take_out Lifo (xs @ [x]) = Some (x, xs)" by (simp add: take_out_Lifo_Some)
  with snoc show ?case by simp
qed

context disciplined
begin

text \<open>
  Elements put into an empty container come out complete: in arrival order for a FIFO, in
  reverse for a LIFO.
\<close>

lemma fill_and_drain:
  assumes "R s []" and "fits s as" and "enat (length as) \<le> cap s"
  shows "\<exists>s'. run_ops pt gt s (map Put as @ replicate (length as) Get) =
      Some (replicate (length as) (0, None) @
        map (\<lambda>x. (0, Some x)) (case d of Fifo \<Rightarrow> as | Lifo \<Rightarrow> rev as), s') \<and> R s' []"
proof -
  have puts: "puts_of (map Put as @ replicate n Get) = as" for n
    by (induction as) (simp, induction n, auto)
  have "spec_run d (cap s) [] (map Put as @ replicate (length as) Get) =
      (replicate (length as) (0, None) @
        map (\<lambda>x. (0, Some x)) (case d of Fifo \<Rightarrow> as | Lifo \<Rightarrow> rev as), [])"
    using assms(3)
    by (cases d) (simp_all add: spec_run_append spec_run_puts spec_run_gets_Fifo
        spec_run_gets_Lifo)
  from run_simulates [OF assms(1) _ this] puts assms(2) show ?thesis by auto
qed

end

end
