(* ===== verification/CircBuf.thy ===== *)
theory CircBuf
  imports BufferSpec
begin

text \<open>
  The lock-free ring buffer of \<open>src/circbuf.c\<close>.  The two counters run over \<open>[0, 2 * size)\<close>
  so that full and empty differ; the slot of a counter is the counter modulo \<open>size\<close>.  The
  buffer is modelled as the bytes it is, \<open>size * element_size\<close> of them; \<open>cb_elems\<close> is the
  sequence of elements it holds.  Every operation is bounds-checked, so a result \<open>Some\<close>
  says that it stayed inside the buffer.
\<close>

record circbuf =
  cb_buffer :: "u8 list"
  push_count :: int
  pop_count :: int
  cb_size :: int
  element_size :: int

text \<open>\<open>CIRCBUF_DEF(type, buf, sz)\<close>: static storage is zero.\<close>

definition circbuf_def :: "nat \<Rightarrow> nat \<Rightarrow> circbuf" where
  "circbuf_def type_size sz =
     \<lparr>cb_buffer = replicate (sz * type_size) 0, push_count = 0, pop_count = 0,
      cb_size = int sz, element_size = int type_size\<rparr>"

definition circbuf_flush :: "circbuf \<Rightarrow> circbuf" where
  "circbuf_flush c = c\<lparr>push_count := 0, pop_count := 0\<rparr>"

text \<open>The occupancy, computed at the head of each of the three functions.\<close>

definition cb_total :: "circbuf \<Rightarrow> int" where
  "cb_total c =
     (let total = push_count c - pop_count c
      in if total < 0 then total + 2 * cb_size c else total)"

text \<open>
  \<open>__circbuf_pop\<close>.  \<open>elem\<close> tells whether the destination pointer is non-NULL; the second
  component of the result is what is stored there.  \<open>clean\<close> is \<open>CRICBUF_CLEAN_ON_POP\<close>.
\<close>

definition circbuf_pop ::
    "bool \<Rightarrow> circbuf \<Rightarrow> bool \<Rightarrow> int \<Rightarrow> (int \<times> u8 list option \<times> circbuf) option" where
  "circbuf_pop clean c elem read_only =
     (if cb_total c = 0 then Some (- 1, None, c)
      else do {
        let n = nat (element_size c);
        let tail = nat ((pop_count c smod cb_size c) * element_size c);
        out \<leftarrow> (if elem then map_option Some (buf_read (cb_buffer c) tail n) else Some None);
        if read_only = 0 then do {
          buf \<leftarrow> (if clean then buf_write (cb_buffer c) tail (replicate n 0)
                 else Some (cb_buffer c));
          let pop = pop_count c + 1;
          Some (0, out, c\<lparr>cb_buffer := buf,
                          pop_count := (if pop \<ge> 2 * cb_size c then 0 else pop)\<rparr>)
        } else Some (0, out, c)
      })"

definition circbuf_push :: "circbuf \<Rightarrow> u8 list \<Rightarrow> (int \<times> circbuf) option" where
  "circbuf_push c elem =
     (if cb_total c \<ge> cb_size c then Some (- 1, c)
      else do {
        let head = nat ((push_count c smod cb_size c) * element_size c);
        buf \<leftarrow> memcpy_to (cb_buffer c) head elem (nat (element_size c));
        let push = push_count c + 1;
        Some (0, c\<lparr>cb_buffer := buf,
                   push_count := (if push \<ge> 2 * cb_size c then 0 else push)\<rparr>)
      })"

definition circbuf_free_space :: "circbuf \<Rightarrow> int" where
  "circbuf_free_space c = cb_size c - cb_total c"

text \<open>The functions \<open>CIRCBUF_DEF\<close> generates, behind the macros that call them.\<close>

definition CIRCBUF_PUSH :: "circbuf \<Rightarrow> u8 list \<Rightarrow> (int \<times> circbuf) option" where
  "CIRCBUF_PUSH buf pt = circbuf_push buf pt"

definition CIRCBUF_POP :: "bool \<Rightarrow> circbuf \<Rightarrow> bool \<Rightarrow> (int \<times> u8 list option \<times> circbuf) option" where
  "CIRCBUF_POP clean buf pt = circbuf_pop clean buf pt 0"

definition CIRCBUF_PEEK :: "bool \<Rightarrow> circbuf \<Rightarrow> bool \<Rightarrow> (int \<times> u8 list option \<times> circbuf) option" where
  "CIRCBUF_PEEK clean buf pt = circbuf_pop clean buf pt 1"

subsection \<open>Invariant and abstraction\<close>

definition cb_inv :: "circbuf \<Rightarrow> bool" where
  "cb_inv c \<longleftrightarrow> 0 < cb_size c \<and> 2 * cb_size c \<le> INT_MAX \<and> 0 \<le> element_size c \<and>
     cb_size c * element_size c \<le> INT_MAX \<and>
     length (cb_buffer c) = nat (cb_size c) * nat (element_size c) \<and>
     0 \<le> push_count c \<and> push_count c < 2 * cb_size c \<and>
     0 \<le> pop_count c \<and> pop_count c < 2 * cb_size c \<and> cb_total c \<le> cb_size c"

definition cb_index :: "circbuf \<Rightarrow> nat \<Rightarrow> nat" where
  "cb_index c k = (nat (pop_count c) + k) mod nat (cb_size c)"

definition cb_elems :: "circbuf \<Rightarrow> u8 list list" where
  "cb_elems c =
     map (\<lambda>k. slot (nat (element_size c)) (cb_buffer c) (cb_index c k)) [0..<nat (cb_total c)]"

lemma cb_total_nonneg: "cb_inv c \<Longrightarrow> 0 \<le> cb_total c"
  by (auto simp: cb_inv_def cb_total_def Let_def)

lemma length_cb_elems [simp]: "length (cb_elems c) = nat (cb_total c)"
  by (simp add: cb_elems_def)

lemma cb_tail_offset:
  assumes "cb_inv c"
  shows "nat ((pop_count c smod cb_size c) * element_size c)
    = cb_index c 0 * nat (element_size c)"
  using assms by (simp add: cb_inv_def cb_index_def nat_mult_distrib nat_mod_distrib)

lemma cb_push_congruent:
  assumes "cb_inv c"
  shows "nat (push_count c) mod nat (cb_size c) = cb_index c (nat (cb_total c))"
proof (cases "push_count c - pop_count c < 0")
  case True
  then have "nat (pop_count c) + nat (cb_total c) = nat (push_count c) + 2 * nat (cb_size c)"
    using assms by (simp add: cb_inv_def cb_total_def nat_add_distrib [symmetric] Let_def) arith
  then show ?thesis by (simp add: cb_index_def)
next
  case False
  then have "nat (pop_count c) + nat (cb_total c) = nat (push_count c)"
    using assms by (simp add: cb_inv_def cb_total_def Let_def nat_add_distrib [symmetric])
  then show ?thesis by (simp add: cb_index_def)
qed

lemma cb_head_offset:
  assumes "cb_inv c"
  shows "nat ((push_count c smod cb_size c) * element_size c)
    = cb_index c (nat (cb_total c)) * nat (element_size c)"
  using assms cb_push_congruent [OF assms]
  by (simp add: cb_inv_def nat_mult_distrib nat_mod_distrib)

lemma cb_index_less: "cb_inv c \<Longrightarrow> cb_index c k < nat (cb_size c)"
  by (simp add: cb_index_def cb_inv_def)

text \<open>Fewer than \<open>size\<close> consecutive positions are distinct slots.\<close>

lemma mod_inj_window:
  assumes "(p + i) mod n = (p + j) mod n" and "i \<le> j" and "j < i + (n::nat)"
  shows "i = j"
proof -
  from assms(1) have "n dvd (p + j) - (p + i)"
    using assms(2) by (metis mod_eq_dvd_iff_nat add_le_cancel_left)
  then have "n dvd j - i" by simp
  moreover have "j - i < n" using assms(2,3) by linarith
  ultimately show ?thesis using assms(2) by (metis dvd_imp_le le_antisym not_le diff_is_0_eq zero_less_diff)
qed

lemma cb_index_inj:
  assumes "cb_inv c" and "cb_index c i = cb_index c j" and "i \<le> j" and "j < i + nat (cb_size c)"
  shows "i = j"
  using assms(2-4) mod_inj_window unfolding cb_index_def by blast

lemma cb_slot_bounds:
  assumes "cb_inv c"
  shows "cb_index c k * nat (element_size c) + nat (element_size c) \<le> length (cb_buffer c)"
  using slot_in_bounds [OF cb_index_less [OF assms], where b = "cb_buffer c"] assms
  by (simp add: cb_inv_def)

subsection \<open>Behaviour of each operation\<close>

lemma circbuf_def_inv:
  assumes "0 < sz" and "2 * int sz \<le> INT_MAX" and "int (sz * w) \<le> INT_MAX"
  shows "cb_inv (circbuf_def w sz)" and "cb_elems (circbuf_def w sz) = []"
  using assms by (auto simp: cb_inv_def circbuf_def_def cb_total_def cb_elems_def nat_mult_distrib)

lemma circbuf_flush_correct:
  assumes "cb_inv c"
  shows "cb_inv (circbuf_flush c)" and "cb_elems (circbuf_flush c) = []"
  using assms by (auto simp: cb_inv_def circbuf_flush_def cb_total_def cb_elems_def Let_def)

lemma circbuf_push_full:
  assumes "cb_inv c" and "length (cb_elems c) = nat (cb_size c)"
  shows "circbuf_push c e = Some (- 1, c)"
proof -
  have "cb_total c = cb_size c"
    using assms cb_total_nonneg [OF assms(1)] by (simp add: cb_inv_def nat_eq_iff)
  then show ?thesis by (simp add: circbuf_push_def)
qed

lemma circbuf_push_room:
  assumes inv: "cb_inv c" and room: "length (cb_elems c) < nat (cb_size c)"
    and e: "length e = nat (element_size c)"
  shows "\<exists>c'. circbuf_push c e = Some (0, c') \<and> cb_inv c' \<and> cb_elems c' = cb_elems c @ [e] \<and>
    cb_size c' = cb_size c \<and> element_size c' = element_size c"
proof -
  define w t where "w = nat (element_size c)" and "t = nat (cb_total c)"
  define pos where "pos = cb_index c t"
  define buf where "buf = take (pos * w) (cb_buffer c) @ e @ drop (pos * w + w) (cb_buffer c)"
  define push where "push = (if push_count c + 1 \<ge> 2 * cb_size c then 0 else push_count c + 1)"
  define c' where "c' = c\<lparr>cb_buffer := buf, push_count := push\<rparr>"
  have t: "cb_total c = int t" "t < nat (cb_size c)"
    using cb_total_nonneg [OF inv] room by (simp_all add: t_def)
  have bnd: "pos * w + w \<le> length (cb_buffer c)"
    unfolding pos_def w_def by (rule cb_slot_bounds [OF inv])
  have res: "circbuf_push c e = Some (0, c')"
    using t bnd e cb_head_offset [OF inv]
    by (simp add: circbuf_push_def c'_def buf_def push_def w_def t_def pos_def Let_def)
  have tot: "cb_total c' = cb_total c + 1"
    using inv t by (auto simp: c'_def push_def cb_total_def cb_inv_def Let_def split: if_splits)
  have "length buf = length (cb_buffer c)"
    using bnd e by (simp add: buf_def w_def)
  then have inv': "cb_inv c'"
    using inv tot t by (auto simp: cb_inv_def c'_def push_def)
  have idx: "cb_index c' k = cb_index c k" for k
    by (simp add: cb_index_def c'_def)
  have sl: "slot w buf (cb_index c k) = (if cb_index c k = pos then e else slot w (cb_buffer c) (cb_index c k))"
    for k unfolding buf_def
    by (rule slot_write [where n = "nat (cb_size c)"])
      (use inv e in \<open>auto simp: pos_def w_def cb_inv_def intro: cb_index_less\<close>)
  have old: "cb_index c k \<noteq> pos" if "k < t" for k
    using cb_index_inj [OF inv, of k t] that t(2) by (auto simp: pos_def)
  have "cb_elems c' = map (\<lambda>k. slot w buf (cb_index c k)) ([0..<t] @ [t])"
    using tot t by (simp add: cb_elems_def idx nat_add_distrib)
      (simp add: c'_def w_def)
  also have "\<dots> = cb_elems c @ [e]"
    using old by (simp add: sl cb_elems_def t) (simp add: pos_def w_def)
  finally show ?thesis using res inv' by (auto simp: c'_def)
qed

lemma circbuf_pop_empty:
  "cb_inv c \<Longrightarrow> cb_elems c = [] \<Longrightarrow> circbuf_pop clean c dst ro = Some (- 1, None, c)"
  using cb_total_nonneg [of c] by (auto simp: circbuf_pop_def cb_elems_def)

lemma circbuf_pop_some:
  assumes inv: "cb_inv c" and el: "cb_elems c = x # xs"
  shows "\<exists>c'. circbuf_pop clean c dst 0 = Some (0, if dst then Some x else None, c') \<and>
    cb_inv c' \<and> cb_elems c' = xs \<and> cb_size c' = cb_size c \<and> element_size c' = element_size c"
    and "ro \<noteq> 0 \<Longrightarrow> circbuf_pop clean c dst ro = Some (0, if dst then Some x else None, c)"
proof -
  define w t where "w = nat (element_size c)" and "t = nat (cb_total c)"
  define pos where "pos = cb_index c 0"
  define buf where "buf = (if clean then take (pos * w) (cb_buffer c) @ replicate w 0 @
      drop (pos * w + w) (cb_buffer c) else cb_buffer c)"
  define c' where "c' = c\<lparr>cb_buffer := buf,
      pop_count := (if pop_count c + 1 \<ge> 2 * cb_size c then 0 else pop_count c + 1)\<rparr>"
  have len: "t = Suc (length xs)" using arg_cong [OF el, of length] by (simp add: t_def)
  have t: "cb_total c = int t" using cb_total_nonneg [OF inv] by (simp add: t_def)
  have tmax: "t \<le> nat (cb_size c)" using inv t by (simp add: cb_inv_def nat_le_eq_zle) arith
  have bnd: "pos * w + w \<le> length (cb_buffer c)"
    unfolding pos_def w_def by (rule cb_slot_bounds [OF inv])
  have lists: "cb_elems c = slot w (cb_buffer c) pos #
      map (\<lambda>k. slot w (cb_buffer c) (cb_index c (Suc k))) [0..<length xs]"
    unfolding cb_elems_def t_def [symmetric] w_def [symmetric] len
    by (simp add: upt_conv_Cons map_Suc_upt [symmetric] pos_def comp_def del: upt_Suc)
  then have x: "x = slot w (cb_buffer c) pos"
    and xs: "xs = map (\<lambda>k. slot w (cb_buffer c) (cb_index c (Suc k))) [0..<length xs]"
    using el by simp_all
  show "ro \<noteq> 0 \<Longrightarrow> circbuf_pop clean c dst ro = Some (0, if dst then Some x else None, c)"
    using t len bnd cb_tail_offset [OF inv]
    by (simp add: circbuf_pop_def Let_def w_def pos_def x slot_def)
  have res: "circbuf_pop clean c dst 0 = Some (0, if dst then Some x else None, c')"
    using t len bnd cb_tail_offset [OF inv]
    by (simp add: circbuf_pop_def Let_def w_def pos_def x slot_def c'_def buf_def)
  have tot: "cb_total c' = int (length xs)"
    using inv t len by (auto simp: c'_def cb_total_def cb_inv_def Let_def split: if_splits)
  have "length buf = length (cb_buffer c)"
    using bnd by (simp add: buf_def)
  then have inv': "cb_inv c'"
    using inv tot tmax len by (auto simp: cb_inv_def c'_def)
  have idx: "cb_index c' k = cb_index c (Suc k)" for k
  proof (cases "pop_count c + 1 \<ge> 2 * cb_size c")
    case True
    with inv have "nat (pop_count c) + Suc k = k + 2 * nat (cb_size c)"
      by (auto simp: cb_inv_def)
    then have "cb_index c (Suc k) = k mod nat (cb_size c)"
      unfolding cb_index_def by (simp only: mod_mult_self3 mod_mult_self1)
    with True show ?thesis by (simp add: cb_index_def c'_def)
  next
    case False
    with inv show ?thesis by (simp add: cb_index_def c'_def nat_add_distrib cb_inv_def)
  qed
  have sl: "slot w buf (cb_index c (Suc k)) = slot w (cb_buffer c) (cb_index c (Suc k))"
    if "k < length xs" for k
  proof -
    have "cb_index c (Suc k) \<noteq> pos"
      using cb_index_inj [OF inv, of 0 "Suc k"] that tmax len by (auto simp: pos_def)
    then show ?thesis
      using slot_write [of pos "nat (cb_size c)" "cb_index c (Suc k)" "cb_buffer c" w "replicate w 0"]
        inv cb_index_less [OF inv] by (simp add: buf_def pos_def w_def cb_inv_def)
  qed
  have "cb_elems c' = map (\<lambda>k. slot w buf (cb_index c (Suc k))) [0..<length xs]"
    by (simp add: cb_elems_def tot idx) (simp add: c'_def w_def)
  also have "\<dots> = xs" using sl xs by (metis (no_types, lifting) atLeastLessThan_iff map_eq_conv set_upt)
  finally show "\<exists>c'. circbuf_pop clean c dst 0 = Some (0, if dst then Some x else None, c') \<and>
    cb_inv c' \<and> cb_elems c' = xs \<and> cb_size c' = cb_size c \<and> element_size c' = element_size c"
    using res inv' by (auto simp: c'_def)
qed

lemma circbuf_free_space_correct:
  "cb_inv c \<Longrightarrow> circbuf_free_space c = cb_size c - int (length (cb_elems c))"
  using cb_total_nonneg [of c] by (simp add: circbuf_free_space_def)

subsection \<open>The ring buffer is a bounded FIFO\<close>

definition cb_repr :: "circbuf \<Rightarrow> u8 list list \<Rightarrow> bool" where
  "cb_repr c xs \<longleftrightarrow> cb_inv c \<and> cb_elems c = xs"

definition cb_cap :: "circbuf \<Rightarrow> enat" where
  "cb_cap c = enat (nat (cb_size c))"

definition cb_fits :: "circbuf \<Rightarrow> u8 list list \<Rightarrow> bool" where
  "cb_fits c ys \<longleftrightarrow> (\<forall>y \<in> set ys. length y = nat (element_size c))"

lemma cb_bounded_buffer: "bounded_buffer cb_repr cb_cap cb_fits circbuf_push"
proof
  fix c xs
  show "cb_repr c xs \<Longrightarrow> enat (length xs) \<le> cb_cap c"
    by (auto simp: cb_repr_def cb_cap_def cb_inv_def)
next
  fix c xs x ys
  assume "cb_repr c xs" "cb_fits c (x # ys)" "enat (length xs) < cb_cap c"
  then show "\<exists>s'. circbuf_push c x = Some (0, s') \<and> cb_repr s' (xs @ [x]) \<and>
      cb_cap s' = cb_cap c \<and> cb_fits s' ys"
    using circbuf_push_room [of c x] by (auto simp: cb_repr_def cb_cap_def cb_fits_def)
next
  fix c xs x ys
  assume a: "cb_repr c xs" "cb_fits c (x # ys)" "\<not> enat (length xs) < cb_cap c"
  then have "length (cb_elems c) = nat (cb_size c)"
    by (auto simp: cb_repr_def cb_cap_def cb_inv_def)
  with a show "circbuf_push c x = Some (- 1, c) \<and> cb_fits c ys"
    using circbuf_push_full [of c x] by (auto simp: cb_repr_def cb_fits_def)
qed

interpretation cb: disciplined cb_repr cb_cap cb_fits circbuf_push Fifo
  "\<lambda>c. circbuf_pop clean c True 0" for clean
proof (intro disciplined.intro disciplined_axioms.intro)
  show "bounded_buffer cb_repr cb_cap cb_fits circbuf_push" by (rule cb_bounded_buffer)
next
  fix c xs x ys
  assume a: "cb_repr c xs" "take_out Fifo xs = Some (x, ys)"
  then show "\<exists>s'. circbuf_pop clean c True 0 = Some (0, Some x, s') \<and> cb_repr s' ys \<and>
      cb_cap s' = cb_cap c \<and> (\<forall>zs. cb_fits c zs \<longrightarrow> cb_fits s' zs)"
    using circbuf_pop_some(1) [of c x ys clean True]
    by (auto simp: cb_repr_def take_out_Fifo_Some cb_cap_def cb_fits_def)
next
  fix c :: circbuf
  show "cb_repr c [] \<Longrightarrow> circbuf_pop clean c True 0 = Some (- 1, None, c)"
    using circbuf_pop_empty [of c] by (auto simp: cb_repr_def)
qed

text \<open>
  C35.  The ring buffer implements a bounded FIFO queue: any sequence of pushes and pops, of
  any interleaving, on a well-formed buffer stays inside the buffer's memory and returns,
  call by call, the codes and the elements that a queue of capacity \<open>size\<close> returns.
\<close>

theorem circbuf_refines_fifo:
  assumes "cb_inv c" and "\<forall>e \<in> set (puts_of ops). length e = nat (element_size c)"
    and "spec_run Fifo (enat (nat (cb_size c))) (cb_elems c) ops = (outs, ys)"
  shows "\<exists>c'. run_ops circbuf_push (\<lambda>c. circbuf_pop clean c True 0) c ops = Some (outs, c') \<and>
    cb_inv c' \<and> cb_elems c' = ys"
  using cb.run_simulates [of c "cb_elems c" ops outs ys clean] assms
  by (auto simp: cb_repr_def cb_cap_def cb_fits_def)

theorem circbuf_refines_fifo_witness:
  "\<exists>c'. run_ops circbuf_push (\<lambda>c. circbuf_pop True c True 0) (circbuf_def 1 1)
      [Put [7], Put [9], Get, Get] = Some ([(0, None), (- 1, None), (0, Some [7]), (- 1, None)], c') \<and>
    cb_inv c' \<and> cb_elems c' = []"
  by (rule circbuf_refines_fifo)
    (simp_all add: circbuf_def_def cb_inv_def cb_total_def cb_elems_def INT_MAX_def)

text \<open>Peeking gives what popping gives, and leaves the buffer alone.\<close>

lemma CIRCBUF_PEEK_pop:
  assumes "CIRCBUF_POP clean c pt = Some (rc, out, c')"
  shows "CIRCBUF_PEEK clean c pt = Some (rc, out, c)"
  using assms by (auto simp: CIRCBUF_POP_def CIRCBUF_PEEK_def circbuf_pop_def bind_eq_Some_conv Let_def split: if_splits)

end
