(* ===== verification/Filo.thy ===== *)
theory Filo
  imports BufferSpec Memory
begin

text \<open>
  The array stack of \<open>src/filo.c\<close>: \<open>top\<close> elements of \<open>elem_size\<close> bytes each at the front of a
  byte buffer.  \<open>filo_elems\<close> lists them, oldest first.  Memory comes from the caller
  (\<open>filo_init\<close>) or from \<open>malloc\<close> (\<open>filo_alloc\<close>), whose size argument is a \<open>size_t\<close>
  product that wraps at \<open>2 ^ 64\<close>.
\<close>

record filo =
  filo_buffer :: "u8 list"
  filo_top :: nat
  filo_elem_size :: nat
  filo_max_size :: nat

definition filo_init :: "u8 list \<Rightarrow> nat \<Rightarrow> nat \<Rightarrow> filo" where
  "filo_init buffer elem_size max_size =
     \<lparr>filo_buffer = buffer, filo_top = 0, filo_elem_size = elem_size, filo_max_size = max_size\<rparr>"

definition filo_reset :: "filo \<Rightarrow> filo" where
  "filo_reset p = p\<lparr>filo_top := 0\<rparr>"

text \<open>\<open>malloc n\<close>: the contents of the block that \<open>safe_malloc\<close> hands out for \<open>n\<close> bytes.\<close>

definition filo_alloc :: "(nat \<Rightarrow> u8 list) \<Rightarrow> nat \<Rightarrow> nat \<Rightarrow> filo" where
  "filo_alloc malloc elem_size max_size =
     filo_init (malloc ((elem_size * max_size) mod 2 ^ 64)) elem_size max_size"

text \<open>
  The stack and its buffer are blocks of their own, at the two addresses; the address of the buffer is
  read from the stack.
\<close>

definition filo_free :: "nat set \<Rightarrow> nat \<Rightarrow> nat \<Rightarrow> nat set option" where
  "filo_free live pfilo buffer = (if pfilo \<notin> live then None
     else do { live \<leftarrow> safe_free live buffer; safe_free live pfilo })"

lemma filo_free_alloc:
  "pfilo \<noteq> 0 \<Longrightarrow> buffer \<noteq> 0 \<Longrightarrow> pfilo \<noteq> buffer \<Longrightarrow> pfilo \<notin> live \<Longrightarrow> buffer \<notin> live \<Longrightarrow>
     filo_free (insert pfilo (insert buffer live)) pfilo buffer = Some live"
  by (simp add: filo_free_def safe_free_def insert_Diff_if)

text \<open>A stack that \<open>filo_init\<close> set up in a buffer of the caller's own must not be freed.\<close>

lemma filo_free_init: "buffer \<noteq> 0 \<Longrightarrow> buffer \<notin> live \<Longrightarrow> filo_free live pfilo buffer = None"
  by (simp add: filo_free_def safe_free_def)

definition filo_push :: "filo \<Rightarrow> u8 list \<Rightarrow> (int \<times> filo) option" where
  "filo_push p elem =
     (if filo_top p \<ge> filo_max_size p then Some (- 1, p)
      else do {
        buf \<leftarrow> memcpy_to (filo_buffer p) (filo_elem_size p * filo_top p) elem (filo_elem_size p);
        Some (0, p\<lparr>filo_buffer := buf, filo_top := filo_top p + 1\<rparr>)
      })"

definition filo_pop :: "filo \<Rightarrow> bool \<Rightarrow> (int \<times> u8 list option \<times> filo) option" where
  "filo_pop p remove =
     (if filo_top p = 0 then Some (- 1, None, p)
      else do {
        out \<leftarrow> buf_read (filo_buffer p) (filo_elem_size p * (filo_top p - 1)) (filo_elem_size p);
        Some (0, Some out, if remove then p\<lparr>filo_top := filo_top p - 1\<rparr> else p)
      })"

definition filo_get_count :: "filo \<Rightarrow> nat" where
  "filo_get_count p = filo_top p"

definition filo_get_free_space :: "filo \<Rightarrow> nat" where
  "filo_get_free_space p = filo_max_size p - filo_top p"

subsection \<open>Stacks of a fixed type\<close>

text \<open>The variable the macro defines, and the functions it generates; a count is an \<open>unsigned\<close>.\<close>

definition FILO_DEF :: "u8 list \<Rightarrow> nat \<Rightarrow> nat \<Rightarrow> filo" where
  "FILO_DEF buffer type_size sz =
     \<lparr>filo_buffer = buffer, filo_top = 0, filo_elem_size = type_size, filo_max_size = sz\<rparr>"

definition FILO_PUSH :: "filo \<Rightarrow> u8 list \<Rightarrow> (int \<times> filo) option" where
  "FILO_PUSH name elem = filo_push name elem"

definition FILO_POP :: "filo \<Rightarrow> (int \<times> u8 list option \<times> filo) option" where
  "FILO_POP name = filo_pop name True"

definition FILO_PEEK :: "filo \<Rightarrow> (int \<times> u8 list option \<times> filo) option" where
  "FILO_PEEK name = filo_pop name False"

definition FILO_GET_COUNT :: "filo \<Rightarrow> u32" where
  "FILO_GET_COUNT name = word_of_nat (filo_get_count name)"

definition FILO_RESET :: "filo \<Rightarrow> filo" where
  "FILO_RESET name = filo_reset name"

subsection \<open>Invariant and abstraction\<close>

definition filo_inv :: "filo \<Rightarrow> bool" where
  "filo_inv p \<longleftrightarrow> filo_top p \<le> filo_max_size p \<and>
     filo_max_size p * filo_elem_size p \<le> length (filo_buffer p)"

definition filo_elems :: "filo \<Rightarrow> u8 list list" where
  "filo_elems p = map (slot (filo_elem_size p) (filo_buffer p)) [0..<filo_top p]"

lemma length_filo_elems [simp]: "length (filo_elems p) = filo_top p"
  by (simp add: filo_elems_def)

lemma filo_init_inv:
  "max_size * elem_size \<le> length buffer \<Longrightarrow> filo_inv (filo_init buffer elem_size max_size)"
  "filo_elems (filo_init buffer elem_size max_size) = []"
  by (simp_all add: filo_init_def filo_inv_def filo_elems_def)

lemma filo_alloc_inv:
  assumes "\<And>n. length (malloc n) = n" and "elem_size * max_size < 2 ^ 64"
  shows "filo_inv (filo_alloc malloc elem_size max_size)"
  using assms by (simp add: filo_alloc_def filo_init_inv mult.commute)

lemma FILO_DEF_inv:
  assumes "length buffer = sz * type_size"
  shows "filo_inv (FILO_DEF buffer type_size sz)" and "filo_elems (FILO_DEF buffer type_size sz) = []"
  using assms by (simp_all add: FILO_DEF_def filo_inv_def filo_elems_def)

lemma filo_reset_correct:
  "filo_inv p \<Longrightarrow> filo_inv (filo_reset p)" "filo_elems (filo_reset p) = []"
  by (simp_all add: filo_reset_def filo_inv_def filo_elems_def)

lemma filo_slot_bounds:
  assumes "filo_inv p" and "i < filo_max_size p"
  shows "filo_elem_size p * i + filo_elem_size p \<le> length (filo_buffer p)"
proof -
  have "Suc i * filo_elem_size p \<le> filo_max_size p * filo_elem_size p"
    using assms(2) by (intro mult_le_mono1) simp
  with assms(1) show ?thesis by (simp add: filo_inv_def mult.commute)
qed

lemma slot_write_prefix:
  assumes "i < j" and "j * w + w \<le> length b" and "length xs = w"
  shows "slot w (take (j * w) b @ xs @ drop (j * w + w) b) i = slot w b i"
proof -
  have "i * w + w \<le> j * w" using mult_le_mono1 [of "Suc i" j w] assms(1) by simp
  from slice_write_before [OF this, of xs b] assms show ?thesis by (simp add: slot_def)
qed

lemma filo_push_room:
  assumes inv: "filo_inv p" and room: "filo_top p < filo_max_size p"
    and e: "length e = filo_elem_size p"
  shows "\<exists>p'. filo_push p e = Some (0, p') \<and> filo_inv p' \<and> filo_elems p' = filo_elems p @ [e] \<and>
    filo_max_size p' = filo_max_size p \<and> filo_elem_size p' = filo_elem_size p"
proof -
  define w n where "w = filo_elem_size p" and "n = filo_top p"
  define buf where "buf = take (n * w) (filo_buffer p) @ e @ drop (n * w + w) (filo_buffer p)"
  have bnd: "n * w + w \<le> length (filo_buffer p)"
    using filo_slot_bounds [OF inv room] by (simp add: w_def n_def mult.commute)
  have res: "filo_push p e = Some (0, p\<lparr>filo_buffer := buf, filo_top := n + 1\<rparr>)"
    using room bnd e by (simp add: filo_push_def buf_def w_def n_def mult.commute)
  have "slot w buf n = e"
    using slice_write_same [of "n * w" e "filo_buffer p"] bnd e
    by (simp add: slot_def buf_def w_def)
  moreover have "slot w buf i = slot w (filo_buffer p) i" if "i < n" for i
    unfolding buf_def by (rule slot_write_prefix [OF that bnd]) (simp add: e w_def)
  ultimately have "map (slot w buf) [0..<n + 1] = filo_elems p @ [e]"
    by (simp add: filo_elems_def w_def n_def)
  moreover have "length buf = length (filo_buffer p)"
    using bnd e by (simp add: buf_def w_def)
  ultimately show ?thesis
    using res inv room by (simp add: filo_inv_def filo_elems_def w_def n_def)
qed

lemma filo_push_full: "filo_max_size p \<le> filo_top p \<Longrightarrow> filo_push p e = Some (- 1, p)"
  by (simp add: filo_push_def)

lemma filo_pop_empty: "filo_elems p = [] \<Longrightarrow> filo_pop p remove = Some (- 1, None, p)"
  by (simp add: filo_pop_def filo_elems_def)

lemma filo_pop_some:
  assumes inv: "filo_inv p" and el: "filo_elems p = xs @ [x]"
  shows "filo_pop p False = Some (0, Some x, p)"
    and "\<exists>p'. filo_pop p True = Some (0, Some x, p') \<and> filo_inv p' \<and> filo_elems p' = xs \<and>
      filo_max_size p' = filo_max_size p \<and> filo_elem_size p' = filo_elem_size p"
proof -
  obtain n where n: "filo_top p = Suc n"
    using arg_cong [OF el, of length] by (cases "filo_top p") auto
  have x: "x = slot (filo_elem_size p) (filo_buffer p) n"
    and xs: "xs = map (slot (filo_elem_size p) (filo_buffer p)) [0..<n]"
    using el n by (auto simp: filo_elems_def)
  have "filo_elem_size p * n + filo_elem_size p \<le> length (filo_buffer p)"
    using filo_slot_bounds [OF inv, of n] inv n by (simp add: filo_inv_def)
  then have rd: "buf_read (filo_buffer p) (filo_elem_size p * n) (filo_elem_size p) = Some x"
    by (simp add: x slot_def mult.commute)
  then show "filo_pop p False = Some (0, Some x, p)" by (simp add: filo_pop_def n)
  show "\<exists>p'. filo_pop p True = Some (0, Some x, p') \<and> filo_inv p' \<and> filo_elems p' = xs \<and>
      filo_max_size p' = filo_max_size p \<and> filo_elem_size p' = filo_elem_size p"
    using inv rd by (simp add: filo_pop_def n filo_inv_def filo_elems_def xs)
qed

lemma filo_counts:
  assumes "filo_inv p"
  shows "filo_get_count p = length (filo_elems p)"
    and "filo_get_count p + filo_get_free_space p = filo_max_size p"
  using assms by (simp_all add: filo_get_count_def filo_get_free_space_def filo_inv_def)

subsection \<open>The array stack is a bounded LIFO\<close>

definition filo_repr :: "filo \<Rightarrow> u8 list list \<Rightarrow> bool" where
  "filo_repr p xs \<longleftrightarrow> filo_inv p \<and> filo_elems p = xs"

definition filo_cap :: "filo \<Rightarrow> enat" where
  "filo_cap p = enat (filo_max_size p)"

definition filo_fits :: "filo \<Rightarrow> u8 list list \<Rightarrow> bool" where
  "filo_fits p ys \<longleftrightarrow> (\<forall>y \<in> set ys. length y = filo_elem_size p)"

lemmas filo_iface = filo_repr_def filo_cap_def filo_fits_def

interpretation filo_stack: disciplined filo_repr filo_cap filo_fits filo_push Lifo
  "\<lambda>p. filo_pop p True"
proof
  fix p xs
  show "filo_repr p xs \<Longrightarrow> enat (length xs) \<le> filo_cap p"
    by (auto simp: filo_iface filo_inv_def)
next
  fix p xs x ys
  assume "filo_repr p xs" "filo_fits p (x # ys)" "enat (length xs) < filo_cap p"
  then show "\<exists>s'. filo_push p x = Some (0, s') \<and> filo_repr s' (xs @ [x]) \<and>
      filo_cap s' = filo_cap p \<and> filo_fits s' ys"
    using filo_push_room [of p x] by (auto simp: filo_iface)
next
  fix p xs x ys
  assume "filo_repr p xs" "filo_fits p (x # ys)" "\<not> enat (length xs) < filo_cap p"
  then show "filo_push p x = Some (- 1, p) \<and> filo_fits p ys"
    using filo_push_full [of p x] by (auto simp: filo_iface)
next
  fix p xs x ys
  assume "filo_repr p xs" "take_out Lifo xs = Some (x, ys)"
  then show "\<exists>s'. filo_pop p True = Some (0, Some x, s') \<and> filo_repr s' ys \<and>
      filo_cap s' = filo_cap p \<and> (\<forall>zs. filo_fits p zs \<longrightarrow> filo_fits s' zs)"
    using filo_pop_some(2) [of p ys x] by (auto simp: filo_iface take_out_Lifo_Some)
next
  fix p
  show "filo_repr p [] \<Longrightarrow> filo_pop p True = Some (- 1, None, p)"
    using filo_pop_empty [of p] by (auto simp: filo_iface)
qed

text \<open>
  C36.  A stack made by \<open>filo_alloc\<close> is a bounded LIFO: when the size product does not wrap,
  any sequence of pushes and pops on the fresh stack stays inside the allocated block and
  returns, call by call, the codes and elements that an abstract stack of capacity
  \<open>max_size\<close> returns.
\<close>

theorem filo_alloc_refines_lifo:
  assumes "\<And>n. length (malloc n) = n" and "elem_size * max_size < 2 ^ 64"
    and "\<forall>e \<in> set (puts_of ops). length e = elem_size"
    and "spec_run Lifo (enat max_size) [] ops = (outs, ys)"
  shows "\<exists>p. run_ops filo_push (\<lambda>p. filo_pop p True) (filo_alloc malloc elem_size max_size) ops
      = Some (outs, p) \<and> filo_inv p \<and> filo_elems p = ys"
proof -
  let ?p = "filo_alloc malloc elem_size max_size"
  have "filo_repr ?p []"
    using filo_alloc_inv [of malloc, OF assms(1,2)]
    by (simp add: filo_iface filo_alloc_def filo_init_inv(2))
  moreover have "filo_fits ?p (puts_of ops)" "filo_cap ?p = enat max_size"
    using assms(3) by (simp_all add: filo_iface filo_alloc_def filo_init_def)
  ultimately show ?thesis
    using filo_stack.run_simulates [of ?p "[]" ops outs ys] assms(4) by (auto simp: filo_iface)
qed

theorem filo_alloc_refines_lifo_witness:
  "\<exists>p. run_ops filo_push (\<lambda>p. filo_pop p True) (filo_alloc (\<lambda>n. replicate n 0) 1 2)
      [Put [7], Put [9], Put [3], Get] =
      Some ([(0, None), (0, None), (- 1, None), (0, Some [9])], p) \<and> filo_inv p \<and> filo_elems p = [[7]]"
  by (rule filo_alloc_refines_lifo) simp_all

text \<open>
  The product that \<open>filo_alloc\<close> passes to \<open>malloc\<close> is not checked: when it wraps, the block
  is too small for the capacity the stack then claims, and the first push writes outside it.
\<close>

lemma filo_alloc_wraps:
  assumes "\<And>n. length (malloc n) = n"
  shows "filo_push (filo_alloc malloc (2 ^ 32) (2 ^ 32)) e = None"
  using assms [of 0] by (simp add: filo_push_def filo_alloc_def filo_init_def memcpy_to_def
      buf_write_def)

text \<open>Peeking gives what popping gives, and leaves the stack alone.\<close>

lemma FILO_PEEK_pop:
  assumes "FILO_POP p = Some (rc, out, p')"
  shows "FILO_PEEK p = Some (rc, out, p)"
  using assms by (auto simp: FILO_POP_def FILO_PEEK_def filo_pop_def bind_eq_Some_conv split: if_splits)

end
