(* ===== verification/Crc32.thy ===== *)
theory Crc32
  imports Crc32Tables
begin

text \<open>
  \<open>compute_crc32\<close> of \<open>src/crc32.c\<close>: a byte-at-a-time loop for short buffers and Intel's
  slicing-by-8 loop, which folds eight bytes per round through eight tables, for the rest.
  A buffer is the list of its bytes; running past its end is \<open>None\<close>.  \<open>addr\<close> is the
  address of the buffer, whose low bits decide how many bytes precede the first round.
  \<open>be\<close> selects the branch of \<open>#if BYTE_ORDER == BIG_ENDIAN\<close>: the byte-by-byte one (\<open>True\<close>)
  or the one that loads little-endian words (\<open>False\<close>).  The reference is the bit-serial
  register \<open>crc_bit\<close>, fed with the bits of the message, least significant first.
\<close>

subsection \<open>Reference\<close>

definition crc_bit :: "u32 \<Rightarrow> u32 \<Rightarrow> bool \<Rightarrow> u32" where
  "crc_bit p crc b = (if odd crc \<noteq> b then drop_bit 1 crc XOR p else drop_bit 1 crc)"

definition byte_bits :: "u8 \<Rightarrow> bool list" where
  "byte_bits b = map (bit b) [0..<8]"

definition crc_reference :: "u32 \<Rightarrow> u32 \<Rightarrow> u8 list \<Rightarrow> u32" where
  "crc_reference p seed msg = foldl (crc_bit p) seed (concat (map byte_bits msg))"

text \<open>One byte: XOR it into the low bits, then eight steps.\<close>

definition crc_byte :: "u32 \<Rightarrow> u32 \<Rightarrow> u8 \<Rightarrow> u32" where
  "crc_byte p crc b = crc_steps p 8 (crc XOR ucast b)"

lemma crc_bit_step: "crc_bit p crc b = crc_step p (crc XOR of_bool b)"
proof -
  have "drop_bit 1 (crc XOR of_bool b) = drop_bit 1 crc"
    by (intro bit_word_eqI) (auto simp: bit_simps)
  then show ?thesis by (auto simp: crc_bit_def crc_step_def even_xor_iff)
qed

lemma bit_0xff [simp]: "bit (0xff :: int) n \<longleftrightarrow> n < 8"
proof -
  have "(0xff :: int) = mask 8" by (simp add: mask_eq_exp_minus_1)
  then show ?thesis by (simp only: bit_mask_iff) auto
qed

lemma bit_u8_less: "bit (b :: u8) n \<Longrightarrow> n < 8"
  using bit_imp_le_length by fastforce

lemma crc_steps_push:
  assumes "\<And>i. bit y i \<Longrightarrow> i < 32 - k"
  shows "crc_steps p k (push_bit k y) = y"
proof -
  have "take_bit k (push_bit k y) = 0"
    by (intro bit_word_eqI) (auto simp: bit_simps)
  then have "crc_steps p k (push_bit k y) = drop_bit k (push_bit k y)"
    by (rule crc_steps_shift)
  also have "\<dots> = y"
    by (intro bit_word_eqI) (auto simp: bit_simps, use assms in fastforce)
  finally show ?thesis .
qed

lemma crc_bits_steps:
  "n \<le> 32 \<Longrightarrow> foldl (crc_bit p) crc (map (bit x) [0..<n]) = crc_steps p n (crc XOR take_bit n x)"
proof (induction n)
  case 0
  then show ?case by simp
next
  case (Suc n)
  let ?top = "push_bit n (of_bool (bit x n)) :: u32"
  have top: "crc_steps p n ?top = of_bool (bit x n)"
    using Suc.prems by (intro crc_steps_push) (auto simp: bit_simps)
  have "crc_bit p (crc_steps p n y) (bit x n) = crc_steps p (n + 1) (y XOR ?top)" for y
    by (subst crc_steps_add) (simp add: crc_bit_step crc_steps_xor crc_step_xor top)
  moreover have "(crc XOR take_bit n x) XOR ?top = crc XOR take_bit (Suc n) x"
    using Suc.prems by (intro bit_word_eqI) (auto simp: bit_simps less_Suc_eq)
  ultimately show ?case using Suc by simp
qed

lemma crc_byte_bits: "foldl (crc_bit p) crc (byte_bits b) = crc_byte p crc b"
proof -
  have "byte_bits b = map (bit (ucast b :: u32)) [0..<8]"
    by (simp add: byte_bits_def bit_simps)
  moreover have "take_bit 8 (ucast b :: u32) = ucast b"
    by (intro bit_word_eqI) (auto simp: bit_simps dest: bit_u8_less)
  ultimately show ?thesis by (simp add: crc_bits_steps crc_byte_def)
qed

lemma crc_reference_bytes: "crc_reference p seed msg = foldl (crc_byte p) seed msg"
  unfolding crc_reference_def by (induction msg arbitrary: seed) (simp_all add: crc_byte_bits)

text \<open>The table-driven update of one byte, shared by all byte loops.\<close>

lemma crc_byte_table:
  "crc_table p 8 ! unat ((crc XOR ucast b) AND 0xff) XOR drop_bit 8 crc = crc_byte p crc b"
proof -
  let ?x = "crc XOR ucast b"
  have "?x = (?x AND 0xff) XOR push_bit 8 (drop_bit 8 crc)"
    by (intro bit_word_eqI) (auto simp: bit_simps dest: bit_u8_less)
  then have "crc_byte p crc b = crc_steps p 8 (?x AND 0xff) XOR crc_steps p 8 (push_bit 8 (drop_bit 8 crc))"
    unfolding crc_byte_def by (metis crc_steps_xor)
  moreover have "crc_steps p 8 (push_bit 8 (drop_bit 8 crc)) = drop_bit 8 crc"
    by (rule crc_steps_push) (auto simp: bit_simps dest: bit_imp_le_length)
  ultimately show ?thesis by (simp add: crc_table_lookup)
qed

subsection \<open>The code\<close>

text \<open>\<open>singletable_crc32c\<close>: \<open>while (size--)\<close> over the bytes at \<open>p\<close>.\<close>

fun singletable_crc32c :: "u32 \<Rightarrow> u8 list \<Rightarrow> nat \<Rightarrow> u32 option" where
  "singletable_crc32c crc p 0 = Some crc"
| "singletable_crc32c crc [] (Suc sz) = None"
| "singletable_crc32c crc (b # p) (Suc sz) =
     singletable_crc32c (crc32Table ! unat ((crc XOR ucast b) AND 0xff) XOR drop_bit 8 crc) p sz"

text \<open>The byte loops before and after the sliced part; they return the advanced pointer.\<close>

fun crc32c_sb8_bytes :: "u32 \<Rightarrow> u8 list \<Rightarrow> nat \<Rightarrow> (u32 \<times> u8 list) option" where
  "crc32c_sb8_bytes crc p 0 = Some (crc, p)"
| "crc32c_sb8_bytes crc [] (Suc n) = None"
| "crc32c_sb8_bytes crc (b # p) (Suc n) =
     crc32c_sb8_bytes
       (sctp_crc_tableil8_o32 ! unat ((crc XOR ucast b) AND 0x000000FF) XOR drop_bit 8 crc) p n"

text \<open>\<open>*(const uint32_t *) p\<close> on a little-endian machine.\<close>

fun load_le32 :: "u8 list \<Rightarrow> u32 option" where
  "load_le32 (b0 # b1 # b2 # b3 # _) =
     Some (ucast b0 OR push_bit 8 (ucast b1) OR push_bit 16 (ucast b2) OR push_bit 24 (ucast b3))"
| "load_le32 _ = None"

text \<open>One round of the sliced loop, in its two conditional versions.\<close>

fun crc32c_sb8_round :: "bool \<Rightarrow> u32 \<Rightarrow> u8 list \<Rightarrow> (u32 \<times> u8 list) option" where
  "crc32c_sb8_round True crc (b0 # b1 # b2 # b3 # b4 # b5 # b6 # b7 # p) =
     (let crc = crc XOR ucast b0;
          crc = crc XOR push_bit 8 (ucast b1);
          crc = crc XOR push_bit 16 (ucast b2);
          crc = crc XOR push_bit 24 (ucast b3);
          term1 = sctp_crc_tableil8_o88 ! unat (crc AND 0x000000FF) XOR
                  sctp_crc_tableil8_o80 ! unat (drop_bit 8 crc AND 0x000000FF);
          term2 = drop_bit 16 crc;
          crc = term1 XOR
                sctp_crc_tableil8_o72 ! unat (term2 AND 0x000000FF) XOR
                sctp_crc_tableil8_o64 ! unat (drop_bit 8 term2 AND 0x000000FF);
          crc = crc XOR sctp_crc_tableil8_o56 ! unat b4;
          crc = crc XOR sctp_crc_tableil8_o48 ! unat b5;
          crc = crc XOR sctp_crc_tableil8_o40 ! unat b6;
          crc = crc XOR sctp_crc_tableil8_o32 ! unat b7
      in Some (crc, p))"
| "crc32c_sb8_round True crc p = None"
| "crc32c_sb8_round False crc p =
     do {
       w \<leftarrow> load_le32 p;
       let crc = crc XOR w;
       let p = drop 4 p;
       let term1 = sctp_crc_tableil8_o88 ! unat (crc AND 0x000000FF) XOR
                   sctp_crc_tableil8_o80 ! unat (drop_bit 8 crc AND 0x000000FF);
       let term2 = drop_bit 16 crc;
       let crc = term1 XOR
                 sctp_crc_tableil8_o72 ! unat (term2 AND 0x000000FF) XOR
                 sctp_crc_tableil8_o64 ! unat (drop_bit 8 term2 AND 0x000000FF);
       w \<leftarrow> load_le32 p;
       let term1 = sctp_crc_tableil8_o56 ! unat (w AND 0x000000FF) XOR
                   sctp_crc_tableil8_o48 ! unat (drop_bit 8 w AND 0x000000FF);
       let term2 = drop_bit 16 w;
       let crc = crc XOR term1 XOR
                 sctp_crc_tableil8_o40 ! unat (term2 AND 0x000000FF) XOR
                 sctp_crc_tableil8_o32 ! unat (drop_bit 8 term2 AND 0x000000FF);
       Some (crc, drop 4 p)
     }"

fun crc32c_sb8_rounds :: "bool \<Rightarrow> u32 \<Rightarrow> u8 list \<Rightarrow> nat \<Rightarrow> (u32 \<times> u8 list) option" where
  "crc32c_sb8_rounds be crc p 0 = Some (crc, p)"
| "crc32c_sb8_rounds be crc p (Suc n) =
     do { (crc, p) \<leftarrow> crc32c_sb8_round be crc p; crc32c_sb8_rounds be crc p n }"

text \<open>The lengths are \<open>uint32_t\<close> and wrap.\<close>

definition crc32c_sb8_64_bit :: "bool \<Rightarrow> u32 \<Rightarrow> u8 list \<Rightarrow> u32 \<Rightarrow> u32 \<Rightarrow> u32 option" where
  "crc32c_sb8_64_bit be crc p_buf len init_bytes =
     (let running_length = ((len - init_bytes) div 8) * 8;
          end_bytes = len - init_bytes - running_length
      in do {
        (crc, p_buf) \<leftarrow> crc32c_sb8_bytes crc p_buf (unat init_bytes);
        (crc, p_buf) \<leftarrow> crc32c_sb8_rounds be crc p_buf (unat (running_length div 8));
        (crc, p_buf) \<leftarrow> crc32c_sb8_bytes crc p_buf (unat end_bytes);
        Some crc
      })"

definition multitable_crc32c :: "bool \<Rightarrow> nat \<Rightarrow> u32 \<Rightarrow> u8 list \<Rightarrow> u32 \<Rightarrow> u32 option" where
  "multitable_crc32c be addr crc32c buffer len =
     (if len = 0 then Some crc32c
      else let to_even_word = 4 - of_nat (addr AND 3)
           in crc32c_sb8_64_bit be crc32c buffer len to_even_word)"

text \<open>\<open>length\<close> is a \<open>size_t\<close>, passed on as \<open>unsigned int\<close>.\<close>

definition compute_crc32 :: "bool \<Rightarrow> nat \<Rightarrow> u32 \<Rightarrow> u8 list \<Rightarrow> nat \<Rightarrow> u32 option" where
  "compute_crc32 be addr seed buffer len =
     (if len < 4 then singletable_crc32c seed buffer len
      else multitable_crc32c be addr seed buffer (of_nat len))"

subsection \<open>Correctness\<close>

lemmas crc_tables_correct =
  crc32Table_correct sctp_crc_tableil8_o32_correct sctp_crc_tableil8_o40_correct
  sctp_crc_tableil8_o48_correct sctp_crc_tableil8_o56_correct sctp_crc_tableil8_o64_correct
  sctp_crc_tableil8_o72_correct sctp_crc_tableil8_o80_correct sctp_crc_tableil8_o88_correct

lemma singletable_correct:
  "n \<le> length p \<Longrightarrow>
     singletable_crc32c crc p n = Some (foldl (crc_byte poly_crc32c) crc (take n p))"
  by (induction crc p n rule: singletable_crc32c.induct)
    (auto simp: crc_tables_correct crc_byte_table)

lemma sb8_bytes_correct:
  "n \<le> length p \<Longrightarrow>
     crc32c_sb8_bytes crc p n = Some (foldl (crc_byte poly_crc32c) crc (take n p), drop n p)"
  by (induction crc p n rule: crc32c_sb8_bytes.induct)
    (auto simp: crc_tables_correct crc_byte_table)

text \<open>Entering a byte after \<open>n\<close> steps is entering it \<open>n\<close> bits higher before them.\<close>

lemma crc_byte_steps:
  assumes "n \<le> 24"
  shows "crc_byte p (crc_steps p n x) b = crc_steps p (n + 8) (x XOR push_bit n (ucast b))"
proof -
  have "crc_steps p n (push_bit n (ucast b)) = ucast b"
    using assms by (intro crc_steps_push) (auto simp: bit_simps dest: bit_u8_less)
  then show ?thesis
    by (simp only: crc_byte_def crc_steps_add crc_steps_xor)
qed

definition word_of_bytes :: "u8 \<Rightarrow> u8 \<Rightarrow> u8 \<Rightarrow> u8 \<Rightarrow> u32" where
  "word_of_bytes b0 b1 b2 b3 =
     ucast b0 XOR push_bit 8 (ucast b1) XOR push_bit 16 (ucast b2) XOR push_bit 24 (ucast b3)"

lemma four_bytes:
  "foldl (crc_byte p) crc [b0, b1, b2, b3] = crc_steps p 32 (crc XOR word_of_bytes b0 b1 b2 b3)"
  using crc_byte_steps [of 0 p crc b0] crc_byte_steps [of 8 p "crc XOR ucast b0" b1]
    crc_byte_steps [of 16 p "crc XOR ucast b0 XOR push_bit 8 (ucast b1)" b2]
    crc_byte_steps [of 24 p "crc XOR ucast b0 XOR push_bit 8 (ucast b1) XOR push_bit 16 (ucast b2)" b3]
  by (simp add: word_of_bytes_def xor.assoc del: crc_steps.simps(2))

lemma load_le32_word: "load_le32 (b0 # b1 # b2 # b3 # p) = Some (word_of_bytes b0 b1 b2 b3)"
  unfolding load_le32.simps word_of_bytes_def
  by (intro arg_cong [where f = Some] bit_word_eqI) (auto simp: bit_simps dest: bit_u8_less)

text \<open>Slicing: the bytes of a word can be advanced separately.\<close>

definition word_byte :: "nat \<Rightarrow> u32 \<Rightarrow> u32" where
  "word_byte i x = drop_bit (8 * i) x AND 0xff"

lemma bit_word_byte: "bit (word_byte i x) n \<longleftrightarrow> n < 8 \<and> bit x (8 * i + n)"
  unfolding word_byte_def by (auto simp: bit_simps)

lemma word_bytes_join:
  "x = word_byte 0 x XOR push_bit 8 (word_byte 1 x) XOR push_bit 16 (word_byte 2 x)
     XOR push_bit 24 (word_byte 3 x)"
proof (rule bit_word_eqI)
  fix n
  assume n: "n < LENGTH(32)"
  then consider "n < 8" | "8 \<le> n" "n < 16" | "16 \<le> n" "n < 24" | "24 \<le> n" "n < 32"
    by fastforce
  then show "bit x n = bit (word_byte 0 x XOR push_bit 8 (word_byte 1 x) XOR
      push_bit 16 (word_byte 2 x) XOR push_bit 24 (word_byte 3 x)) n"
    by cases (auto simp: bit_xor_iff bit_push_bit_iff bit_word_byte)
qed

lemma crc_steps_push_byte:
  assumes "k \<le> 24" and "k \<le> n"
  shows "crc_steps p n (push_bit k (word_byte i x)) = crc_steps p (n - k) (word_byte i x)"
proof -
  have "crc_steps p k (push_bit k (word_byte i x)) = word_byte i x"
    using assms(1) by (intro crc_steps_push) (auto simp: word_byte_def bit_simps)
  then show ?thesis using crc_steps_add [of p k "n - k"] assms(2) by simp
qed

lemma crc_steps_sliced:
  assumes "24 \<le> n"
  shows "crc_steps p n x = crc_steps p n (word_byte 0 x) XOR crc_steps p (n - 8) (word_byte 1 x)
    XOR crc_steps p (n - 16) (word_byte 2 x) XOR crc_steps p (n - 24) (word_byte 3 x)"
  using assms by (subst word_bytes_join) (simp add: crc_steps_xor crc_steps_push_byte)

lemma crc_table_word_byte: "crc_table p n ! unat (word_byte i x) = crc_steps p n (word_byte i x)"
  unfolding word_byte_def by (rule crc_table_lookup)

lemma crc_table_byte: "crc_table p n ! unat (b :: u8) = crc_steps p n (ucast b)"
proof -
  have "unat b < 256" using unsigned_less [of b, where 'a = nat] by simp
  then show ?thesis by (simp add: crc_table_nth)
qed

lemma word_byte_of_bytes:
  "word_byte 0 (word_of_bytes b0 b1 b2 b3) = ucast b0"
  "word_byte 1 (word_of_bytes b0 b1 b2 b3) = ucast b1"
  "word_byte 2 (word_of_bytes b0 b1 b2 b3) = ucast b2"
  "word_byte 3 (word_of_bytes b0 b1 b2 b3) = ucast b3"
  unfolding word_byte_def word_of_bytes_def
  by (intro bit_word_eqI; auto simp: bit_simps dest: bit_u8_less)+

text \<open>Both versions of a round are eight byte updates.\<close>

lemma sliced_eight:
  "foldl (crc_byte p) crc [b0, b1, b2, b3, b4, b5, b6, b7] =
     crc_steps p 64 (crc XOR word_of_bytes b0 b1 b2 b3) XOR
     crc_steps p 32 (word_of_bytes b4 b5 b6 b7)"
proof -
  have "foldl (crc_byte p) crc [b0, b1, b2, b3, b4, b5, b6, b7] =
      foldl (crc_byte p) (foldl (crc_byte p) crc [b0, b1, b2, b3]) [b4, b5, b6, b7]"
    by simp
  also have "\<dots> = crc_steps p 32 (crc_steps p 32 (crc XOR word_of_bytes b0 b1 b2 b3) XOR
      word_of_bytes b4 b5 b6 b7)"
    by (simp only: four_bytes)
  also have "\<dots> = crc_steps p (32 + 32) (crc XOR word_of_bytes b0 b1 b2 b3) XOR
      crc_steps p 32 (word_of_bytes b4 b5 b6 b7)"
    by (simp only: crc_steps_xor crc_steps_add)
  finally show ?thesis by simp
qed

lemma split_eight:
  assumes "8 \<le> length p"
  obtains b0 b1 b2 b3 b4 b5 b6 b7 q where "p = b0 # b1 # b2 # b3 # b4 # b5 # b6 # b7 # q"
  using assms by (auto simp: Suc_le_length_iff numeral_eq_Suc)

lemma sb8_round_correct:
  assumes "8 \<le> length p"
  shows "crc32c_sb8_round be crc p = Some (foldl (crc_byte poly_crc32c) crc (take 8 p), drop 8 p)"
proof -
  obtain b0 b1 b2 b3 b4 b5 b6 b7 q where p: "p = b0 # b1 # b2 # b3 # b4 # b5 # b6 # b7 # q"
    by (rule split_eight [OF assms])
  define x w where "x = crc XOR word_of_bytes b0 b1 b2 b3" and "w = word_of_bytes b4 b5 b6 b7"
  have x: "(((crc XOR ucast b0) XOR push_bit 8 (ucast b1)) XOR push_bit 16 (ucast b2))
      XOR push_bit 24 (ucast b3) = x"
    by (simp add: x_def word_of_bytes_def xor.assoc)
  have bytes: "y AND 0xff = word_byte 0 y" "drop_bit 8 y AND 0xff = word_byte 1 y"
    "drop_bit 16 y AND 0xff = word_byte 2 y" "drop_bit 8 (drop_bit 16 y) AND 0xff = word_byte 3 y"
    "word_byte 0 (drop_bit 8 y) = word_byte 1 y" "word_byte 0 (drop_bit 16 y) = word_byte 2 y"
    "word_byte 0 (drop_bit 24 y) = word_byte 3 y"
    for y by (simp_all add: word_byte_def)
  have spec: "foldl (crc_byte poly_crc32c) crc (take 8 p) =
      crc_steps poly_crc32c 64 x XOR crc_steps poly_crc32c 32 w"
    using sliced_eight [of poly_crc32c crc b0 b1 b2 b3 b4 b5 b6 b7]
    by (simp add: p x_def w_def del: foldl_Cons crc_steps.simps)
  have w32: "crc_steps poly_crc32c 32 w = crc_steps poly_crc32c 32 (ucast b4) XOR
      crc_steps poly_crc32c 24 (ucast b5) XOR crc_steps poly_crc32c 16 (ucast b6) XOR
      crc_steps poly_crc32c 8 (ucast b7)"
    by (subst crc_steps_sliced)
      (simp_all add: w_def word_byte_of_bytes [simplified] del: crc_steps.simps(2))
  have "crc32c_sb8_round be crc p =
      Some (crc_steps poly_crc32c 64 x XOR crc_steps poly_crc32c 32 w, q)"
  proof (cases be)
    case True
    have "crc32c_sb8_round True crc p =
      Some (crc_steps poly_crc32c 64 x XOR crc_steps poly_crc32c 32 w, q)"
      unfolding p crc32c_sb8_round.simps Let_def unfolding x
      by (simp add: bytes crc_tables_correct crc_table_word_byte crc_table_byte w32
          crc_steps_sliced [of 64 _ x] xor.assoc del: crc_steps.simps(2))
    with True show ?thesis by simp
  next
    case False
    have "crc32c_sb8_round False crc p =
      Some (crc_steps poly_crc32c 64 x XOR crc_steps poly_crc32c 32 w, q)"
      unfolding p crc32c_sb8_round.simps Let_def load_le32_word x_def [symmetric]
      unfolding bind.bind_lunit drop_Cons_numeral x_def [symmetric]
      by (simp add: bytes load_le32_word crc_tables_correct crc_table_word_byte
          w_def [symmetric] crc_steps_sliced [of 64 _ x]
          crc_steps_sliced [of 32 _ w] xor.assoc del: crc_steps.simps(2) load_le32.simps)
    with False show ?thesis by simp
  qed
  then show ?thesis using spec p by simp
qed

lemma foldl_take_drop:
  "foldl f (foldl f s (take m p)) (take n (drop m p)) = foldl f s (take (m + n) p)"
  by (simp add: take_add)

lemma sb8_rounds_correct:
  "8 * n \<le> length p \<Longrightarrow> crc32c_sb8_rounds be crc p n =
     Some (foldl (crc_byte poly_crc32c) crc (take (8 * n) p), drop (8 * n) p)"
proof (induction n arbitrary: crc p)
  case 0
  then show ?case by simp
next
  case (Suc n)
  then show ?case
    by (simp add: sb8_round_correct foldl_take_drop add.commute)
qed

text \<open>The three parts of the sliced loop cover the buffer exactly.\<close>

lemma sb8_64_bit_correct:
  assumes "unat len \<le> length p" and "init \<le> len"
  shows "crc32c_sb8_64_bit be crc p len init =
    Some (foldl (crc_byte poly_crc32c) crc (take (unat len) p))"
proof -
  define m where "m = unat (len - init)"
  have m: "unat init + m = unat len"
    using assms(2) by (simp add: m_def unat_sub word_le_nat_alt)
  have "8 * (m div 8) \<le> m" by simp
  then have "8 * (m div 8) < 2 ^ 32" using unsigned_less [of len, where 'a = nat] m by simp
  moreover have "unat ((len - init) div 8 * 8) = (8 * (m div 8)) mod 2 ^ 32"
    by (simp add: unat_word_ariths unat_div_distrib m_def mult.commute
        mod_mult_right_eq)
  ultimately have run: "unat ((len - init) div 8 * 8) = 8 * (m div 8)" by simp
  then have rounds: "unat ((len - init) div 8 * 8 div 8) = m div 8"
    by (simp add: unat_div_distrib)
  have "(len - init) div 8 * 8 \<le> len - init"
    unfolding word_le_nat_alt run m_def [symmetric] by simp
  then have tail: "unat (len - init - (len - init) div 8 * 8) = m - 8 * (m div 8)"
    by (simp add: unat_sub run m_def)
  have part: "unat init + 8 * (m div 8) + (m - 8 * (m div 8)) = unat len"
    using m by simp
  show ?thesis
    using m assms(1) part
    by (simp add: crc32c_sb8_64_bit_def Let_def rounds tail sb8_bytes_correct sb8_rounds_correct
        foldl_take_drop add.commute [of _ "unat init"])
qed

text \<open>
  C34.  For every buffer shorter than \<open>2 ^ 32\<close> bytes, at every alignment and with either
  endianness branch, \<open>compute_crc32\<close> reads only the buffer and returns the CRC-32C that
  the bit-serial shift register computes for the bytes, from the given seed.
\<close>

theorem compute_crc32_is_crc32c:
  assumes "len \<le> length buffer" and "len < 2 ^ 32"
  shows "compute_crc32 be addr seed buffer len =
    Some (crc_reference poly_crc32c seed (take len buffer))"
proof (cases "len < 4")
  case True
  with assms show ?thesis
    by (simp add: compute_crc32_def singletable_correct crc_reference_bytes)
next
  case False
  let ?len = "of_nat len :: u32" and ?init = "4 - of_nat (addr AND 3) :: u32"
  have len: "unat ?len = len" using assms(2) by (simp add: unat_of_nat)
  have "addr AND 3 = take_bit 2 addr" by (simp add: take_bit_eq_mask mask_eq_exp_minus_1)
  then have "addr AND 3 \<le> 3" using take_bit_nat_less_exp [of 2 addr] by simp
  then have "unat (of_nat (addr AND 3) :: u32) \<le> 3" by (simp add: unat_of_nat)
  then have "unat ?init \<le> 4"
    by (simp add: unat_sub word_le_nat_alt)
  then have "?init \<le> ?len" using False len by (simp add: word_le_nat_alt)
  moreover have "?len \<noteq> 0" using False len by auto
  ultimately show ?thesis
    using False assms len
    by (simp add: compute_crc32_def multitable_crc32c_def Let_def sb8_64_bit_correct
        crc_reference_bytes)
qed

lemma compute_crc32_is_crc32c_witness:
  "compute_crc32 False 1 0 (map of_nat [0..<20]) 20 =
     Some (crc_reference poly_crc32c 0 (take 20 (map of_nat [0..<20])))"
  by (rule compute_crc32_is_crc32c) simp_all

text \<open>A length that does not fit an \<open>unsigned int\<close> is silently truncated: asked for the
  checksum of \<open>2 ^ 32\<close> bytes, \<open>compute_crc32\<close> reads none of them and returns the seed.
\<close>

theorem compute_crc32_truncates: "compute_crc32 be addr seed buffer (2 ^ 32) = Some seed"
  by (simp add: compute_crc32_def multitable_crc32c_def)

end
