(* ===== verification/WordMaps.thy ===== *)
theory WordMaps
  imports CPrelude
begin

text \<open>
  Functions on machine words that are linear over XOR: CRC updates, byte swaps and bit
  reversals.  Such a function is determined by its values at the powers of two, so an
  equality of two of them, or the statement that one permutes bits, is a finite check.
\<close>

definition xor_linear :: "('a::len word \<Rightarrow> 'b::len word) \<Rightarrow> bool" where
  "xor_linear f \<longleftrightarrow> (\<forall>x y. f (x XOR y) = f x XOR f y)"

lemma xor_linearD: "xor_linear f \<Longrightarrow> f (x XOR y) = f x XOR f y"
  by (simp add: xor_linear_def)

lemma xor_linear_zero: "xor_linear f \<Longrightarrow> f 0 = 0"
  using xor_linearD [of f 0 0] by simp

lemma push_bit_xor_word: "push_bit n (x XOR y) = push_bit n x XOR push_bit n (y :: 'a::len word)"
  by (intro bit_word_eqI) (auto simp: bit_simps)

lemma drop_bit_xor_word: "drop_bit n (x XOR y) = drop_bit n x XOR drop_bit n (y :: 'a::len word)"
  by (intro bit_word_eqI) (auto simp: bit_simps)

lemma and_xor_word: "(x XOR y) AND z = (x AND z) XOR (y AND (z :: 'a::len word))"
  by (intro bit_word_eqI) (auto simp: bit_simps)

named_theorems linear_intros \<open>functions that are linear over XOR\<close>

lemma linear_id [linear_intros]: "xor_linear (\<lambda>x. x)"
  by (simp add: xor_linear_def)

lemma linear_xor [linear_intros]:
  "xor_linear f \<Longrightarrow> xor_linear g \<Longrightarrow> xor_linear (\<lambda>x. f x XOR g x)"
  by (simp add: xor_linear_def ac_simps)

lemma linear_push [linear_intros]: "xor_linear f \<Longrightarrow> xor_linear (\<lambda>x. push_bit n (f x))"
  by (simp add: xor_linear_def push_bit_xor_word)

lemma linear_drop [linear_intros]: "xor_linear f \<Longrightarrow> xor_linear (\<lambda>x. drop_bit n (f x))"
  by (simp add: xor_linear_def drop_bit_xor_word)

lemma linear_and [linear_intros]: "xor_linear f \<Longrightarrow> xor_linear (\<lambda>x. f x AND c)"
  by (simp add: xor_linear_def and_xor_word)

lemma linear_ucast [linear_intros]: "xor_linear f \<Longrightarrow> xor_linear (\<lambda>x. ucast (f x))"
  unfolding xor_linear_def by (intro allI bit_word_eqI) (auto simp: bit_simps)

lemma linear_compose: "xor_linear f \<Longrightarrow> xor_linear g \<Longrightarrow> xor_linear (\<lambda>x. f (g x))"
  by (simp add: xor_linear_def)

text \<open>An OR of parts that share no bit is their XOR: \<open>bits_in u a\<close> bounds the bits of \<open>u\<close>.\<close>

definition bits_in :: "'a::len word \<Rightarrow> 'a word \<Rightarrow> bool" where
  "bits_in u a \<longleftrightarrow> (\<forall>n. bit u n \<longrightarrow> bit a n)"

lemma bits_in_and [linear_intros]: "bits_in (x AND a) a"
  by (simp add: bits_in_def bit_and_iff)

lemma bits_in_drop [linear_intros]: "bits_in u a \<Longrightarrow> bits_in (drop_bit k u) (drop_bit k a)"
  by (auto simp: bits_in_def bit_drop_bit_eq)

lemma bits_in_push [linear_intros]: "bits_in u a \<Longrightarrow> bits_in (push_bit k u) (push_bit k a)"
  by (auto simp: bits_in_def bit_push_bit_iff)

lemma bits_in_or [linear_intros]: "bits_in u a \<Longrightarrow> bits_in v b \<Longrightarrow> bits_in (u OR v) (a OR b)"
  by (auto simp: bits_in_def bit_or_iff)

lemma bits_in_drop_all: "bits_in (drop_bit k u) (mask (LENGTH('a) - k))" for u :: "'a::len word"
  by (auto simp: bits_in_def bit_drop_bit_eq bit_mask_iff dest: bit_imp_le_length)

lemma bits_in_push_all: "bits_in (push_bit k u) (NOT (mask k))" for u :: "'a::len word"
  by (auto simp: bits_in_def bit_simps)

lemma or_xor_disjoint: "(\<And>n. \<not> (bit x n \<and> bit y n)) \<Longrightarrow> x OR y = x XOR (y :: 'a::len word)"
  by (intro bit_word_eqI) (auto simp: bit_simps)

lemma bits_in_disjoint: "bits_in u a \<Longrightarrow> bits_in v b \<Longrightarrow> a AND b = 0 \<Longrightarrow> u OR v = u XOR v"
  by (rule or_xor_disjoint) (metis bits_in_def bit_and_iff bit_0_eq bot_apply bot_bool_def)

lemma linear_or:
  assumes "xor_linear f" and "xor_linear g" and "\<And>x. bits_in (f x) a" and "\<And>x. bits_in (g x) b"
    and "a AND b = 0"
  shows "xor_linear (\<lambda>x. f x OR g x)"
  using linear_xor [OF assms(1,2)] bits_in_disjoint [OF assms(3,4,5)] by simp

lemma linear_swap:
  fixes f :: "'a::len word \<Rightarrow> 'b::len word"
  assumes "xor_linear f" and "k + l = LENGTH('b)"
  shows "xor_linear (\<lambda>x. drop_bit k (f x) OR push_bit l (f x))"
proof (rule linear_or [OF _ _ bits_in_drop_all bits_in_push_all])
  have "LENGTH('b) - k = l" using assms(2) by simp
  then show "mask (LENGTH('b) - k) AND NOT (mask l) = (0 :: 'b word)" by simp
qed (rule linear_intros assms(1))+

lemma take_bit_Suc_xor:
  "take_bit (Suc n) (x :: 'a::len word) = take_bit n x XOR (if bit x n then push_bit n 1 else 0)"
  by (intro bit_word_eqI) (auto simp: bit_simps less_Suc_eq)

lemma take_bit_length [simp]: "take_bit LENGTH('a) (x :: 'a::len word) = x"
  by (intro bit_word_eqI) (simp add: bit_take_bit_iff)

lemma xor_linear_eqI:
  fixes f g :: "'a::len word \<Rightarrow> 'b::len word"
  assumes "xor_linear f" and "xor_linear g"
    and basis: "\<And>j. j < LENGTH('a) \<Longrightarrow> f (2 ^ j) = g (2 ^ j)"
  shows "f x = g x"
proof -
  have "n \<le> LENGTH('a) \<Longrightarrow> f (take_bit n x) = g (take_bit n x)" for n
  proof (induction n)
    case 0
    then show ?case by (simp add: assms(1,2) xor_linear_zero)
  next
    case (Suc n)
    then show ?case
      using basis [of n] assms(1,2)
      by (simp add: take_bit_Suc_xor xor_linearD xor_linear_zero push_bit_of_1)
  qed
  from this [of "LENGTH('a)"] show ?thesis by simp
qed

lemma all_less_numeral: "(\<forall>j < (numeral n :: nat). P j) \<longleftrightarrow> (\<forall>j \<in> set [0..<numeral n]. P j)"
  by auto

text \<open>
  A bit permutation on the low \<open>m\<close> bits, an involution \<open>\<pi>\<close> on positions; higher bits are
  dropped.  The provider checks the \<open>m\<close> powers of two; the client gets the value of every
  bit and that applying the map twice is the identity on \<open>m\<close>-bit values.
\<close>

locale bit_permutation =
  fixes f :: "'a::len word \<Rightarrow> 'a word" and m :: nat and \<pi> :: "nat \<Rightarrow> nat"
  assumes linear: "xor_linear f"
    and width: "m \<le> LENGTH('a)"
    and moves: "j < m \<Longrightarrow> f (2 ^ j) = 2 ^ \<pi> j"
    and drops: "m \<le> j \<Longrightarrow> j < LENGTH('a) \<Longrightarrow> f (2 ^ j) = 0"
    and range: "j < m \<Longrightarrow> \<pi> j < m"
    and involution: "j < m \<Longrightarrow> \<pi> (\<pi> j) = j"
begin

lemma bit_take:
  "n \<le> LENGTH('a) \<Longrightarrow> i < LENGTH('a) \<Longrightarrow>
     bit (f (take_bit n x)) i \<longleftrightarrow> i < m \<and> \<pi> i < n \<and> bit x (\<pi> i)"
proof (induction n)
  case 0
  then show ?case by (simp add: linear xor_linear_zero)
next
  case (Suc n)
  have eq: "f (take_bit (Suc n) x) = f (take_bit n x) XOR (if bit x n then f (2 ^ n) else 0)"
    by (simp add: take_bit_Suc_xor linear xor_linearD xor_linear_zero push_bit_of_1)
  have hit: "bit (f (2 ^ n)) i \<longleftrightarrow> i < m \<and> \<pi> i = n"
  proof (cases "n < m")
    case True
    then have "bit (f (2 ^ n)) i \<longleftrightarrow> i = \<pi> n"
      using Suc.prems(2) by (auto simp: moves bit_exp_iff)
    also have "\<dots> \<longleftrightarrow> i < m \<and> \<pi> i = n"
      using True involution range by auto
    finally show ?thesis .
  next
    case False
    with Suc.prems show ?thesis using range by (auto simp: drops)
  qed
  show ?case
    using Suc by (auto simp: eq bit_xor_iff hit less_Suc_eq)
qed

lemma bit_value: "bit (f x) i \<longleftrightarrow> i < m \<and> bit x (\<pi> i)"
proof (cases "i < LENGTH('a)")
  case True
  with bit_take [of "LENGTH('a)" i x] range [of i] width show ?thesis
    by (auto dest: bit_imp_le_length)
next
  case False
  with width show ?thesis by (auto dest: bit_imp_le_length)
qed

lemma twice: "f (f x) = take_bit m x"
  by (intro bit_word_eqI) (auto simp: bit_value bit_take_bit_iff involution range)

lemma injective_on_range:
  assumes "f x = f y" and "take_bit m x = x" and "take_bit m y = y"
  shows "x = y"
  using assms twice by metis

end

end
