(* ===== verification/Crc16.thy ===== *)
theory Crc16
  imports WordMaps
begin

text \<open>
  \<open>crc16_itu_t\<close> of \<open>src/crc16.c\<close>: a branch-free byte update.  The reference \<open>crc16_bit\<close> is
  the shift register of the ITU-T polynomial \<open>x^16 + x^12 + x^5 + 1\<close>, most significant bit
  first.  Arithmetic on \<open>uint16_t\<close> promotes to \<open>int\<close> and is cut back to 16 bits at each
  assignment, which on the operations used is the 16-bit word operation.
\<close>

definition crc16_bit :: "u16 \<Rightarrow> bool \<Rightarrow> u16" where
  "crc16_bit crc b = (if bit crc 15 \<noteq> b then push_bit 1 crc XOR 0x1021 else push_bit 1 crc)"

definition byte_bits_msb :: "u8 \<Rightarrow> bool list" where
  "byte_bits_msb b = map (bit b) (rev [0..<8])"

definition crc16_reference :: "u16 \<Rightarrow> u8 list \<Rightarrow> u16" where
  "crc16_reference seed msg = foldl crc16_bit seed (concat (map byte_bits_msb msg))"

text \<open>The loop body.\<close>

definition crc16_update :: "u16 \<Rightarrow> u8 \<Rightarrow> u16" where
  "crc16_update seed b =
     (let seed = drop_bit 8 seed OR push_bit 8 seed;
          seed = seed XOR ucast b;
          seed = seed XOR drop_bit 4 (seed AND 0xff);
          seed = seed XOR push_bit 12 seed;
          seed = seed XOR push_bit 5 (seed AND 0xff)
      in seed)"

fun crc16_itu_t :: "u16 \<Rightarrow> u8 list \<Rightarrow> nat \<Rightarrow> u16 option" where
  "crc16_itu_t seed src 0 = Some seed"
| "crc16_itu_t seed [] (Suc len) = None"
| "crc16_itu_t seed (b # src) (Suc len) = crc16_itu_t (crc16_update seed b) src len"

text \<open>Both updates are linear functions of the register with the byte in its high half.\<close>

definition crc16_step :: "u16 \<Rightarrow> u16" where
  "crc16_step x = (if bit x 15 then push_bit 1 x XOR 0x1021 else push_bit 1 x)"

definition crc16_fold :: "u16 \<Rightarrow> u16" where
  "crc16_fold x =
     (let s = drop_bit 8 x XOR push_bit 8 x;
          s = s XOR drop_bit 4 (s AND 0xff);
          s = s XOR push_bit 12 s
      in s XOR push_bit 5 (s AND 0xff))"

lemma crc16_step_xor: "crc16_step (x XOR y) = crc16_step x XOR crc16_step y"
  by (auto simp: crc16_step_def bit_xor_iff push_bit_xor_word ac_simps)

lemma crc16_steps_xor: "(crc16_step ^^ n) (x XOR y) = (crc16_step ^^ n) x XOR (crc16_step ^^ n) y"
  by (induction n) (auto simp: crc16_step_xor)

lemma crc16_fold_linear: "xor_linear crc16_fold"
  unfolding crc16_fold_def [abs_def] Let_def by (intro linear_intros)

lemma crc16_steps_linear: "xor_linear (crc16_step ^^ n)"
  by (simp add: xor_linear_def crc16_steps_xor)

lemma crc16_steps_fold: "(crc16_step ^^ 8) x = crc16_fold x"
proof (rule xor_linear_eqI [OF crc16_steps_linear crc16_fold_linear])
  fix j
  have step8: "(crc16_step ^^ 8) y = crc16_step (crc16_step (crc16_step (crc16_step (crc16_step
      (crc16_step (crc16_step (crc16_step y)))))))" for y
    by (simp add: numeral_eq_Suc)
  have "\<forall>j < 16. (crc16_step ^^ 8) (2 ^ j) = crc16_fold (2 ^ j)"
    unfolding all_less_numeral step8
    by (simp add: upt_rec crc16_step_def crc16_fold_def)
  moreover assume "j < LENGTH(16)"
  ultimately show "(crc16_step ^^ 8) (2 ^ j) = crc16_fold (2 ^ j)" by simp
qed

lemma crc16_update_fold: "crc16_update seed b = crc16_fold (seed XOR push_bit 8 (ucast b))"
proof -
  have swap: "drop_bit 8 seed OR push_bit 8 seed = drop_bit 8 seed XOR push_bit 8 seed"
    by (rule or_xor_disjoint) (auto simp: bit_simps dest: bit_imp_le_length)
  have in_high: "(drop_bit 8 seed XOR push_bit 8 seed) XOR ucast b =
      drop_bit 8 (seed XOR push_bit 8 (ucast b)) XOR push_bit 8 (seed XOR push_bit 8 (ucast b))"
    by (intro bit_word_eqI) (auto simp: bit_simps dest: bit_imp_le_length)
  show ?thesis unfolding crc16_update_def crc16_fold_def Let_def swap in_high ..
qed

text \<open>Feeding the bits of a byte, most significant first, is eight steps on the high half.\<close>

lemma crc16_bit_step: "crc16_bit crc b = crc16_step (crc XOR push_bit 15 (of_bool b))"
proof -
  have "push_bit 1 (crc XOR push_bit 15 (of_bool b)) = push_bit 1 crc"
    by (intro bit_word_eqI) (auto simp: bit_simps)
  then show ?thesis by (auto simp: crc16_bit_def crc16_step_def bit_simps)
qed

lemma crc16_steps_shift:
  "k + n \<le> 15 \<Longrightarrow> (crc16_step ^^ n) (push_bit k (of_bool b)) = push_bit (k + n) (of_bool b)"
proof (induction n)
  case 0
  then show ?case by simp
next
  case (Suc n)
  then have "\<not> bit (push_bit (k + n) (of_bool b) :: u16) 15"
    by (auto simp: bit_simps)
  with Suc show ?case by (simp add: crc16_step_def)
qed

lemma crc16_bits_steps:
  "n \<le> 16 \<Longrightarrow> foldl crc16_bit crc (map (\<lambda>i. bit x (15 - i)) [0..<n]) =
     (crc16_step ^^ n) (crc XOR push_bit (16 - n) (drop_bit (16 - n) x))"
proof (induction n)
  case 0
  have "push_bit 16 (drop_bit 16 x) = 0" by (intro bit_word_eqI) (simp add: bit_simps)
  then show ?case by simp
next
  case (Suc n)
  let ?b = "push_bit (15 - n) (of_bool (bit x (15 - n))) :: u16"
  have "(crc16_step ^^ n) ?b = push_bit 15 (of_bool (bit x (15 - n)))"
    using Suc.prems crc16_steps_shift [of "15 - n" n] by simp
  then have "crc16_bit ((crc16_step ^^ n) y) (bit x (15 - n)) = (crc16_step ^^ Suc n) (y XOR ?b)" for y
    by (simp add: crc16_bit_step crc16_steps_xor)
  moreover have "(crc XOR push_bit (16 - n) (drop_bit (16 - n) x)) XOR ?b =
      crc XOR push_bit (16 - Suc n) (drop_bit (16 - Suc n) x)"
  proof (rule bit_word_eqI)
    fix i
    assume "i < LENGTH(16)"
    then show "bit ((crc XOR push_bit (16 - n) (drop_bit (16 - n) x)) XOR ?b) i =
        bit (crc XOR push_bit (16 - Suc n) (drop_bit (16 - Suc n) x)) i"
      using Suc.prems by (cases "i = 15 - n") (auto simp: bit_simps)
  qed
  ultimately show ?case using Suc by simp
qed

lemma crc16_byte: "foldl crc16_bit seed (byte_bits_msb b) = crc16_update seed b"
proof -
  let ?x = "push_bit 8 (ucast b) :: u16"
  have "rev [0..<8] = map (\<lambda>i. 7 - i) [0..<8]" by (simp add: upt_rec)
  then have "byte_bits_msb b = map (\<lambda>i. bit b (7 - i)) [0..<8]"
    by (simp add: byte_bits_msb_def comp_def)
  also have "\<dots> = map (\<lambda>i. bit ?x (15 - i)) [0..<8]"
    by (intro map_cong refl) (auto simp: bit_push_bit_iff bit_unsigned_iff)
  finally have "byte_bits_msb b = map (\<lambda>i. bit ?x (15 - i)) [0..<8]" .
  moreover have "push_bit 8 (drop_bit 8 ?x) = ?x"
    by (intro bit_word_eqI) (auto simp: bit_simps)
  ultimately have "foldl crc16_bit seed (byte_bits_msb b) = (crc16_step ^^ 8) (seed XOR ?x)"
    using crc16_bits_steps [of 8 seed ?x] by simp
  then show ?thesis by (simp add: crc16_steps_fold crc16_update_fold)
qed

text \<open>
  C37.  \<open>crc16_itu_t\<close> reads only its input and returns the CRC-16 of the ITU-T polynomial,
  most significant bit first: the branch-free byte update equals eight steps of the shift
  register, for every seed and every message.
\<close>

theorem crc16_itu_t_is_reference:
  "len \<le> length src \<Longrightarrow> crc16_itu_t seed src len = Some (crc16_reference seed (take len src))"
  by (induction seed src len rule: crc16_itu_t.induct) (auto simp: crc16_reference_def crc16_byte)

theorem crc16_itu_t_is_reference_witness:
  "crc16_itu_t 0 [0x31, 0x32, 0x33] 3 = Some (crc16_reference 0 (take 3 [0x31, 0x32, 0x33]))"
  by (rule crc16_itu_t_is_reference) simp

end
