(* ===== verification/BitUtils.thy ===== *)
theory BitUtils
  imports WordMaps
begin

text \<open>
  The bit macros and reversals of \<open>include/utils/utils.h\<close> and the byte swaps of
  \<open>include/utils/byteorder.h\<close>.  Reversals and swaps are instances of the locale
  \<open>bit_permutation\<close>, which gives the value of every bit of the result and the inverse.
\<close>

subsection \<open>Macros of utils.h on 64-bit operands\<close>

definition BIT :: "nat \<Rightarrow> u64" where
  "BIT n = push_bit n 1"

definition MASK :: "nat \<Rightarrow> u64" where
  "MASK n = BIT (n + 1) - 1"

definition BIT_IS_SET :: "u64 \<Rightarrow> nat \<Rightarrow> bool" where
  "BIT_IS_SET m n \<longleftrightarrow> m AND BIT n \<noteq> 0"

definition BIT_SET :: "u64 \<Rightarrow> nat \<Rightarrow> u64" where
  "BIT_SET m n = m OR BIT n"

definition BIT_CLEAR :: "u64 \<Rightarrow> nat \<Rightarrow> u64" where
  "BIT_CLEAR m n = m AND NOT (BIT n)"

definition BIT_FLIP :: "u64 \<Rightarrow> nat \<Rightarrow> u64" where
  "BIT_FLIP m n = m XOR BIT n"

text \<open>A statement expression: its value, and the operand afterwards.\<close>

definition BIT_TEST_SET :: "u64 \<Rightarrow> nat \<Rightarrow> bool \<times> u64" where
  "BIT_TEST_SET m n = (if BIT_IS_SET m n then (False, m) else (BIT_SET m n \<noteq> 0, BIT_SET m n))"

subsection \<open>Bit reversal\<close>

definition u8_bit_reverse :: "u8 \<Rightarrow> u8" where
  "u8_bit_reverse b =
     (let b = drop_bit 1 (b AND 0xaa) OR push_bit 1 (b AND 0x55);
          b = drop_bit 2 (b AND 0xcc) OR push_bit 2 (b AND 0x33)
      in drop_bit 4 b OR push_bit 4 b)"

definition u16_bit_reverse :: "u16 \<Rightarrow> u16" where
  "u16_bit_reverse x =
     (let x = drop_bit 1 (x AND 0xaaaa) OR push_bit 1 (x AND 0x5555);
          x = drop_bit 2 (x AND 0xcccc) OR push_bit 2 (x AND 0x3333);
          x = drop_bit 4 (x AND 0xf0f0) OR push_bit 4 (x AND 0x0f0f)
      in drop_bit 8 x OR push_bit 8 x)"

definition u32_bit_reverse :: "u32 \<Rightarrow> u32" where
  "u32_bit_reverse x =
     (let x = drop_bit 1 (x AND 0xaaaaaaaa) OR push_bit 1 (x AND 0x55555555);
          x = drop_bit 2 (x AND 0xcccccccc) OR push_bit 2 (x AND 0x33333333);
          x = drop_bit 4 (x AND 0xf0f0f0f0) OR push_bit 4 (x AND 0x0f0f0f0f);
          x = drop_bit 8 (x AND 0xff00ff00) OR push_bit 8 (x AND 0x00ff00ff)
      in drop_bit 16 x OR push_bit 16 x)"

subsection \<open>Byte swaps of byteorder.h\<close>

definition bswap_16 :: "u16 \<Rightarrow> u16" where
  "bswap_16 x = (drop_bit 8 x AND 0xff) OR push_bit 8 (x AND 0xff)"

definition bswap_24 :: "u32 \<Rightarrow> u32" where
  "bswap_24 x = (drop_bit 16 x AND 0xff) OR (x AND 0xff00) OR push_bit 16 (x AND 0xff)"

definition bswap_32 :: "u32 \<Rightarrow> u32" where
  "bswap_32 x = (drop_bit 24 x AND 0xff) OR (drop_bit 8 x AND 0xff00) OR
     push_bit 8 (x AND 0xff00) OR push_bit 24 (x AND 0xff)"

definition bswap_48 :: "u64 \<Rightarrow> u64" where
  "bswap_48 x = (drop_bit 40 x AND 0xff) OR (drop_bit 24 x AND 0xff00) OR
     (drop_bit 8 x AND 0xff0000) OR push_bit 8 (x AND 0xff0000) OR
     push_bit 24 (x AND 0xff00) OR push_bit 40 (x AND 0xff)"

definition bswap_64 :: "u64 \<Rightarrow> u64" where
  "bswap_64 x = (drop_bit 56 x AND 0xff) OR (drop_bit 40 x AND 0xff00) OR
     (drop_bit 24 x AND 0xff0000) OR (drop_bit 8 x AND 0xff000000) OR
     push_bit 8 (x AND 0xff000000) OR push_bit 24 (x AND 0xff0000) OR
     push_bit 40 (x AND 0xff00) OR push_bit 56 (x AND 0xff)"

subsection \<open>Linearity\<close>

text \<open>One stage of a reversal: two masked halves exchanged by \<open>k\<close> positions.\<close>

lemma linear_stage:
  "xor_linear f \<Longrightarrow> drop_bit k a AND push_bit k b = 0 \<Longrightarrow>
     xor_linear (\<lambda>x. drop_bit k (f x AND a) OR push_bit k (f x AND b))"
  by (rule linear_or) (rule linear_intros | assumption)+

lemma u8_bit_reverse_linear: "xor_linear u8_bit_reverse"
  unfolding u8_bit_reverse_def [abs_def] Let_def
  by (rule linear_stage linear_swap linear_id | (simp; fail))+

lemma u16_bit_reverse_linear: "xor_linear u16_bit_reverse"
  unfolding u16_bit_reverse_def [abs_def] Let_def
  by (rule linear_stage linear_swap linear_id | (simp; fail))+

lemma u32_bit_reverse_linear: "xor_linear u32_bit_reverse"
  unfolding u32_bit_reverse_def [abs_def] Let_def
  by (rule linear_stage linear_swap linear_id | (simp; fail))+

lemma bswap_linear:
  "xor_linear bswap_16" "xor_linear bswap_24" "xor_linear bswap_32" "xor_linear bswap_48"
  "xor_linear bswap_64"
  unfolding bswap_16_def [abs_def] bswap_24_def [abs_def] bswap_32_def [abs_def]
    bswap_48_def [abs_def] bswap_64_def [abs_def]
  by (rule linear_or linear_intros | (simp; fail))+

subsection \<open>The permutations\<close>

interpretation rev8: bit_permutation u8_bit_reverse 8 "\<lambda>j. 7 - j"
proof
  have "\<forall>j < 8. u8_bit_reverse (2 ^ j) = 2 ^ (7 - j)"
    unfolding all_less_numeral by (simp add: upt_rec u8_bit_reverse_def)
  then show "j < 8 \<Longrightarrow> u8_bit_reverse (2 ^ j) = 2 ^ (7 - j)" for j by blast
qed (auto intro: u8_bit_reverse_linear)

interpretation rev16: bit_permutation u16_bit_reverse 16 "\<lambda>j. 15 - j"
proof
  have "\<forall>j < 16. u16_bit_reverse (2 ^ j) = 2 ^ (15 - j)"
    unfolding all_less_numeral by (simp add: upt_rec u16_bit_reverse_def)
  then show "j < 16 \<Longrightarrow> u16_bit_reverse (2 ^ j) = 2 ^ (15 - j)" for j by blast
qed (auto intro: u16_bit_reverse_linear)

interpretation rev32: bit_permutation u32_bit_reverse 32 "\<lambda>j. 31 - j"
proof
  have "\<forall>j < 32. u32_bit_reverse (2 ^ j) = 2 ^ (31 - j)"
    unfolding all_less_numeral by (simp add: upt_rec u32_bit_reverse_def)
  then show "j < 32 \<Longrightarrow> u32_bit_reverse (2 ^ j) = 2 ^ (31 - j)" for j by blast
qed (auto intro: u32_bit_reverse_linear)

text \<open>A byte swap of \<open>n\<close> bytes sends bit \<open>j\<close> to the same place in the mirrored byte.\<close>

definition byte_mirror :: "nat \<Rightarrow> nat \<Rightarrow> nat" where
  "byte_mirror n j = 8 * (n - 1 - j div 8) + j mod 8"

lemma byte_mirror_range: "j < 8 * n \<Longrightarrow> byte_mirror n j < 8 * n"
proof -
  assume "j < 8 * n"
  then have "j div 8 < n" by (simp add: less_mult_imp_div_less mult.commute)
  then have "8 * (n - 1 - j div 8) + 8 \<le> 8 * n" by simp
  moreover have "j mod 8 < 8" by simp
  ultimately show ?thesis unfolding byte_mirror_def by linarith
qed

lemma byte_mirror_twice: "j < 8 * n \<Longrightarrow> byte_mirror n (byte_mirror n j) = j"
proof -
  assume "j < 8 * n"
  then have "j div 8 < n" by (simp add: less_mult_imp_div_less mult.commute)
  then show ?thesis by (simp add: byte_mirror_def)
qed

interpretation swap16: bit_permutation bswap_16 16 "byte_mirror 2"
proof
  have "\<forall>j < 16. bswap_16 (2 ^ j) = 2 ^ byte_mirror 2 j"
    unfolding all_less_numeral by (simp add: upt_rec bswap_16_def byte_mirror_def)
  then show "j < 16 \<Longrightarrow> bswap_16 (2 ^ j) = 2 ^ byte_mirror 2 j" for j by blast
qed (auto intro: bswap_linear simp: byte_mirror_range [of _ 2, simplified] byte_mirror_twice [of _ 2, simplified])

interpretation swap24: bit_permutation bswap_24 24 "byte_mirror 3"
proof
  have "\<forall>j < 24. bswap_24 (2 ^ j) = 2 ^ byte_mirror 3 j"
    unfolding all_less_numeral by (simp add: upt_rec bswap_24_def byte_mirror_def)
  then show "j < 24 \<Longrightarrow> bswap_24 (2 ^ j) = 2 ^ byte_mirror 3 j" for j by blast
  have "\<forall>j < 32. 24 \<le> j \<longrightarrow> bswap_24 (2 ^ j) = 0"
    unfolding all_less_numeral by (simp add: upt_rec bswap_24_def)
  then show "24 \<le> j \<Longrightarrow> j < LENGTH(32) \<Longrightarrow> bswap_24 (2 ^ j) = 0" for j by simp
qed (auto intro: bswap_linear simp: byte_mirror_range [of _ 3, simplified] byte_mirror_twice [of _ 3, simplified])

interpretation swap32: bit_permutation bswap_32 32 "byte_mirror 4"
proof
  have "\<forall>j < 32. bswap_32 (2 ^ j) = 2 ^ byte_mirror 4 j"
    unfolding all_less_numeral by (simp add: upt_rec bswap_32_def byte_mirror_def)
  then show "j < 32 \<Longrightarrow> bswap_32 (2 ^ j) = 2 ^ byte_mirror 4 j" for j by blast
qed (auto intro: bswap_linear simp: byte_mirror_range [of _ 4, simplified] byte_mirror_twice [of _ 4, simplified])

interpretation swap48: bit_permutation bswap_48 48 "byte_mirror 6"
proof
  have "\<forall>j < 48. bswap_48 (2 ^ j) = 2 ^ byte_mirror 6 j"
    unfolding all_less_numeral by (simp add: upt_rec bswap_48_def byte_mirror_def)
  then show "j < 48 \<Longrightarrow> bswap_48 (2 ^ j) = 2 ^ byte_mirror 6 j" for j by blast
  have "\<forall>j < 64. 48 \<le> j \<longrightarrow> bswap_48 (2 ^ j) = 0"
    unfolding all_less_numeral by (simp add: upt_rec bswap_48_def)
  then show "48 \<le> j \<Longrightarrow> j < LENGTH(64) \<Longrightarrow> bswap_48 (2 ^ j) = 0" for j by simp
qed (auto intro: bswap_linear simp: byte_mirror_range [of _ 6, simplified] byte_mirror_twice [of _ 6, simplified])

interpretation swap64: bit_permutation bswap_64 64 "byte_mirror 8"
proof
  have "\<forall>j < 64. bswap_64 (2 ^ j) = 2 ^ byte_mirror 8 j"
    unfolding all_less_numeral by (simp add: upt_rec bswap_64_def byte_mirror_def)
  then show "j < 64 \<Longrightarrow> bswap_64 (2 ^ j) = 2 ^ byte_mirror 8 j" for j by blast
qed (auto intro: bswap_linear simp: byte_mirror_range [of _ 8, simplified] byte_mirror_twice [of _ 8, simplified])

subsection \<open>What the helpers promise\<close>

text \<open>The reversals reverse: bit \<open>i\<close> of the result is bit \<open>w - 1 - i\<close> of the argument, for
  the widths 8, 16 and 32.
\<close>

theorem bit_reverse_bits:
  "(bit (u8_bit_reverse b) i \<longleftrightarrow> i < 8 \<and> bit b (7 - i)) \<and>
   (bit (u16_bit_reverse x) i \<longleftrightarrow> i < 16 \<and> bit x (15 - i)) \<and>
   (bit (u32_bit_reverse y) i \<longleftrightarrow> i < 32 \<and> bit y (31 - i))"
  by (simp add: rev8.bit_value rev16.bit_value rev32.bit_value)

text \<open>Each reversal is its own inverse.\<close>

lemma bit_reverse_twice:
  "u8_bit_reverse (u8_bit_reverse b) = b" "u16_bit_reverse (u16_bit_reverse x) = x"
  "u32_bit_reverse (u32_bit_reverse y) = y"
  using take_bit_length [of b] take_bit_length [of x] take_bit_length [of y]
  by (simp_all add: rev8.twice rev16.twice rev32.twice)

text \<open>Byte swaps round trip: swapping twice, from the processor's order to the wire's and
  back, is the identity on values of the swapped width, and the 24 and 48 bit swaps drop the
  bits above it.
\<close>

theorem bswap_round_trip:
  "bswap_16 (bswap_16 a) = a \<and> bswap_24 (bswap_24 b) = take_bit 24 b \<and>
   bswap_32 (bswap_32 c) = c \<and> bswap_48 (bswap_48 d) = take_bit 48 d \<and>
   bswap_64 (bswap_64 e) = e"
  using take_bit_length [of a] take_bit_length [of c] take_bit_length [of e]
  by (simp add: swap16.twice swap24.twice swap32.twice swap48.twice swap64.twice)

lemma bswap_64_bits: "bit (bswap_64 x) i \<longleftrightarrow> i < 64 \<and> bit x (byte_mirror 8 i)"
  by (rule swap64.bit_value)

lemma bit_BIT [simp]: "bit (BIT n) i \<longleftrightarrow> i = n \<and> n < 64"
  unfolding BIT_def push_bit_of_1 by (auto simp: bit_exp_iff)

lemma BIT_IS_SET_iff: "BIT_IS_SET m n \<longleftrightarrow> bit m n"
proof -
  have "m AND BIT n = 0 \<longleftrightarrow> \<not> bit m n"
  proof
    assume "m AND BIT n = 0"
    then have "\<not> bit (m AND BIT n) n" by simp
    then show "\<not> bit m n" by (auto simp: bit_and_iff dest: bit_imp_le_length)
  qed (auto intro: bit_word_eqI simp: bit_and_iff)
  then show ?thesis by (simp add: BIT_IS_SET_def)
qed

text \<open>The single-bit macros change exactly the bit they name, and \<open>BIT_TEST_SET\<close> is true
  exactly when it turned a clear bit on.
\<close>

theorem bit_macros:
  assumes "n < 64"
  shows "(bit (BIT_SET m n) i \<longleftrightarrow> i = n \<or> bit m i) \<and> (bit (BIT_CLEAR m n) i \<longleftrightarrow> i \<noteq> n \<and> bit m i) \<and>
    (bit (BIT_FLIP m n) i \<longleftrightarrow> (if i = n then \<not> bit m i else bit m i)) \<and>
    BIT_TEST_SET m n = (\<not> bit m n, BIT_SET m n)"
proof -
  have set: "bit (BIT_SET m n) i \<longleftrightarrow> i = n \<or> bit m i" for i
    using assms by (auto simp: BIT_SET_def bit_or_iff)
  from this [of n] have "BIT_SET m n \<noteq> 0" by auto
  moreover have "BIT_SET m n = m" if "bit m n"
    by (rule bit_word_eqI) (use set that in auto)
  ultimately have test: "BIT_TEST_SET m n = (\<not> bit m n, BIT_SET m n)"
    by (simp add: BIT_TEST_SET_def BIT_IS_SET_iff)
  have clear: "bit (BIT_CLEAR m n) i \<longleftrightarrow> i \<noteq> n \<and> bit m i"
    using assms bit_imp_le_length [of m i] by (auto simp: BIT_CLEAR_def bit_and_iff bit_not_iff)
  have flip: "bit (BIT_FLIP m n) i \<longleftrightarrow> (if i = n then \<not> bit m i else bit m i)"
    using assms by (auto simp: BIT_FLIP_def bit_xor_iff)
  show ?thesis by (intro conjI set clear flip test)
qed

theorem bit_macros_witness:
  "(bit (BIT_SET 5 1) 1 \<longleftrightarrow> (1 :: nat) = 1 \<or> bit (5 :: u64) 1) \<and>
    (bit (BIT_CLEAR 5 1) 1 \<longleftrightarrow> (1 :: nat) \<noteq> 1 \<and> bit (5 :: u64) 1) \<and>
    (bit (BIT_FLIP 5 1) 1 \<longleftrightarrow> (if (1 :: nat) = 1 then \<not> bit (5 :: u64) 1 else bit (5 :: u64) 1)) \<and>
    BIT_TEST_SET 5 1 = (\<not> bit (5 :: u64) 1, BIT_SET 5 1)"
  by (rule bit_macros) simp

end
