(* ===== verification/NumUtils.thy ===== *)
theory NumUtils
  imports CPrelude
begin

text \<open>
  The integer helpers of \<open>include/utils/utils.h\<close> and \<open>src/utils.c\<close>: rounding, remainders,
  digit counts and the branch-free character classes.
\<close>

definition ROUND_UP :: "u64 \<Rightarrow> u64 \<Rightarrow> u64" where
  "ROUND_UP x y = (x + y - 1) AND NOT (y - 1)"

text \<open>On \<open>int\<close> operands: \<open>None\<close> for a zero divisor and for an overflow.\<close>

definition MATH_MOD :: "int \<Rightarrow> int \<Rightarrow> int option" where
  "MATH_MOD a b =
     (if b = 0 \<or> \<not> int_ok (a sdiv b) \<or> \<not> int_ok (a smod b + b) then None
      else Some ((a smod b + b) smod b))"

definition IS_POW2 :: "u64 \<Rightarrow> u64" where
  "IS_POW2 n = n AND (n - 1)"

subsection \<open>Rounding\<close>

definition round_up_pow2 :: "u32 \<Rightarrow> u32" where
  "round_up_pow2 v =
     (let v = v - 1;
          v = v OR drop_bit 1 v;
          v = v OR drop_bit 2 v;
          v = v OR drop_bit 4 v;
          v = v OR drop_bit 8 v;
          v = v OR drop_bit 16 v
      in v + 1)"

definition smears :: "'a::len word \<Rightarrow> nat \<Rightarrow> 'a word \<Rightarrow> bool" where
  "smears x n y \<longleftrightarrow> (\<forall>i. bit y i \<longleftrightarrow> (\<exists>d<n. bit x (i + d)))"

lemma smears_start: "smears x 1 x"
  by (simp add: smears_def)

lemma smears_double: "smears x n y \<Longrightarrow> smears x (n + n) (y OR drop_bit n y)"
proof -
  assume y: "smears x n y"
  have "(\<exists>d<n + n. bit x (i + d)) \<longleftrightarrow> (\<exists>d<n. bit x (i + d)) \<or> (\<exists>d<n. bit x (n + i + d))" for i
  proof -
    have "(\<exists>d<n + n. bit x (i + d)) \<longleftrightarrow> (\<exists>d<n. bit x (i + d)) \<or> (\<exists>d. n \<le> d \<and> d < n + n \<and> bit x (i + d))"
      by (meson linorder_not_less trans_less_add1)
    also have "(\<exists>d. n \<le> d \<and> d < n + n \<and> bit x (i + d)) \<longleftrightarrow> (\<exists>d<n. bit x (n + i + d))"
    proof
      assume "\<exists>d. n \<le> d \<and> d < n + n \<and> bit x (i + d)"
      then obtain d where "n \<le> d" "d < n + n" "bit x (i + d)" by blast
      then have "d - n < n \<and> bit x (n + i + (d - n))" by simp
      then show "\<exists>d<n. bit x (n + i + d)" by blast
    next
      assume "\<exists>d<n. bit x (n + i + d)"
      then obtain d where "d < n" "bit x (n + i + d)" by blast
      then have "n \<le> d + n \<and> d + n < n + n \<and> bit x (i + (d + n))" by (simp add: ac_simps)
      then show "\<exists>d. n \<le> d \<and> d < n + n \<and> bit x (i + d)" by blast
    qed
    finally show ?thesis .
  qed
  with y show ?thesis by (simp add: smears_def bit_or_iff bit_drop_bit_eq)
qed

lemma smeared_is_mask:
  fixes x y :: "'a::len word"
  assumes y: "smears x LENGTH('a) y" and small: "unat x < 2 ^ k" and k: "k \<le> LENGTH('a)"
    and least: "\<And>j. unat x < 2 ^ j \<Longrightarrow> k \<le> j"
  shows "y = mask k"
proof (rule bit_word_eqI)
  fix i
  assume i: "i < LENGTH('a)"
  have above: "\<not> bit x j" if "k \<le> j" for j
  proof
    assume "bit x j"
    then have "bit (unat x) j" by (simp add: bit_unsigned_iff)
    then have "2 ^ j \<le> unat x" by (metis bit_iff_odd div_less even_zero linorder_not_less)
    moreover have "(2 :: nat) ^ k \<le> 2 ^ j" using that by simp
    ultimately show False using small by simp
  qed
  have top: "bit x (k - 1)" if "0 < k"
  proof (rule ccontr)
    assume no: "\<not> bit x (k - 1)"
    then have "\<not> bit x j" if "k - 1 \<le> j" for j
      using that above [of j] by (cases "j = k - 1") auto
    then have "take_bit (k - 1) x = x"
      by (intro bit_word_eqI) (auto simp: bit_take_bit_iff not_le [symmetric])
    then have "unat x = take_bit (k - 1) (unat x)"
      by (metis unsigned_take_bit_eq)
    then have "unat x < 2 ^ (k - 1)" by (metis take_bit_nat_less_exp)
    from least [OF this] \<open>0 < k\<close> show False by simp
  qed
  show "bit y i \<longleftrightarrow> bit (mask k :: 'a word) i"
  proof (cases "i < k")
    case True
    then have "k - 1 - i < LENGTH('a) \<and> bit x (i + (k - 1 - i))" using k top by simp
    then have "bit y i" using y unfolding smears_def by blast
    with True i show ?thesis by (simp add: bit_mask_iff)
  next
    case False
    then have "\<not> bit y i" using y above unfolding smears_def by simp
    with False show ?thesis by (simp add: bit_mask_iff)
  qed
qed

lemma round_up_pow2_mask:
  assumes "unat (v - 1) < 2 ^ k" and "k \<le> 32" and "\<And>j. unat (v - 1) < 2 ^ j \<Longrightarrow> k \<le> j"
  shows "round_up_pow2 v = mask k + 1"
proof -
  define v1 where "v1 = (v - 1) OR drop_bit 1 (v - 1)"
  define v2 where "v2 = v1 OR drop_bit 2 v1"
  define v3 where "v3 = v2 OR drop_bit 4 v2"
  define v4 where "v4 = v3 OR drop_bit 8 v3"
  define v5 where "v5 = v4 OR drop_bit 16 v4"
  have "smears (v - 1) 2 v1"
    using smears_double [OF smears_start, of "v - 1"] unfolding v1_def one_add_one .
  then have "smears (v - 1) 4 v2" using smears_double [of "v - 1" 2 v1] by (simp add: v2_def)
  then have "smears (v - 1) 8 v3" using smears_double [of "v - 1" 4 v2] by (simp add: v3_def)
  then have "smears (v - 1) 16 v4" using smears_double [of "v - 1" 8 v3] by (simp add: v4_def)
  then have "smears (v - 1) 32 v5" using smears_double [of "v - 1" 16 v4] by (simp add: v5_def)
  then have "v5 = mask k" using smeared_is_mask [of "v - 1" v5 k] assms by simp
  then show ?thesis
    unfolding round_up_pow2_def Let_def v1_def [symmetric] v2_def [symmetric] v3_def [symmetric]
      v4_def [symmetric] v5_def [symmetric] by simp
qed

text \<open>For \<open>1 \<le> v \<le> 2 ^ 31\<close> the smearing of \<open>round_up_pow2\<close> returns the least power of two
  that is at least \<open>v\<close>.
\<close>

theorem round_up_pow2_least:
  assumes "0 < v" and "v \<le> 0x80000000"
  shows "\<exists>k \<le> 31. round_up_pow2 v = 2 ^ k \<and> unat v \<le> 2 ^ k \<and> (\<forall>j. unat v \<le> 2 ^ j \<longrightarrow> k \<le> j)"
proof -
  have v1: "unat (v - 1) = unat v - 1" using assms(1) by (simp add: unat_minus_one word_neq_0_conv)
  have pos: "0 < unat v" using assms(1) by (simp add: word_less_nat_alt)
  then have eq: "unat (v - 1) < 2 ^ j \<longleftrightarrow> unat v \<le> 2 ^ j" for j by (auto simp: v1)
  define k where "k = (LEAST j. unat v \<le> 2 ^ j)"
  have fit: "unat v \<le> 2 ^ 31" using assms(2) by (simp add: word_le_nat_alt)
  have k: "unat v \<le> 2 ^ k" "k \<le> 31" "unat v \<le> 2 ^ j \<Longrightarrow> k \<le> j" for j
    unfolding k_def by (rule LeastI [of _ 31], rule fit, rule Least_le, rule fit, rule Least_le)
  have "round_up_pow2 v = mask k + 1"
    using k eq by (intro round_up_pow2_mask) auto
  then show ?thesis using k by (auto simp: mask_eq_exp_minus_1)
qed

theorem round_up_pow2_least_witness:
  "\<exists>k \<le> 31. round_up_pow2 5 = 2 ^ k \<and> unat (5 :: u32) \<le> 2 ^ k \<and> (\<forall>j. unat (5 :: u32) \<le> 2 ^ j \<longrightarrow> k \<le> j)"
  by (rule round_up_pow2_least) simp_all

text \<open>Outside that range there is no such power of two in 32 bits, and the result is 0.\<close>

lemma round_up_pow2_overflow:
  assumes "v = 0 \<or> 0x80000000 < v"
  shows "round_up_pow2 v = 0"
proof -
  have "2 ^ 31 \<le> unat (v - 1)"
  proof (cases "v = 0")
    case False
    with assms have "2 ^ 31 < unat v" by (simp add: word_less_nat_alt)
    with False show ?thesis by (simp add: unat_minus_one)
  qed (simp add: unsigned_minus_1_eq_mask mask_eq_exp_minus_1)
  then have "32 \<le> j" if "unat (v - 1) < 2 ^ j" for j
    using that power_strict_increasing_iff [of "2 :: nat" 31 j] by linarith
  then have "round_up_pow2 v = mask 32 + 1"
    using unsigned_less [of "v - 1", where 'a = nat] by (intro round_up_pow2_mask) auto
  then show ?thesis by (simp add: mask_eq_exp_minus_1)
qed

lemma unat_of_nat_small: "n < 2 ^ 64 \<Longrightarrow> unat (word_of_nat n :: u64) = n"
  by (simp add: unat_of_nat)

lemma unat_push_drop: "unat (push_bit k (drop_bit k (w :: u64))) = unat w div 2 ^ k * 2 ^ k"
proof -
  have "unat w div 2 ^ k * 2 ^ k < 2 ^ 64"
    using unsigned_less [of w, where 'a = nat] div_times_less_eq_dividend [of "unat w" "2 ^ k"]
    by (simp only: len_bit0 len_num1) (rule order.strict_trans1, assumption, simp)
  moreover have "unat (push_bit k (drop_bit k w)) = take_bit 64 (unat w div 2 ^ k * 2 ^ k)"
    unfolding unsigned_push_bit_eq unsigned_drop_bit_eq
    using unsigned_less [of w, where 'a = nat]
    by (simp add: take_bit_nat_eq_self push_bit_eq_mult drop_bit_eq_div)
  ultimately show ?thesis by (simp add: take_bit_nat_eq_self)
qed

lemma ROUND_UP_pow2:
  assumes "unat x + 2 ^ k - 1 < 2 ^ 64" and "k < 64"
  shows "unat (ROUND_UP x (2 ^ k)) = (unat x + 2 ^ k - 1) div 2 ^ k * 2 ^ k"
proof -
  have sum: "unat (x + 2 ^ k - 1) = unat x + 2 ^ k - 1"
  proof -
    have "x + 2 ^ k - 1 = word_of_nat (unat x + 2 ^ k - 1)"
      by (simp add: of_nat_diff Suc_le_eq)
    then show ?thesis using assms(1) unat_of_nat_small by metis
  qed
  have "w AND NOT (mask k) = push_bit k (drop_bit k w)" for w :: u64
    by (intro bit_word_eqI) (auto simp: bit_simps)
  then have "ROUND_UP x (2 ^ k) = push_bit k (drop_bit k (x + 2 ^ k - 1))"
    by (simp add: ROUND_UP_def mask_eq_exp_minus_1)
  then show ?thesis
    using sum by (simp only: unat_push_drop)
qed

text \<open>The value of the macro is non-zero exactly when its argument is \<open>not\<close> a power of two.\<close>

lemma IS_POW2_pow2: "k < 64 \<Longrightarrow> IS_POW2 (2 ^ k) = 0"
  by (rule bit_word_eqI) (auto simp: IS_POW2_def bit_simps simp flip: mask_eq_exp_minus_1)

lemma IS_POW2_lowest: 
  assumes "bit n k" and "\<And>j. j < k \<Longrightarrow> \<not> bit n j"
  shows "IS_POW2 n = n XOR 2 ^ k"
proof -
  have k: "k < 64" using bit_imp_le_length [OF assms(1)] by simp
  define r where "r = n XOR 2 ^ k"
  have bits: "bit r i \<longleftrightarrow> bit n i \<and> i \<noteq> k" "bit r i \<Longrightarrow> k \<le> i" for i
    using assms k by (auto simp: r_def bit_simps not_less [symmetric])
  have "r AND 2 ^ k = 0" "r AND mask k = 0"
    by (rule bit_word_eqI; use bits in \<open>fastforce simp: bit_simps\<close>)+
  note add = this [THEN disjunctive_add_eq_or]
  have "n = r OR 2 ^ k"
    by (rule bit_word_eqI) (use bits assms k in \<open>auto simp: bit_simps\<close>)
  then have "n = r + 2 ^ k" by (simp add: add)
  then have "n - 1 = r OR mask k" by (simp add: add(2) [symmetric]) (simp add: mask_eq_exp_minus_1)
  then show ?thesis unfolding IS_POW2_def r_def [symmetric]
    by (intro bit_word_eqI) (use bits in \<open>auto simp: bit_simps\<close>)
qed

lemma IS_POW2_inverted: "0 < n \<Longrightarrow> IS_POW2 n = 0 \<longleftrightarrow> (\<exists>k < 64. n = 2 ^ k)"
proof
  assume n: "0 < n" and z: "IS_POW2 n = 0"
  have "\<exists>i. bit n i"
  proof (rule ccontr)
    assume "\<nexists>i. bit n i"
    then have "n = 0" by (intro bit_word_eqI) simp
    with n show False by simp
  qed
  then have b: "bit n (LEAST i. bit n i)" (is "bit n ?k") by (rule LeastI_ex)
  have "IS_POW2 n = n XOR 2 ^ ?k" by (rule IS_POW2_lowest [OF b]) (rule not_less_Least)
  with z have "n XOR 2 ^ ?k = 0" by simp
  moreover have "n = (n XOR 2 ^ ?k) XOR 2 ^ ?k" by (simp add: xor.assoc)
  ultimately have "n = 2 ^ ?k" by simp
  with bit_imp_le_length [OF b] show "\<exists>k < 64. n = 2 ^ k" by (intro exI [of _ ?k]) simp
next
  assume "\<exists>k < 64. n = 2 ^ k"
  then show "IS_POW2 n = 0" using IS_POW2_pow2 by blast
qed

lemma MATH_MOD_is_mod:
  assumes "0 < b" and "b \<le> 2 ^ 30" and "int_ok a"
  shows "MATH_MOD a b = Some (a mod b)"
proof -
  have r: "- b < a smod b" "a smod b < b" using smod_int_range [of b a] assms(1) by auto
  have q: "int_ok (a sdiv b)"
  proof (cases "0 \<le> a")
    case True
    then show ?thesis using assms zdiv_mono2 [of a 1 b] pos_imp_zdiv_nonneg_iff [of b a]
      by (auto simp: int_ok_def INT_MAX_def)
  next
    case False
    then have "a sdiv b = - (- a div b)" using assms(1) by (simp add: signed_divide_int_def)
    then show ?thesis
      using assms False zdiv_mono2 [of "- a" 1 b] pos_imp_zdiv_nonneg_iff [of b "- a"]
      by (simp add: int_ok_def INT_MAX_def)
  qed
  have "(a smod b + b) mod b = a mod b"
    by (simp add: signed_modulo_int_eq_modulo_int)
  moreover have "int_ok (a smod b + b)" using r assms(2) by (simp add: int_ok_def INT_MAX_def)
  ultimately show ?thesis using r q assms(1) by (simp add: MATH_MOD_def)
qed

subsection \<open>Decimal digits\<close>

function count_digits :: "int \<Rightarrow> int \<Rightarrow> int" where
  "count_digits digits n = (if n > 0 then count_digits (digits + 1) (n sdiv 10) else digits)"
  by auto
termination by (relation "measure (\<lambda>(d, n). nat n)") auto

definition num_digits_in_number :: "int \<Rightarrow> int option" where
  "num_digits_in_number num =
     (let n = (if num \<ge> 0 then num else - num) in
      if int_ok n then Some (count_digits 0 n) else None)"

declare count_digits.simps [simp del]

lemma count_digits_bounds:
  "0 < n \<Longrightarrow> \<exists>k. count_digits d n = d + int k + 1 \<and> 10 ^ k \<le> n \<and> n < 10 ^ Suc k"
proof (induction d n rule: count_digits.induct)
  case (1 d n)
  show ?case
  proof (cases "n < 10")
    case True
    with 1(2) have "count_digits d n = d + 1"
      by (simp add: count_digits.simps [of d n] count_digits.simps [of "d + 1" 0])
    with True 1(2) show ?thesis by (intro exI [of _ 0]) simp
  next
    case False
    then have "0 < n sdiv 10" by simp
    from 1(1) [OF 1(2) this] obtain k where
      k: "count_digits (d + 1) (n div 10) = d + 1 + int k + 1" "10 ^ k \<le> n div 10" "n div 10 < 10 ^ Suc k"
      using 1(2) by auto
    have "10 ^ Suc k \<le> n" "n < 10 ^ Suc (Suc k)" using k(2,3) by simp_all
    with k(1) 1(2) show ?thesis
      by (intro exI [of _ "Suc k"]) (simp add: count_digits.simps [of d n])
  qed
qed

text \<open>\<open>num_digits_in_number\<close> returns the number \<open>d\<close> of decimal digits of any non-zero
  \<open>int\<close> but the least: \<open>10 ^ (d - 1) \<le> |num| < 10 ^ d\<close>.
\<close>

theorem num_digits_bounds:
  assumes "num \<noteq> 0" and "\<bar>num\<bar> \<le> INT_MAX"
  shows "\<exists>d. num_digits_in_number num = Some (int d) \<and> 10 ^ (d - 1) \<le> \<bar>num\<bar> \<and> \<bar>num\<bar> < 10 ^ d"
proof -
  have "num_digits_in_number num = Some (count_digits 0 \<bar>num\<bar>)"
    using assms(2) by (auto simp: num_digits_in_number_def int_ok_def INT_MAX_def abs_if split: if_splits)
  moreover obtain k where "count_digits 0 \<bar>num\<bar> = int (Suc k)" "10 ^ k \<le> \<bar>num\<bar>" "\<bar>num\<bar> < 10 ^ Suc k"
    using count_digits_bounds [of "\<bar>num\<bar>" 0] assms(1) by auto
  ultimately show ?thesis by (intro exI [of _ "Suc k"]) simp
qed

theorem num_digits_bounds_witness:
  "\<exists>d. num_digits_in_number (- 407) = Some (int d) \<and> 10 ^ (d - 1) \<le> \<bar>- 407 :: int\<bar> \<and> \<bar>- 407 :: int\<bar> < 10 ^ d"
  by (rule num_digits_bounds) (simp_all add: INT_MAX_def)

text \<open>Zero has no digits, and the absolute value of the least \<open>int\<close> overflows.\<close>

lemma num_digits_edges:
  "num_digits_in_number 0 = Some 0" "num_digits_in_number (- INT_MAX - 1) = None"
  by (simp_all add: num_digits_in_number_def int_ok_def INT_MAX_def count_digits.simps)

subsection \<open>Character classes\<close>

text \<open>The argument is an \<open>int\<close>; a subtraction that overflows is \<open>None\<close>.\<close>

definition sign_bit :: "int \<Rightarrow> bool" where
  "sign_bit i \<longleftrightarrow> drop_bit 31 (word_of_int i :: u32) \<noteq> 0"

definition char_is_space :: "int \<Rightarrow> bool option" where
  "char_is_space c =
     (if int_ok (c - 9) then
        let d = (word_of_int (c - 9) :: u8) in
        Some (drop_bit (unat (d AND 31)) (0x80001F :: u32) AND drop_bit (unat (drop_bit 5 d)) 1 \<noteq> 0)
      else None)"

definition char_is_digit :: "int \<Rightarrow> bool option" where
  "char_is_digit c =
     (if int_ok (0x30 - 1 - c) \<and> int_ok (c - (0x39 + 1)) then
        Some (sign_bit ((0x30 - 1 - c) AND (c - (0x39 + 1))))
      else None)"

definition char_is_alpha :: "int \<Rightarrow> bool option" where
  "char_is_alpha c =
     (if int_ok (0x61 - 1 - (c OR 32)) \<and> int_ok ((c OR 32) - (0x7a + 1)) then
        Some (sign_bit ((0x61 - 1 - (c OR 32)) AND ((c OR 32) - (0x7a + 1))))
      else None)"

text \<open>On every \<open>char\<close> value (signed or unsigned, and EOF) the branch-free tests are the
  character classes of the C locale.
\<close>

theorem char_classes:
  "list_all (\<lambda>c. char_is_space c = Some (9 \<le> c \<and> c \<le> 13 \<or> c = 32) \<and>
     char_is_digit c = Some (48 \<le> c \<and> c \<le> 57) \<and>
     char_is_alpha c = Some (65 \<le> c \<and> c \<le> 90 \<or> 97 \<le> c \<and> c \<le> 122)) [-128..255]"
  by code_simp

end
