(* ===== verification/CList.thy ===== *)
theory CList
  imports CPrelude
begin

text \<open>
  The intrusive doubly linked list of \<open>src/list.c\<close>.  Nodes live in a heap; the list holds the
  addresses of its first and last node.  \<open>dseg\<close> describes a segment linked in both
  directions; a list holds \<open>as\<close> (\<open>list_repr\<close>) when it is such a segment between NULL and
  NULL.  Nodes belong to the caller: an operation may be given only allocated nodes that are
  not linked yet.
\<close>

record node =
  n_next :: addr
  n_prev :: addr

record list_t =
  list_head :: addr
  list_tail :: addr

abbreviation mk_node :: "addr \<Rightarrow> addr \<Rightarrow> node" where
  "mk_node nx pv \<equiv> \<lparr>n_next = nx, n_prev = pv\<rparr>"

abbreviation set_next :: "node heap \<Rightarrow> addr \<Rightarrow> addr \<Rightarrow> node heap option" where
  "set_next h p v \<equiv> update h p (n_next_update (\<lambda>_. v))"

abbreviation set_prev :: "node heap \<Rightarrow> addr \<Rightarrow> addr \<Rightarrow> node heap option" where
  "set_prev h p v \<equiv> update h p (n_prev_update (\<lambda>_. v))"

abbreviation get_next :: "node heap \<Rightarrow> addr \<Rightarrow> addr option" where
  "get_next h p \<equiv> map_option n_next (deref h p)"

abbreviation get_prev :: "node heap \<Rightarrow> addr \<Rightarrow> addr option" where
  "get_prev h p \<equiv> map_option n_prev (deref h p)"

subsection \<open>The operations\<close>

definition list_init :: "list_t" where
  "list_init = \<lparr>list_head = NULL, list_tail = NULL\<rparr>"

definition list_append :: "node heap \<Rightarrow> list_t \<Rightarrow> addr \<Rightarrow> (node heap \<times> list_t) option" where
  "list_append h l node = do {
     h \<leftarrow> set_prev h node (list_tail l);
     h \<leftarrow> set_next h node NULL;
     h \<leftarrow> (if list_tail l \<noteq> NULL then set_next h (list_tail l) node else Some h);
     let l = l\<lparr>list_tail := node\<rparr>;
     let l = (if list_head l = NULL then l\<lparr>list_head := node\<rparr> else l);
     Some (h, l)
   }"

definition list_appendleft :: "node heap \<Rightarrow> list_t \<Rightarrow> addr \<Rightarrow> (node heap \<times> list_t) option" where
  "list_appendleft h l node = do {
     h \<leftarrow> set_prev h node NULL;
     h \<leftarrow> set_next h node (list_head l);
     h \<leftarrow> (if list_head l \<noteq> NULL then set_prev h (list_head l) node else Some h);
     let l = l\<lparr>list_head := node\<rparr>;
     let l = (if list_tail l = NULL then l\<lparr>list_tail := node\<rparr> else l);
     Some (h, l)
   }"

text \<open>The result of a pop: the code, the node stored through \<open>*node\<close> if any, the new state.\<close>

definition list_pop :: "node heap \<Rightarrow> list_t \<Rightarrow> (int \<times> addr option \<times> node heap \<times> list_t) option" where
  "list_pop h l =
     (if list_tail l = NULL then Some (- 1, None, h, l)
      else do {
        let node = list_tail l;
        pv \<leftarrow> get_prev h (list_tail l);
        let l = l\<lparr>list_tail := pv\<rparr>;
        if list_tail l \<noteq> NULL then do {
          h \<leftarrow> set_next h (list_tail l) NULL;
          Some (0, Some node, h, l)
        } else Some (0, Some node, h, l\<lparr>list_head := NULL\<rparr>)
      })"

definition list_popleft :: "node heap \<Rightarrow> list_t \<Rightarrow> (int \<times> addr option \<times> node heap \<times> list_t) option" where
  "list_popleft h l =
     (if list_head l = NULL then Some (- 1, None, h, l)
      else do {
        let node = list_head l;
        nx \<leftarrow> get_next h (list_head l);
        let l = l\<lparr>list_head := nx\<rparr>;
        if list_head l \<noteq> NULL then do {
          h \<leftarrow> set_prev h (list_head l) NULL;
          Some (0, Some node, h, l)
        } else Some (0, Some node, h, l\<lparr>list_tail := NULL\<rparr>)
      })"

definition list_remove_node :: "node heap \<Rightarrow> list_t \<Rightarrow> addr \<Rightarrow> (node heap \<times> list_t) option" where
  "list_remove_node h l node = do {
     n \<leftarrow> deref h node;
     if n_prev n = NULL then do {
       let l = l\<lparr>list_head := n_next n\<rparr>;
       if list_head l = NULL then Some (h, l\<lparr>list_tail := NULL\<rparr>)
       else do { h \<leftarrow> set_prev h (list_head l) NULL; Some (h, l) }
     } else if n_next n = NULL then do {
       let l = l\<lparr>list_tail := n_prev n\<rparr>;
       if list_tail l = NULL then Some (h, l\<lparr>list_head := NULL\<rparr>)
       else do { h \<leftarrow> set_next h (list_tail l) NULL; Some (h, l) }
     } else do {
       h \<leftarrow> set_prev h (n_next n) (n_prev n);
       nx \<leftarrow> get_next h node;
       pv \<leftarrow> get_prev h node;
       h \<leftarrow> set_next h pv nx;
       Some (h, l)
     }
   }"

text \<open>\<open>while (p && p != node) p = p->next\<close>.\<close>

partial_function (option) list_find_loop :: "node heap \<Rightarrow> addr \<Rightarrow> addr \<Rightarrow> addr option" where
  "list_find_loop h p node =
     (if p \<noteq> NULL \<and> p \<noteq> node then do { nx \<leftarrow> get_next h p; list_find_loop h nx node }
      else Some p)"

definition list_find_node :: "node heap \<Rightarrow> list_t \<Rightarrow> addr \<Rightarrow> addr option" where
  "list_find_node h l node = list_find_loop h (list_head l) node"

text \<open>The loop of \<open>list_check_links\<close> returns the two pointers it stops at.\<close>

partial_function (option) check_links_loop ::
    "node heap \<Rightarrow> addr \<Rightarrow> addr \<Rightarrow> addr \<Rightarrow> addr \<Rightarrow> (addr \<times> addr) option" where
  "check_links_loop h p1 p2 p1_prev p2_next =
     (if p1 = NULL \<or> p2 = NULL \<or> p1 = p2 then Some (p1, p2)
      else do {
        n1 \<leftarrow> deref h p1;
        n2 \<leftarrow> deref h p2;
        if n_next n1 \<noteq> n_prev n2 \<and> n_prev n1 = p1_prev \<and> n_next n2 = p2_next
        then check_links_loop h (n_next n1) (n_prev n2) p1 p2
        else Some (p1, p2)
      })"

definition links_met :: "node heap \<Rightarrow> addr \<Rightarrow> addr \<Rightarrow> bool option" where
  "links_met h p1 p2 =
     (if p1 = NULL \<or> p2 = NULL then Some False
      else if p1 = p2 then Some True
      else do {
        nx \<leftarrow> get_next h p1;
        pv \<leftarrow> get_prev h p2;
        Some (nx = pv)
      })"

definition list_check_links :: "node heap \<Rightarrow> addr \<Rightarrow> addr \<Rightarrow> bool option" where
  "list_check_links h p1 p2 =
     (if p1 = NULL \<or> p2 = NULL then Some False
      else if p1 = p2 then Some True
      else do {
        p1_prev \<leftarrow> get_prev h p1;
        p2_next \<leftarrow> get_next h p2;
        (p1, p2) \<leftarrow> check_links_loop h p1 p2 p1_prev p2_next;
        links_met h p1 p2
      })"

definition list_remove_nodes ::
    "node heap \<Rightarrow> list_t \<Rightarrow> addr \<Rightarrow> addr \<Rightarrow> (int \<times> node heap \<times> list_t) option" where
  "list_remove_nodes h l start end' = do {
     found \<leftarrow> list_find_node h l start;
     valid \<leftarrow> (if found = NULL then Some False else list_check_links h start end');
     if found = NULL \<or> \<not> valid then Some (- 1, h, l)
     else do {
       sp \<leftarrow> get_prev h start;
       en \<leftarrow> get_next h end';
       if sp = NULL then do {
         let l = l\<lparr>list_head := en\<rparr>;
         if list_head l = NULL then Some (0, h, l\<lparr>list_head := NULL\<rparr>)
         else do { h \<leftarrow> set_prev h (list_head l) NULL; Some (0, h, l) }
       } else if en = NULL then do {
         h \<leftarrow> set_next h sp NULL;
         sp \<leftarrow> get_prev h start;
         Some (0, h, l\<lparr>list_tail := sp\<rparr>)
       } else do {
         h \<leftarrow> set_next h sp en;
         en \<leftarrow> get_next h end';
         sp \<leftarrow> get_prev h start;
         h \<leftarrow> set_prev h en sp;
         Some (0, h, l)
       }
     }
   }"

definition list_insert_node ::
    "node heap \<Rightarrow> list_t \<Rightarrow> addr \<Rightarrow> addr \<Rightarrow> (node heap \<times> list_t) option" where
  "list_insert_node h l after newNode = do {
     (nx, h, l) \<leftarrow>
       (if after = NULL then Some (list_head l, h, l\<lparr>list_head := newNode\<rparr>)
        else do {
          nx \<leftarrow> get_next h after;
          h \<leftarrow> set_next h after newNode;
          Some (nx, h, l)
        });
     h \<leftarrow> set_prev h newNode after;
     h \<leftarrow> set_next h newNode nx;
     h \<leftarrow> set_prev h nx newNode;
     Some (h, l)
   }"

definition list_insert_nodes ::
    "node heap \<Rightarrow> list_t \<Rightarrow> addr \<Rightarrow> addr \<Rightarrow> addr \<Rightarrow> (int \<times> node heap \<times> list_t) option" where
  "list_insert_nodes h l after start end' = do {
     valid \<leftarrow> list_check_links h start end';
     if \<not> valid then Some (- 1, h, l)
     else if list_head l = NULL then Some (0, h, l\<lparr>list_head := start, list_tail := end'\<rparr>)
     else if after = NULL then do {
       h \<leftarrow> set_next h end' (list_head l);
       let l = l\<lparr>list_head := start\<rparr>;
       h \<leftarrow> set_prev h (list_head l) NULL;
       Some (0, h, l)
     } else do {
       nx \<leftarrow> get_next h after;
       h \<leftarrow> set_next h after start;
       h \<leftarrow> set_prev h start after;
       h \<leftarrow> set_next h end' nx;
       if nx \<noteq> NULL then do { h \<leftarrow> set_prev h nx end'; Some (0, h, l) }
       else Some (0, h, l\<lparr>list_tail := end'\<rparr>)
     }
   }"

subsection \<open>Segments linked in both directions\<close>

text \<open>
  \<open>dseg h b p as l q\<close>: the segment \<open>as\<close> starts at \<open>p\<close> with predecessor \<open>b\<close> and ends at \<open>l\<close>
  with successor \<open>q\<close>; an empty segment has \<open>p = q\<close> and \<open>l = b\<close>.
\<close>

fun dseg :: "node heap \<Rightarrow> addr \<Rightarrow> addr \<Rightarrow> addr list \<Rightarrow> addr \<Rightarrow> addr \<Rightarrow> bool" where
  "dseg h b p [] l q \<longleftrightarrow> p = q \<and> l = b"
| "dseg h b p (a # as) l q \<longleftrightarrow>
     p = a \<and> a \<noteq> NULL \<and> (\<exists>nx. h a = Some (mk_node nx b) \<and> dseg h a nx as l q)"

definition list_repr :: "node heap \<Rightarrow> list_t \<Rightarrow> addr list \<Rightarrow> bool" where
  "list_repr h l as \<longleftrightarrow> dseg h NULL (list_head l) as (list_tail l) NULL"

lemma dseg_append:
  "dseg h b p (as @ bs) l q \<longleftrightarrow> (\<exists>l' q'. dseg h b p as l' q' \<and> dseg h l' q' bs l q)"
  by (induction as arbitrary: b p) auto

lemma dseg_snoc:
  "dseg h b p (as @ [a]) l q \<longleftrightarrow>
     l = a \<and> a \<noteq> NULL \<and> (\<exists>pv. h a = Some (mk_node q pv) \<and> dseg h b p as pv a)"
  by (auto simp: dseg_append)

lemma dseg_upd [frame, simp]:
  "a \<notin> set as \<Longrightarrow> dseg (h(a := v)) b p as l q = dseg h b p as l q"
  by (induction as arbitrary: b p) auto

lemma dseg_cong [frame]:
  "(\<And>a. a \<in> set as \<Longrightarrow> h' a = h a) \<Longrightarrow> dseg h' b p as l q = dseg h b p as l q"
  by (induction as arbitrary: b p) auto

lemma dseg_lseg: "dseg h b p as l q \<Longrightarrow> lseg n_next h p as q"
  by (induction as arbitrary: b p) auto

lemma dseg_distinct: "dseg h b p as l NULL \<Longrightarrow> distinct as"
  by (blast dest: dseg_lseg chain_distinct)

lemma dseg_first: "dseg h b p as l q \<Longrightarrow> p = (case as of [] \<Rightarrow> q | a # _ \<Rightarrow> a)"
  by (cases as) auto

lemma dseg_last: "dseg h b p as l q \<Longrightarrow> l = (if as = [] then b else last as)"
  by (cases as rule: rev_cases) (auto simp: dseg_snoc)

lemma dseg_alloc: "dseg h b p as l q \<Longrightarrow> a \<in> set as \<Longrightarrow> a \<noteq> NULL \<and> (\<exists>n. h a = Some n)"
  by (induction as arbitrary: b p) auto

lemmas list_repr_facts =
  dseg_distinct [OF iffD1 [OF list_repr_def]] dseg_first [OF iffD1 [OF list_repr_def]]
  dseg_last [OF iffD1 [OF list_repr_def]] dseg_alloc [OF iffD1 [OF list_repr_def]]

lemma list_repr_empty: "list_repr h list_init []"
  by (simp add: list_repr_def list_init_def)

lemma list_repr_head_NULL: "list_repr h l as \<Longrightarrow> list_head l = NULL \<longleftrightarrow> as = []"
  by (cases as) (auto simp: list_repr_def)

lemma list_repr_tail_NULL: "list_repr h l as \<Longrightarrow> list_tail l = NULL \<longleftrightarrow> as = []"
  by (cases as rule: rev_cases) (auto simp: list_repr_def dseg_snoc)

lemma list_repr_unique: "list_repr h l as \<Longrightarrow> list_repr h l bs \<Longrightarrow> as = bs"
  unfolding list_repr_def by (blast dest: dseg_lseg chain_unique)

text \<open>An allocated node that may be given to a list holding \<open>as\<close>.\<close>

definition fresh_node :: "node heap \<Rightarrow> addr list \<Rightarrow> addr \<Rightarrow> bool" where
  "fresh_node h as x \<longleftrightarrow> x \<noteq> NULL \<and> x \<in> dom h \<and> x \<notin> set as"

text \<open>What an operation may touch: the nodes of the list and the node it is given.\<close>

definition only_touches :: "addr set \<Rightarrow> node heap \<Rightarrow> node heap \<Rightarrow> bool" where
  "only_touches A h h' \<longleftrightarrow> dom h' = dom h \<and> (\<forall>a. a \<notin> A \<longrightarrow> h' a = h a)"

lemma only_touches_refl [simp]: "only_touches A h h"
  by (simp add: only_touches_def)

lemma only_touches_upd [intro]:
  "only_touches A h h' \<Longrightarrow> a \<in> A \<Longrightarrow> h' a = Some m \<Longrightarrow> only_touches A h (h'(a \<mapsto> n))"
  by (auto simp: only_touches_def)

lemma fresh_nodeE:
  assumes "fresh_node h as x"
  obtains nx pv where "h x = Some (mk_node nx pv)" "x \<noteq> NULL" "x \<notin> set as"
  using assms by (cases "the (h x)") (force simp: fresh_node_def)

subsection \<open>Both ends\<close>

lemma list_append_correct:
  assumes "list_repr h l as" and "fresh_node h as x"
  shows "\<exists>h' l'. list_append h l x = Some (h', l') \<and> list_repr h' l' (as @ [x]) \<and>
    only_touches (insert x (set as)) h h'"
proof -
  obtain nx pv where x: "h x = Some (mk_node nx pv)" "x \<noteq> NULL" "x \<notin> set as"
    using assms(2) by (rule fresh_nodeE)
  show ?thesis
  proof (cases as rule: rev_cases)
    case Nil
    with assms(1) x show ?thesis
      by (auto simp: list_repr_def list_append_def only_touches_def dom_def)
  next
    case (snoc bs t)
    with assms(1) have "list_head l \<noteq> NULL" by (simp add: list_repr_head_NULL)
    with snoc assms(1) x dseg_distinct [of h NULL "list_head l" as "list_tail l"] show ?thesis
      by (auto simp: list_repr_def list_append_def dseg_append only_touches_def dom_def Let_def)
  qed
qed

lemma list_appendleft_correct:
  assumes "list_repr h l as" and "fresh_node h as x"
  shows "\<exists>h' l'. list_appendleft h l x = Some (h', l') \<and> list_repr h' l' (x # as) \<and>
    only_touches (insert x (set as)) h h'"
proof -
  obtain nx pv where x: "h x = Some (mk_node nx pv)" "x \<noteq> NULL" "x \<notin> set as"
    using assms(2) by (rule fresh_nodeE)
  show ?thesis
  proof (cases as)
    case Nil
    with assms(1) x show ?thesis
      by (auto simp: list_repr_def list_appendleft_def only_touches_def dom_def)
  next
    case (Cons a bs)
    with assms(1) have "list_tail l \<noteq> NULL" by (simp add: list_repr_tail_NULL)
    with Cons assms(1) x dseg_distinct [of h NULL "list_head l" as "list_tail l"] show ?thesis
      by (auto simp: list_repr_def list_appendleft_def only_touches_def dom_def Let_def)
  qed
qed

lemma list_pop_correct:
  assumes "list_repr h l (as @ [x])"
  shows "\<exists>h' l'. list_pop h l = Some (0, Some x, h', l') \<and> list_repr h' l' as \<and>
    only_touches (set as) h h'"
proof (cases as rule: rev_cases)
  case Nil
  with assms show ?thesis by (auto simp: list_repr_def list_pop_def)
next
  case (snoc bs y)
  with assms dseg_distinct [of h NULL "list_head l" "as @ [x]" "list_tail l"] show ?thesis
    by (auto simp: list_repr_def list_pop_def dseg_append only_touches_def dom_def)
qed

lemma list_pop_empty: "list_repr h l [] \<Longrightarrow> list_pop h l = Some (- 1, None, h, l)"
  by (simp add: list_repr_def list_pop_def)

lemma list_popleft_correct:
  assumes "list_repr h l (x # as)"
  shows "\<exists>h' l'. list_popleft h l = Some (0, Some x, h', l') \<and> list_repr h' l' as \<and>
    only_touches (set as) h h'"
proof (cases as)
  case Nil
  with assms show ?thesis by (auto simp: list_repr_def list_popleft_def)
next
  case (Cons y bs)
  with assms dseg_distinct [of h NULL "list_head l" "x # as" "list_tail l"] show ?thesis
    by (auto simp: list_repr_def list_popleft_def only_touches_def dom_def)
qed

lemma list_popleft_empty: "list_repr h l [] \<Longrightarrow> list_popleft h l = Some (- 1, None, h, l)"
  by (simp add: list_repr_def list_popleft_def)

subsection \<open>Removing and finding one node\<close>

text \<open>
  C39.  \<open>list_remove_node\<close> unlinks any node of the list, wherever it is: the remaining nodes
  keep their order and stay linked in both directions, and no node outside the list changes.
\<close>

theorem list_remove_node_correct:
  assumes "list_repr h l (bs @ x # cs)"
  shows "\<exists>h' l'. list_remove_node h l x = Some (h', l') \<and> list_repr h' l' (bs @ cs) \<and>
    only_touches (set (bs @ cs)) h h'"
proof -
  have d: "distinct (bs @ x # cs)" "NULL \<notin> set (bs @ x # cs)"
    using assms dseg_alloc unfolding list_repr_def by (blast dest: dseg_distinct)+
  show ?thesis
  proof (cases bs rule: rev_cases)
    case Nil
    with assms d show ?thesis
      by (cases cs) (auto simp: list_repr_def list_remove_node_def only_touches_def dom_def)
  next
    case (snoc bs' b)
    with assms d show ?thesis
      by (cases cs) (auto simp: list_repr_def list_remove_node_def dseg_append only_touches_def dom_def)
  qed
qed

lemma list_find_loop_chain:
  "chain n_next h p as \<Longrightarrow> list_find_loop h p x = Some (if x \<in> set as then x else NULL)"
proof (induction as arbitrary: p)
  case Nil
  then show ?case by (simp add: list_find_loop.simps [of h NULL x])
next
  case (Cons a as)
  then show ?case
    by (auto simp: list_find_loop.simps [of h a x] split: option.splits)
qed

lemma list_find_node_correct:
  "list_repr h l as \<Longrightarrow> list_find_node h l x = Some (if x \<in> set as then x else NULL)"
  unfolding list_find_node_def list_repr_def by (rule list_find_loop_chain) (rule dseg_lseg)

subsection \<open>Iteration\<close>

text \<open>
  \<open>LIST_FOREACH\<close>: the body gets the heap and the caller's state, and may change both; the link to the next
  node is read after it.
\<close>

partial_function (option) list_foreach_loop ::
    "(node heap \<Rightarrow> 's \<Rightarrow> addr \<Rightarrow> (node heap \<times> 's) option) \<Rightarrow> node heap \<Rightarrow> 's \<Rightarrow> addr \<Rightarrow> (node heap \<times> 's) option" where
  "list_foreach_loop body h s node =
     (if node \<noteq> NULL then do { (h, s) \<leftarrow> body h s node; nx \<leftarrow> get_next h node; list_foreach_loop body h s nx }
      else Some (h, s))"

definition LIST_FOREACH ::
    "(node heap \<Rightarrow> 's \<Rightarrow> addr \<Rightarrow> (node heap \<times> 's) option) \<Rightarrow> node heap \<Rightarrow> 's \<Rightarrow> list_t \<Rightarrow> (node heap \<times> 's) option" where
  "LIST_FOREACH body h s l = list_foreach_loop body h s (list_head l)"

lemma list_foreach_loop_chain:
  assumes "\<And>s a. a \<in> set as \<Longrightarrow> body h s a = Some (h, f a s)" and "chain n_next h p as"
  shows "list_foreach_loop body h s p = Some (h, fold f as s)"
  using assms
proof (induction as arbitrary: p s)
  case Nil
  then show ?case by (simp add: list_foreach_loop.simps [of body h s NULL])
next
  case (Cons a as)
  then show ?case by (auto simp: list_foreach_loop.simps [of body h s a] split: option.splits)
qed

text \<open>A body that leaves the nodes alone is run once per node in order; one that frees its node is not allowed.\<close>

lemma LIST_FOREACH_fold:
  assumes "list_repr h l as" and "\<And>s a. a \<in> set as \<Longrightarrow> body h s a = Some (h, f a s)"
  shows "LIST_FOREACH body h s l = Some (h, fold f as s)"
  using list_foreach_loop_chain [of as body h f "list_head l" s] assms dseg_lseg
  unfolding LIST_FOREACH_def list_repr_def by blast

lemma LIST_FOREACH_free:
  assumes "list_repr h l as" "as \<noteq> []" and "\<And>h s a. body h s a = Some (h(a := None), s)"
  shows "LIST_FOREACH body h s l = None"
  using list_repr_head_NULL [OF assms(1)] assms(2)
  by (simp add: LIST_FOREACH_def list_foreach_loop.simps [of body h s] assms(3) deref_def)

subsection \<open>The range check\<close>

text \<open>The node at a position of the list; NULL one step before and one step after it.\<close>

definition pos :: "addr list \<Rightarrow> int \<Rightarrow> addr" where
  "pos as k = (if 0 \<le> k \<and> k < int (length as) then as ! nat k else NULL)"

lemma list_repr_pos:
  assumes "list_repr h l as" and "0 \<le> k" and "k < int (length as)"
  shows "h (pos as k) = Some (mk_node (pos as (k + 1)) (pos as (k - 1)))" and "pos as k \<noteq> NULL"
proof -
  define i where "i = nat k"
  have i: "i < length as" "k = int i" using assms(2,3) by (auto simp: i_def)
  let ?bs = "take i as" and ?cs = "drop (Suc i) as"
  have split: "as = ?bs @ as ! i # ?cs" using i(1) by (simp add: id_take_nth_drop)
  from assms(1) have "dseg h NULL (list_head l) (?bs @ as ! i # ?cs) (list_tail l) NULL"
    by (simp only: list_repr_def flip: split)
  then obtain pv nx where a: "as ! i \<noteq> NULL" "h (as ! i) = Some (mk_node nx pv)"
    and bs: "dseg h NULL (list_head l) ?bs pv (as ! i)" and cs: "dseg h (as ! i) nx ?cs (list_tail l) NULL"
    by (auto simp: dseg_append)
  have "nx = pos as (k + 1)"
    using dseg_first [OF cs] i by (cases "Suc i < length as")
      (auto simp: pos_def Cons_nth_drop_Suc [symmetric] nat_add_distrib)
  moreover have "pv = pos as (k - 1)"
    using dseg_last [OF bs] i by (cases i) (auto simp: pos_def last_conv_nth)
  ultimately show "h (pos as k) = Some (mk_node (pos as (k + 1)) (pos as (k - 1)))" "pos as k \<noteq> NULL"
    using a i by (auto simp: pos_def)
qed

lemma pos_inj:
  assumes "distinct as" and "0 \<le> j" "j < int (length as)" and "0 \<le> k" "k < int (length as)"
  shows "pos as j = pos as k \<longleftrightarrow> j = k"
  using assms by (auto simp: pos_def nth_eq_iff_index_eq)

lemma pos_out [simp]: "k < 0 \<Longrightarrow> pos as k = NULL" "int (length as) \<le> k \<Longrightarrow> pos as k = NULL"
  by (simp_all add: pos_def)

lemma check_links_walk:
  assumes l: "list_repr h l as" and N: "N = int (length as)"
  shows "0 \<le> a \<Longrightarrow> a \<le> N \<Longrightarrow> - 1 \<le> b \<Longrightarrow> b < N \<Longrightarrow> \<not> (a = N \<and> b = - 1) \<Longrightarrow>
    do { (p1, p2) \<leftarrow> check_links_loop h (pos as a) (pos as b) (pos as (a - 1)) (pos as (b + 1));
         links_met h p1 p2 } =
    Some ((a \<le> b \<and> even (b - a)) \<or> a + b + 1 = N)"
proof (induction "nat (N - a)" arbitrary: a b)
  case 0
  then show ?case using N
    by (subst check_links_loop.simps) (simp add: links_met_def)
next
  case (Suc m)
  then have a: "a < N" by simp
  note here = list_repr_pos [OF l]
  have dist: "distinct as" using l unfolding list_repr_def by (rule dseg_distinct)
  note inj = pos_inj [OF dist]
  have a_node: "h (pos as a) = Some (mk_node (pos as (a + 1)) (pos as (a - 1)))" "pos as a \<noteq> NULL"
    using here [of a] Suc.prems a N by auto
  consider "b = - 1" | "0 \<le> b" "a = b" | "0 \<le> b" "a \<noteq> b" using Suc.prems by linarith
  then show ?case
  proof cases
    case 1
    then show ?thesis using a Suc.prems(1) by (subst check_links_loop.simps) (simp add: links_met_def)
  next
    case 2
    then show ?thesis using a_node
      by (subst check_links_loop.simps) (simp add: links_met_def)
  next
    case 3
    have b_node: "h (pos as b) = Some (mk_node (pos as (b + 1)) (pos as (b - 1)))" "pos as b \<noteq> NULL"
      using here [of b] Suc.prems 3 N by auto
    have ne: "pos as a \<noteq> pos as b" using inj [of a b] Suc.prems a 3 N by auto
    show ?thesis
    proof (cases "pos as (a + 1) = pos as (b - 1)")
      case True
      have "a + 1 = b - 1 \<or> (a + 1 = N \<and> b = 0)"
      proof (cases "a + 1 = N")
        case e: True
        then have "pos as (b - 1) = NULL" using True N by simp
        then have "\<not> (0 \<le> b - 1)" using here(2) [of "b - 1"] Suc.prems N by auto
        with e 3 show ?thesis by auto
      next
        case False
        then have "pos as (b - 1) \<noteq> NULL" using True here(2) [of "a + 1"] Suc.prems a N by auto
        then have "0 \<le> b - 1" by (rule contrapos_np) simp
        then show ?thesis using inj [of "a + 1" "b - 1"] True False Suc.prems a N by auto
      qed
      then show ?thesis
        using True a_node b_node ne
        by (subst check_links_loop.simps) (auto simp: links_met_def)
    next
      case False
      then have step: "check_links_loop h (pos as a) (pos as b) (pos as (a - 1)) (pos as (b + 1)) =
          check_links_loop h (pos as (a + 1)) (pos as (b - 1)) (pos as (a + 1 - 1)) (pos as (b - 1 + 1))"
        using a_node b_node ne by (subst check_links_loop.simps) simp
      have "\<not> (a + 1 = N \<and> b - 1 = - 1)" using False N by auto
      moreover have "(a + 1 \<le> b - 1 \<and> even (b - 1 - (a + 1))) = (a \<le> b \<and> even (b - a))"
        using 3 False by (cases "b = a + 2"; cases "b = a + 1") auto
      ultimately show ?thesis
        unfolding step
        using Suc.hyps(1) [of "a + 1" "b - 1"] Suc.hyps(2) Suc.prems a 3 by simp
    qed
  qed
qed

text \<open>On two nodes of a well-formed list \<open>list_check_links\<close> always returns, and accepts the
  range exactly when it has an odd number of nodes, or sits symmetrically in the list: the
  two pointers step towards each other and a range of even length makes them cross.
\<close>

theorem list_check_links_iff:
  assumes "list_repr h l as" and "i < length as" and "j < length as"
  shows "list_check_links h (as ! i) (as ! j) =
    Some ((i \<le> j \<and> even (j - i)) \<or> i + j + 1 = length as)"
proof -
  have at: "as ! i = pos as (int i)" "as ! j = pos as (int j)" using assms(2,3) by (simp_all add: pos_def)
  have nodes: "h (as ! i) = Some (mk_node (pos as (int i + 1)) (pos as (int i - 1)))" "as ! i \<noteq> NULL"
    "h (as ! j) = Some (mk_node (pos as (int j + 1)) (pos as (int j - 1)))" "as ! j \<noteq> NULL"
    using list_repr_pos [OF assms(1), of "int i"] list_repr_pos [OF assms(1), of "int j"] assms(2,3)
    by (simp_all add: at)
  have "distinct as" using assms(1) unfolding list_repr_def by (rule dseg_distinct)
  then have eq: "as ! i = as ! j \<longleftrightarrow> i = j" using assms(2,3) by (simp add: nth_eq_iff_index_eq)
  have "(int i \<le> int j \<and> even (int j - int i)) = (i \<le> j \<and> even (j - i))" by auto
  moreover have "int i + int j + 1 = int (length as) \<longleftrightarrow> i + j + 1 = length as" by linarith
  ultimately have "do { (p1, p2) \<leftarrow> check_links_loop h (as ! i) (as ! j) (pos as (int i - 1)) (pos as (int j + 1));
      links_met h p1 p2 } = Some ((i \<le> j \<and> even (j - i)) \<or> i + j + 1 = length as)"
    using check_links_walk [OF assms(1) refl, of "int i" "int j"] assms(2,3) by (simp add: at)
  then show ?thesis using nodes eq by (auto simp: list_check_links_def)
qed

subsection \<open>Ranges\<close>

lemma dseg_hd: "dseg h b p ms e q \<Longrightarrow> ms \<noteq> [] \<Longrightarrow> hd ms \<noteq> NULL \<and> (\<exists>nx. h (hd ms) = Some (mk_node nx b))"
  by (cases ms) auto

lemma dseg_end: "dseg h b p ms e q \<Longrightarrow> ms \<noteq> [] \<Longrightarrow> last ms \<noteq> NULL \<and> (\<exists>pv. h (last ms) = Some (mk_node q pv))"
  by (cases ms rule: rev_cases) (auto simp: dseg_snoc)

lemma list_check_range:
  assumes "list_repr h l (bs @ ms @ cs)" and "ms \<noteq> []"
  shows "list_check_links h (hd ms) (last ms) = Some (odd (length ms) \<or> length bs = length cs)"
proof -
  let ?as = "bs @ ms @ cs"
  have "?as ! length bs = hd ms" "?as ! (length bs + (length ms - 1)) = last ms"
    using assms(2) by (simp_all add: nth_append hd_conv_nth last_conv_nth)
  moreover have "length bs < length ?as" "length bs + (length ms - 1) < length ?as"
    using assms(2) by (cases ms; simp)+
  ultimately have "list_check_links h (hd ms) (last ms) =
      Some (even (length ms - 1) \<or> length bs + (length bs + (length ms - 1)) + 1 = length ?as)"
    using list_check_links_iff [OF assms(1), of "length bs" "length bs + (length ms - 1)"] by simp
  then show ?thesis using assms(2) by (cases ms) auto
qed

text \<open>\<open>list_remove_nodes\<close> cuts a range out of a list and keeps the rest linked in both
  directions, when its range check accepts it and the range is not the whole list; a range
  the check rejects leaves the list as it was, with code -1.
\<close>

theorem list_remove_nodes_correct:
  assumes "list_repr h l (bs @ ms @ cs)" and "ms \<noteq> []" and "bs @ cs \<noteq> []"
  shows "if odd (length ms) \<or> length bs = length cs
    then \<exists>h' l'. list_remove_nodes h l (hd ms) (last ms) = Some (0, h', l') \<and>
      list_repr h' l' (bs @ cs) \<and> only_touches (set (bs @ cs)) h h'
    else list_remove_nodes h l (hd ms) (last ms) = Some (- 1, h, l)"
proof -
  have d: "distinct (bs @ ms @ cs)" using assms(1) unfolding list_repr_def by (rule dseg_distinct)
  from assms(1) obtain pv s e nx where
    bs: "dseg h NULL (list_head l) bs pv s" and ms: "dseg h pv s ms e nx"
    and cs: "dseg h e nx cs (list_tail l) NULL"
    by (auto simp: list_repr_def dseg_append)
  from dseg_hd [OF ms assms(2)] dseg_end [OF ms assms(2)] obtain sn ep where
    ends: "hd ms \<noteq> NULL" "h (hd ms) = Some (mk_node sn pv)" "last ms \<noteq> NULL" "h (last ms) = Some (mk_node nx ep)"
    by blast
  have "hd ms \<in> set ms" "last ms \<in> set ms" using assms(2) by simp_all
  then have out: "hd ms \<notin> set bs" "hd ms \<notin> set cs" "last ms \<notin> set bs" "last ms \<notin> set cs"
    using d by auto
  have found: "list_find_node h l (hd ms) = Some (hd ms)"
    using list_find_node_correct [OF assms(1)] assms(2) by simp
  note head = found list_check_range [OF assms(1,2)] ends
  have se: "s = hd ms" "e = last ms" using dseg_first [OF ms] dseg_last [OF ms] assms(2) by (cases ms; simp)+
  show ?thesis
  proof (cases "odd (length ms) \<or> length bs = length cs")
    case False
    then show ?thesis using head by (simp add: list_remove_nodes_def)
  next
    case True
    show ?thesis
    proof (cases bs rule: rev_cases)
      case Nil
      then obtain c cs' where "cs = c # cs'" using assms(3) by (cases cs) auto
      with True Nil head bs cs d show ?thesis
        by (auto simp: list_remove_nodes_def list_repr_def only_touches_def dom_def)
    next
      case (snoc bs' b)
      then show ?thesis
        using True head bs cs d out se
        by (cases cs) (auto simp: list_remove_nodes_def list_repr_def dseg_append dseg_snoc
            only_touches_def dom_def)
    qed
  qed
qed

text \<open>Removing the whole list forgets to clear the tail, which then dangles.\<close>

lemma list_remove_nodes_whole:
  assumes "list_repr h l ms" and "ms \<noteq> []"
  shows "list_remove_nodes h l (hd ms) (last ms) =
    Some (0, h, \<lparr>list_head = NULL, list_tail = last ms\<rparr>)"
proof -
  have m: "dseg h NULL (list_head l) ms (list_tail l) NULL" using assms(1) by (simp add: list_repr_def)
  from dseg_hd [OF m assms(2)] dseg_end [OF m assms(2)] dseg_last [OF m] show ?thesis
    using list_check_range [of h l "[]" ms "[]"] list_find_node_correct [OF assms(1), of "hd ms"] assms
    by (cases l) (auto simp: list_remove_nodes_def)
qed

text \<open>\<open>list_insert_node\<close> puts a fresh node after the node given, or at the head for NULL, as
  long as some node follows; with no successor (an empty list, or after the tail) it
  dereferences NULL.
\<close>

theorem list_insert_node_correct:
  assumes "list_repr h l (bs @ cs)" and "fresh_node h (bs @ cs) x"
  shows "if cs \<noteq> []
    then \<exists>h' l'. list_insert_node h l (if bs = [] then NULL else last bs) x = Some (h', l') \<and>
      list_repr h' l' (bs @ x # cs) \<and> only_touches (insert x (set (bs @ cs))) h h'
    else list_insert_node h l (if bs = [] then NULL else last bs) x = None"
proof -
  have d: "distinct (bs @ cs)" using assms(1) unfolding list_repr_def by (rule dseg_distinct)
  obtain nx pv where x: "h x = Some (mk_node nx pv)" "x \<noteq> NULL" "x \<notin> set (bs @ cs)"
    using assms(2) by (rule fresh_nodeE)
  show ?thesis
  proof (cases bs rule: rev_cases)
    case Nil
    with assms(1) x d show ?thesis
      by (cases cs) (auto simp: list_insert_node_def list_repr_def only_touches_def dom_def)
  next
    case (snoc bs' b)
    with assms(1) x d show ?thesis
      by (cases cs) (auto simp: list_insert_node_def list_repr_def dseg_append only_touches_def dom_def)
  qed
qed

lemma list_check_whole:
  "dseg h NULL start ms end' NULL \<Longrightarrow> ms \<noteq> [] \<Longrightarrow> list_check_links h start end' = Some True"
  using list_check_range [of h "\<lparr>list_head = start, list_tail = end'\<rparr>" "[]" ms "[]"]
    dseg_first [of h NULL start ms end' NULL] dseg_last [of h NULL start ms end' NULL]
  by (cases ms) (auto simp: list_repr_def)

text \<open>\<open>list_insert_nodes\<close> splices a free-standing chain of any length after a node of the
  list, the tail included, or makes it the content of an empty list.
\<close>

theorem list_insert_nodes_correct:
  assumes "list_repr h l (bs @ cs)" and "dseg h NULL start ms end' NULL" and "ms \<noteq> []"
    and "set ms \<inter> set (bs @ cs) = {}" and "bs \<noteq> [] \<or> cs = []"
  shows "\<exists>h' l'. list_insert_nodes h l (if bs = [] then NULL else last bs) start end' = Some (0, h', l') \<and>
    list_repr h' l' (bs @ ms @ cs) \<and> only_touches (set (bs @ ms @ cs)) h h'"
proof (cases bs rule: rev_cases)
  case Nil
  with assms show ?thesis
    by (auto simp: list_insert_nodes_def list_check_whole list_repr_def)
next
  case (snoc bs' b)
  have d: "distinct (bs @ cs)" using assms(1) unfolding list_repr_def by (rule dseg_distinct)
  have dm: "distinct ms" using assms(2) by (rule dseg_distinct)
  have ne: "list_head l \<noteq> NULL" using list_repr_head_NULL [OF assms(1)] snoc by simp
  note ok = list_check_whole [OF assms(2,3)]
  from assms(3) consider (one) m where "ms = [m]" | (more) m ms' m' where "ms = m # ms' @ [m']"
    by (metis append_butlast_last_id list.exhaust)
  then show ?thesis
  proof cases
    case one
    with assms snoc d ne ok show ?thesis
      by (cases cs) (auto simp: list_insert_nodes_def list_repr_def dseg_append only_touches_def dom_def)
  next
    case more
    with assms snoc d dm ne ok show ?thesis
      by (cases cs) (auto simp: list_insert_nodes_def list_repr_def dseg_append only_touches_def dom_def)
  qed
qed

lemma last_notin_butlast: "distinct ms \<Longrightarrow> ms \<noteq> [] \<Longrightarrow> last ms \<notin> set (butlast ms)"
  by (cases ms rule: rev_cases) auto

text \<open>With no node given, \<open>list_insert_nodes\<close> prepends the chain but leaves the \<open>prev\<close> link of
  the old first node at NULL: what it leaves behind is not a doubly linked list of any nodes.
\<close>

theorem list_insert_nodes_prepend_breaks:
  assumes "list_repr h l (a # as)" and "dseg h NULL start ms end' NULL" and "ms \<noteq> []"
    and "set ms \<inter> set (a # as) = {}"
  shows "\<exists>h' l'. list_insert_nodes h l NULL start end' = Some (0, h', l') \<and>
    chain n_next h' (list_head l') (ms @ a # as) \<and> \<not> list_repr h' l' xs"
proof -
  have dm: "distinct ms" using assms(2) by (rule dseg_distinct)
  have d: "distinct (a # as)" using assms(1) unfolding list_repr_def by (rule dseg_distinct)
  note ok = list_check_whole [OF assms(2,3)]
  have start: "start = hd ms" "end' = last ms" "hd ms \<noteq> NULL"
    using dseg_first [OF assms(2)] dseg_last [OF assms(2)] dseg_hd [OF assms(2,3)] assms(3)
    by (cases ms; simp)+
  obtain nx where a: "list_head l = a" "a \<noteq> NULL" "h a = Some (mk_node nx NULL)"
    and as: "chain n_next h nx as"
    using assms(1) by (auto simp: list_repr_def dest: dseg_lseg)
  obtain pv where e: "h (last ms) = Some (mk_node NULL pv)" "last ms \<noteq> NULL"
    using dseg_end [OF assms(2,3)] by blast
  let ?h1 = "h(last ms \<mapsto> mk_node a pv)"
  obtain m where m: "?h1 (hd ms) = Some m" "n_prev m = NULL"
    using dseg_hd [OF assms(2,3)] e by (cases "hd ms = last ms") auto
  let ?h2 = "?h1(hd ms \<mapsto> m\<lparr>n_prev := NULL\<rparr>)"
  have "m\<lparr>n_prev := NULL\<rparr> = m" using m(2) by (cases m) simp
  then have h2: "?h2 = ?h1" using map_upd_triv [of ?h1 "hd ms" m] m(1) by simp
  have res: "list_insert_nodes h l NULL start end' = Some (0, ?h2, l\<lparr>list_head := start\<rparr>)"
    using ok a e m start by (auto simp: list_insert_nodes_def)
  have seg: "lseg n_next ?h1 start (butlast ms @ [last ms]) a"
    using dseg_lseg [OF assms(2)] last_notin_butlast [OF dm assms(3)] assms(3)
    by (intro lseg_snoc_upd) auto
  have "last ms \<notin> set (a # as)" using assms(3,4) by (metis disjoint_iff last_in_set)
  then have "chain n_next ?h1 a (a # as)" using a as by simp
  with seg assms(3) have chn: "chain n_next ?h1 start (ms @ a # as)"
    by (auto simp: lseg_append)
  have "\<not> list_repr ?h1 (l\<lparr>list_head := start\<rparr>) xs"
  proof
    assume r: "list_repr ?h1 (l\<lparr>list_head := start\<rparr>) xs"
    then have "chain n_next ?h1 start xs" by (auto simp: list_repr_def dest: dseg_lseg)
    with chn have "xs = ms @ a # as" by (metis chain_unique)
    with r assms(3) obtain e' where "?h1 a = Some e'" "n_prev e' = last ms"
      by (auto simp: list_repr_def dseg_append dest: dseg_last)
    then show False using a e \<open>last ms \<notin> set (a # as)\<close> by auto
  qed
  with res h2 chn show ?thesis by auto
qed

subsection \<open>A concrete list\<close>

text \<open>Three linked nodes and a loose pair; the witnesses run the theorems on them.\<close>

definition three_nodes :: "node heap" where
  "three_nodes = [11 \<mapsto> mk_node 12 0, 12 \<mapsto> mk_node 13 11, 13 \<mapsto> mk_node 0 12, 14 \<mapsto> mk_node 15 0, 15 \<mapsto> mk_node 0 14]"

definition three_list :: "list_t" where
  "three_list = \<lparr>list_head = 11, list_tail = 13\<rparr>"

lemma three_nodes_repr: "list_repr three_nodes three_list [11, 12, 13]"
  by (simp add: list_repr_def three_nodes_def three_list_def)

lemma loose_pair: "dseg three_nodes NULL 14 [14, 15] 15 NULL"
  by (simp add: three_nodes_def)

theorem list_remove_node_correct_witness:
  "\<exists>h' l'. list_remove_node three_nodes three_list 12 = Some (h', l') \<and> list_repr h' l' ([11] @ [13]) \<and>
    only_touches (set ([11] @ [13])) three_nodes h'"
  by (rule list_remove_node_correct) (simp add: three_nodes_repr)

theorem list_check_links_iff_witness:
  "list_check_links three_nodes ([11, 12, 13] ! 0) ([11, 12, 13] ! 1) =
    Some ((0 \<le> (1 :: nat) \<and> even (1 - 0 :: nat)) \<or> 0 + 1 + 1 = length [11, 12, 13 :: addr])"
  by (rule list_check_links_iff [OF three_nodes_repr]) simp_all

theorem list_remove_nodes_correct_witness:
  "if odd (length [12, 13 :: addr]) \<or> length [11 :: addr] = length ([] :: addr list)
    then \<exists>h' l'. list_remove_nodes three_nodes three_list (hd [12, 13]) (last [12, 13]) = Some (0, h', l') \<and>
      list_repr h' l' ([11] @ []) \<and> only_touches (set ([11] @ [])) three_nodes h'
    else list_remove_nodes three_nodes three_list (hd [12, 13]) (last [12, 13]) = Some (- 1, three_nodes, three_list)"
  by (rule list_remove_nodes_correct) (simp_all add: three_nodes_repr)

theorem list_insert_node_correct_witness:
  "if [12, 13 :: addr] \<noteq> []
    then \<exists>h' l'. list_insert_node three_nodes three_list (if [11 :: addr] = [] then NULL else last [11]) 14 = Some (h', l') \<and>
      list_repr h' l' ([11] @ 14 # [12, 13]) \<and> only_touches (insert 14 (set ([11] @ [12, 13]))) three_nodes h'
    else list_insert_node three_nodes three_list (if [11 :: addr] = [] then NULL else last [11]) 14 = None"
proof (rule list_insert_node_correct)
  show "fresh_node three_nodes ([11] @ [12, 13]) 14" by (simp add: fresh_node_def three_nodes_def)
qed (simp add: three_nodes_repr)

theorem list_insert_nodes_correct_witness:
  "\<exists>h' l'. list_insert_nodes three_nodes three_list (if [11, 12, 13 :: addr] = [] then NULL else last [11, 12, 13]) 14 15 = Some (0, h', l') \<and>
    list_repr h' l' ([11, 12, 13] @ [14, 15] @ []) \<and> only_touches (set ([11, 12, 13] @ [14, 15] @ [])) three_nodes h'"
  by (rule list_insert_nodes_correct) (simp_all add: three_nodes_repr loose_pair [simplified])

theorem list_insert_nodes_prepend_breaks_witness:
  "\<exists>h' l'. list_insert_nodes three_nodes three_list NULL 14 15 = Some (0, h', l') \<and>
    chain n_next h' (list_head l') ([14, 15] @ 11 # [12, 13]) \<and> \<not> list_repr h' l' [14, 15, 11, 12, 13]"
  by (rule list_insert_nodes_prepend_breaks) (simp_all add: three_nodes_repr loose_pair [simplified])

end
