(* ===== verification/SList.thy ===== *)
theory SList
  imports CList BufferSpec
begin

text \<open>
  The singly linked list of \<open>src/list.c\<close>, and the containers built on the two lists: the FIFO
  queue of \<open>src/queue.c\<close> (doubly linked) and the stack of \<open>src/stack.c\<close> (singly linked).  A
  singly linked list holds \<open>as\<close> when its head starts a NULL-terminated chain of them.  The
  queue and the stack instantiate the contract of \<open>BufferSpec\<close> with unbounded capacity.
\<close>

record snode =
  s_next :: addr

record slist_t =
  slist_head :: addr

abbreviation set_snext :: "snode heap \<Rightarrow> addr \<Rightarrow> addr \<Rightarrow> snode heap option" where
  "set_snext h p v \<equiv> update h p (s_next_update (\<lambda>_. v))"

abbreviation get_snext :: "snode heap \<Rightarrow> addr \<Rightarrow> addr option" where
  "get_snext h p \<equiv> map_option s_next (deref h p)"

subsection \<open>The operations\<close>

definition slist_init :: "slist_t" where
  "slist_init = \<lparr>slist_head = NULL\<rparr>"

text \<open>\<open>while (p && p->next) p = p->next\<close>.\<close>

partial_function (option) slist_last_loop :: "snode heap \<Rightarrow> addr \<Rightarrow> addr option" where
  "slist_last_loop h p =
     (if p = NULL then Some p
      else do {
        nx \<leftarrow> get_snext h p;
        if nx = NULL then Some p else slist_last_loop h nx
      })"

definition slist_append :: "snode heap \<Rightarrow> slist_t \<Rightarrow> addr \<Rightarrow> addr \<Rightarrow> (snode heap \<times> slist_t) option" where
  "slist_append h l after node = do {
     let p = (if after \<noteq> NULL then after else slist_head l);
     (h, l) \<leftarrow>
       (if p = NULL then Some (h, l\<lparr>slist_head := node\<rparr>)
        else do {
          p \<leftarrow> slist_last_loop h p;
          h \<leftarrow> set_snext h p node;
          Some (h, l)
        });
     h \<leftarrow> set_snext h node NULL;
     Some (h, l)
   }"

definition slist_appendleft :: "snode heap \<Rightarrow> slist_t \<Rightarrow> addr \<Rightarrow> (snode heap \<times> slist_t) option" where
  "slist_appendleft h l node = do {
     h \<leftarrow> set_snext h node (slist_head l);
     Some (h, l\<lparr>slist_head := node\<rparr>)
   }"

text \<open>\<open>while (n2 && n2->next) { n1 = n1->next; n2 = n2->next; }\<close>.\<close>

partial_function (option) slist_pop_loop :: "snode heap \<Rightarrow> addr \<Rightarrow> addr \<Rightarrow> (addr \<times> addr) option" where
  "slist_pop_loop h n1 n2 =
     (if n2 = NULL then Some (n1, n2)
      else do {
        nx2 \<leftarrow> get_snext h n2;
        if nx2 = NULL then Some (n1, n2)
        else do { nx1 \<leftarrow> get_snext h n1; slist_pop_loop h nx1 nx2 }
      })"

text \<open>The node stored through \<open>*node\<close> is NULL when \<open>after\<close> is the last node.\<close>

definition slist_pop :: "snode heap \<Rightarrow> slist_t \<Rightarrow> addr \<Rightarrow> (int \<times> addr option \<times> snode heap \<times> slist_t) option" where
  "slist_pop h l after =
     (if slist_head l = NULL then Some (- 1, None, h, l)
      else do {
        nx \<leftarrow> get_snext h (slist_head l);
        if nx = NULL then Some (0, Some (slist_head l), h, l\<lparr>slist_head := NULL\<rparr>)
        else do {
          let n1 = (if after \<noteq> NULL then after else slist_head l);
          n2 \<leftarrow> get_snext h n1;
          (n1, n2) \<leftarrow> slist_pop_loop h n1 n2;
          h \<leftarrow> set_snext h n1 NULL;
          Some (0, Some n2, h, l)
        }
      })"

definition slist_popleft :: "snode heap \<Rightarrow> slist_t \<Rightarrow> (int \<times> addr option \<times> snode heap \<times> slist_t) option" where
  "slist_popleft h l =
     (if slist_head l = NULL then Some (- 1, None, h, l)
      else do {
        let node = slist_head l;
        nx \<leftarrow> get_snext h (slist_head l);
        Some (0, Some node, h, l\<lparr>slist_head := nx\<rparr>)
      })"

text \<open>\<open>while (cur && cur != node) { prev = cur; cur = cur->next; }\<close>.\<close>

partial_function (option) slist_find_loop ::
    "snode heap \<Rightarrow> addr \<Rightarrow> addr \<Rightarrow> addr \<Rightarrow> (addr \<times> addr) option" where
  "slist_find_loop h prev cur node =
     (if cur \<noteq> NULL \<and> cur \<noteq> node
      then do { nx \<leftarrow> get_snext h cur; slist_find_loop h cur nx node }
      else Some (prev, cur))"

definition slist_remove_node :: "snode heap \<Rightarrow> slist_t \<Rightarrow> addr \<Rightarrow> (int \<times> snode heap \<times> slist_t) option" where
  "slist_remove_node h l node = do {
     (prev, cur) \<leftarrow> slist_find_loop h NULL (slist_head l) node;
     if cur = NULL then Some (- 1, h, l)
     else do {
       nx \<leftarrow> get_snext h cur;
       if prev = NULL then Some (0, h, l\<lparr>slist_head := nx\<rparr>)
       else do { h \<leftarrow> set_snext h prev nx; Some (0, h, l) }
     }
   }"

definition slist_insert_node :: "snode heap \<Rightarrow> slist_t \<Rightarrow> addr \<Rightarrow> addr \<Rightarrow> (snode heap \<times> slist_t) option" where
  "slist_insert_node h l after newNode =
     (if after = NULL then do {
        h \<leftarrow> set_snext h newNode (slist_head l);
        Some (h, l\<lparr>slist_head := newNode\<rparr>)
      } else do {
        nx \<leftarrow> get_snext h after;
        h \<leftarrow> set_snext h newNode nx;
        h \<leftarrow> set_snext h after newNode;
        Some (h, l)
      })"

definition slist_repr :: "snode heap \<Rightarrow> slist_t \<Rightarrow> addr list \<Rightarrow> bool" where
  "slist_repr h l as \<longleftrightarrow> chain s_next h (slist_head l) as"

definition sfresh :: "snode heap \<Rightarrow> addr list \<Rightarrow> addr \<Rightarrow> bool" where
  "sfresh h as x \<longleftrightarrow> x \<noteq> NULL \<and> x \<in> dom h \<and> x \<notin> set as"

subsection \<open>Walking a chain\<close>

declare lseg.simps(2) [simp del] lseg_Cons_iff [simp]

lemma lseg_end: "lseg nx h p as q \<Longrightarrow> q \<noteq> NULL \<Longrightarrow> p \<noteq> NULL"
  by (cases as) auto

lemma lseg_start: "lseg nx h p as q \<Longrightarrow> as \<noteq> [] \<Longrightarrow> p \<noteq> NULL"
  by (cases as) auto

lemma slist_last_loop_chain:
  "chain s_next h p (as @ [a]) \<Longrightarrow> slist_last_loop h p = Some a"
proof (induction as arbitrary: p)
  case Nil
  then show ?case by (subst slist_last_loop.simps) (auto split: option.splits)
next
  case (Cons b as)
  then obtain n where n: "p = b" "b \<noteq> NULL" "h b = Some n" "chain s_next h (s_next n) (as @ [a])"
    by (auto split: option.splits)
  then have "s_next n \<noteq> NULL" using lseg_start [OF n(4)] by simp
  with n Cons.IH [OF n(4)] show ?case by (subst slist_last_loop.simps) simp
qed

lemma slist_pop_loop_chain:
  "chain s_next h n1 (as @ [y, x]) \<Longrightarrow> get_snext h n1 = Some n2 \<Longrightarrow>
    slist_pop_loop h n1 n2 = Some (y, x)"
proof (induction as arbitrary: n1 n2)
  case Nil
  then show ?case by (subst slist_pop_loop.simps) (auto split: option.splits)
next
  case (Cons b as)
  then obtain n where n: "n1 = b" "b \<noteq> NULL" "h b = Some n" "chain s_next h n2 (as @ [y, x])"
    by (auto split: option.splits)
  obtain c cs where as: "as @ [y, x] = c # cs" "cs \<noteq> []" by (cases as) auto
  with n(4) obtain m where m: "n2 \<noteq> NULL" "h n2 = Some m" "s_next m \<noteq> NULL"
    using lseg_start by fastforce
  with n Cons.IH [OF n(4), of "s_next m"] Cons.prems(2) show ?case
    by (subst slist_pop_loop.simps) simp
qed

lemma slist_find_loop_chain:
  "chain s_next h cur as \<Longrightarrow> x \<notin> set as \<Longrightarrow> \<exists>pv. slist_find_loop h prev cur x = Some (pv, NULL)"
proof (induction as arbitrary: prev cur)
  case Nil
  then show ?case by (subst slist_find_loop.simps) simp
next
  case (Cons b as)
  then show ?case by (subst slist_find_loop.simps) (auto split: option.splits)
qed

lemma slist_find_loop_found:
  "chain s_next h cur (bs @ x # cs) \<Longrightarrow> x \<notin> set bs \<Longrightarrow>
    slist_find_loop h prev cur x = Some (if bs = [] then prev else last bs, x)"
proof (induction bs arbitrary: prev cur)
  case Nil
  then show ?case by (subst slist_find_loop.simps) (auto split: option.splits)
next
  case (Cons b bs)
  then show ?case by (subst slist_find_loop.simps) (auto split: option.splits)
qed

lemma slist_repr_distinct: "slist_repr h l as \<Longrightarrow> distinct as"
  unfolding slist_repr_def by (rule chain_distinct)

lemma slist_repr_unique: "slist_repr h l as \<Longrightarrow> slist_repr h l bs \<Longrightarrow> as = bs"
  unfolding slist_repr_def by (rule chain_unique)

lemma slist_repr_suffix:
  "slist_repr h l as \<Longrightarrow> a \<in> set as \<Longrightarrow> \<exists>bs cs. as = bs @ a # cs \<and> chain s_next h a (a # cs)"
proof -
  assume l: "slist_repr h l as" "a \<in> set as"
  then obtain bs cs where as: "as = bs @ a # cs" by (auto dest: split_list)
  with l(1) have "chain s_next h a (a # cs)" by (auto simp: slist_repr_def lseg_append)
  with as show ?thesis by blast
qed

subsection \<open>What the operations do\<close>

lemma slist_repr_init: "slist_repr h slist_init []"
  by (simp add: slist_repr_def slist_init_def)

lemma slist_appendleft_correct:
  "slist_repr h l as \<Longrightarrow> sfresh h as x \<Longrightarrow>
    \<exists>h' l'. slist_appendleft h l x = Some (h', l') \<and> slist_repr h' l' (x # as) \<and>
      dom h' = dom h \<and> (\<forall>a. a \<noteq> x \<longrightarrow> h' a = h a)"
  by (auto simp: slist_appendleft_def slist_repr_def sfresh_def)

lemma slist_popleft_correct:
  "slist_repr h l (x # as) \<Longrightarrow> \<exists>l'. slist_popleft h l = Some (0, Some x, h, l') \<and> slist_repr h l' as"
  by (auto simp: slist_popleft_def slist_repr_def split: option.splits)

lemma slist_popleft_empty: "slist_repr h l [] \<Longrightarrow> slist_popleft h l = Some (- 1, None, h, l)"
  by (simp add: slist_popleft_def slist_repr_def)

text \<open>\<open>slist_append\<close> adds a fresh node at the end of the list, for whichever node of the list
  (or NULL) it is told to start from.
\<close>

theorem slist_append_correct:
  assumes "slist_repr h l as" and "sfresh h as x" and "after = NULL \<or> after \<in> set as"
  shows "\<exists>h' l'. slist_append h l after x = Some (h', l') \<and> slist_repr h' l' (as @ [x])"
proof (cases as rule: rev_cases)
  case Nil
  with assms show ?thesis by (auto simp: slist_append_def slist_repr_def sfresh_def)
next
  case (snoc bs t)
  let ?p = "if after \<noteq> NULL then after else slist_head l"
  have hd: "slist_head l \<in> set as" using assms(1) snoc
    by (cases bs) (auto simp: slist_repr_def split: option.splits)
  then have "?p \<in> set as" using assms(3) by auto
  then have p0: "?p \<noteq> NULL" using lseg_alloc [OF assms(1) [unfolded slist_repr_def]] by blast
  from slist_repr_suffix [OF assms(1) \<open>?p \<in> set as\<close>] obtain as1 cs where
    "as = as1 @ ?p # cs" "chain s_next h ?p (?p # cs)" by blast
  then obtain ds where "chain s_next h ?p (ds @ [t])"
    using snoc by (metis append_butlast_last_id last_appendR last_snoc list.distinct(1))
  from slist_last_loop_chain [OF this] have loop: "slist_last_loop h ?p = Some t" .
  obtain n where t: "t \<noteq> NULL" "h t = Some n" "lseg s_next h (slist_head l) bs t"
    using assms(1) snoc by (auto simp: slist_repr_def lseg_append split: option.splits)
  obtain m where x: "x \<noteq> NULL" "h x = Some m" "x \<notin> set as" using assms(2) by (auto simp: sfresh_def)
  have d: "t \<notin> set bs" using slist_repr_distinct [OF assms(1)] snoc by auto
  show ?thesis using p0 loop t x d snoc
    by (auto simp: slist_append_def slist_repr_def lseg_append Let_def)
qed

lemma split_two:
  "bs @ [y, x] = as @ p # cs \<Longrightarrow> p \<noteq> x \<Longrightarrow> \<exists>ds. p # cs = ds @ [y, x]"
  by (cases cs rule: rev_cases; cases "butlast cs" rule: rev_cases) (auto simp: Cons_eq_append_conv append_eq_append_conv2)

text \<open>\<open>slist_pop\<close> removes the last node and hands it out, for any node before it (or NULL) to
  start from; started from the last node itself it removes nothing, yet returns 0 and hands
  out NULL.
\<close>

theorem slist_pop_correct:
  assumes "slist_repr h l (as @ [x])" and "after = NULL \<or> after \<in> set (as @ [x])"
  shows "if as = [] \<or> after \<noteq> x
    then \<exists>h' l'. slist_pop h l after = Some (0, Some x, h', l') \<and> slist_repr h' l' as
    else \<exists>h' l'. slist_pop h l after = Some (0, Some NULL, h', l') \<and> slist_repr h' l' (as @ [x])"
proof (cases as rule: rev_cases)
  case Nil
  with assms show ?thesis by (auto simp: slist_pop_def slist_repr_def split: option.splits)
next
  case (snoc bs y)
  let ?p = "if after \<noteq> NULL then after else slist_head l"
  have d: "distinct (as @ [x])" using assms(1) by (rule slist_repr_distinct)
  obtain n where hd: "slist_head l \<noteq> NULL" "slist_head l \<in> set as" "h (slist_head l) = Some n" "s_next n \<noteq> NULL"
    using assms(1) snoc by (cases bs) (auto simp: slist_repr_def lseg_append dest: lseg_end)
  obtain m k where yx: "y \<noteq> NULL" "h y = Some m" "s_next m = x" "lseg s_next h (slist_head l) bs y"
    "x \<noteq> NULL" "h x = Some k" "s_next k = NULL"
    using assms(1) snoc by (auto simp: slist_repr_def lseg_append split: option.splits)
  show ?thesis
  proof (cases "after = x")
    case True
    have "slist_pop_loop h x NULL = Some (x, NULL)" by (subst slist_pop_loop.simps) simp
    moreover have "k\<lparr>s_next := NULL\<rparr> = k" using yx by (cases k) simp
    then have "h(x \<mapsto> k\<lparr>s_next := NULL\<rparr>) = h" using yx by (simp add: map_upd_triv)
    ultimately show ?thesis using True hd yx snoc assms(1) by (auto simp: slist_pop_def Let_def)
  next
    case False
    have "?p \<in> set as" using assms(2) False hd by auto
    then have p: "?p \<in> set (as @ [x])" by simp
    then obtain n2 where p2: "?p \<noteq> NULL" "get_snext h ?p = Some n2"
      using lseg_alloc [OF assms(1) [unfolded slist_repr_def] p] by auto
    from slist_repr_suffix [OF assms(1) p] obtain as1 cs where
      sp: "as @ [x] = as1 @ ?p # cs" "chain s_next h ?p (?p # cs)" by blast
    have "?p \<noteq> x" using \<open>?p \<in> set as\<close> d by auto
    then obtain ds where "?p # cs = ds @ [y, x]"
      using sp(1) snoc split_two [of bs y x as1 ?p cs] by auto
    then have "slist_pop_loop h ?p n2 = Some (y, x)"
      using slist_pop_loop_chain sp(2) p2(2) by metis
    then show ?thesis using False p2 hd yx snoc d
      by (auto simp: slist_pop_def slist_repr_def lseg_append Let_def)
  qed
qed

text \<open>\<open>slist_remove_node\<close> takes a node out wherever it is and keeps the order of the others;
  for a node that is not in the list it returns -1 and changes nothing.
\<close>

theorem slist_remove_node_correct:
  assumes "slist_repr h l as"
  shows "if x \<in> set as
    then \<exists>h' l'. slist_remove_node h l x = Some (0, h', l') \<and> slist_repr h' l' (remove1 x as)
    else slist_remove_node h l x = Some (- 1, h, l)"
proof (cases "x \<in> set as")
  case False
  then show ?thesis
    using slist_find_loop_chain [OF assms [unfolded slist_repr_def] False, of NULL]
    by (auto simp: slist_remove_node_def)
next
  case True
  then obtain bs cs where as: "as = bs @ x # cs" "x \<notin> set bs" by (metis split_list_first)
  have d: "distinct as" using assms by (rule slist_repr_distinct)
  from assms as obtain n where x: "x \<noteq> NULL" "h x = Some n" "lseg s_next h (slist_head l) bs x"
      "chain s_next h (s_next n) cs"
    by (auto simp: slist_repr_def lseg_append split: option.splits)
  note loop = slist_find_loop_found [OF assms [unfolded slist_repr_def as(1)] as(2), of NULL]
  have r: "remove1 x as = bs @ cs" using as by (simp add: remove1_append)
  show ?thesis
  proof (cases bs rule: rev_cases)
    case Nil
    with True r loop x show ?thesis by (auto simp: slist_remove_node_def slist_repr_def)
  next
    case (snoc bs' b)
    with d as have "b \<notin> set bs'" "b \<notin> set cs" by auto
    with True r loop x snoc show ?thesis
      by (auto simp: slist_remove_node_def slist_repr_def lseg_append)
  qed
qed

lemma slist_insert_node_correct:
  assumes "slist_repr h l (bs @ cs)" and "sfresh h (bs @ cs) x"
  shows "\<exists>h' l'. slist_insert_node h l (if bs = [] then NULL else last bs) x = Some (h', l') \<and>
    slist_repr h' l' (bs @ x # cs)"
proof (cases bs rule: rev_cases)
  case Nil
  with assms show ?thesis by (auto simp: slist_insert_node_def slist_repr_def sfresh_def)
next
  case (snoc bs' b)
  with slist_repr_distinct [OF assms(1)] have "b \<notin> set bs'" "b \<notin> set cs" by auto
  with assms snoc show ?thesis
    by (auto simp: slist_insert_node_def slist_repr_def sfresh_def lseg_append)
qed

text \<open>Two linked nodes and a loose one.\<close>

definition two_snodes :: "snode heap" where
  "two_snodes = [11 \<mapsto> \<lparr>s_next = 12\<rparr>, 12 \<mapsto> \<lparr>s_next = 0\<rparr>, 13 \<mapsto> \<lparr>s_next = 0\<rparr>]"

lemma two_snodes_repr: "slist_repr two_snodes \<lparr>slist_head = 11\<rparr> [11, 12]"
  by (simp add: slist_repr_def two_snodes_def)

theorem slist_append_correct_witness:
  "\<exists>h' l'. slist_append two_snodes \<lparr>slist_head = 11\<rparr> 11 13 = Some (h', l') \<and> slist_repr h' l' ([11, 12] @ [13])"
  by (rule slist_append_correct) (simp_all add: two_snodes_repr sfresh_def, simp add: two_snodes_def)

theorem slist_pop_correct_witness:
  "if [11 :: addr] = [] \<or> (12 :: addr) \<noteq> 12
    then \<exists>h' l'. slist_pop two_snodes \<lparr>slist_head = 11\<rparr> 12 = Some (0, Some 12, h', l') \<and> slist_repr h' l' [11]
    else \<exists>h' l'. slist_pop two_snodes \<lparr>slist_head = 11\<rparr> 12 = Some (0, Some NULL, h', l') \<and> slist_repr h' l' ([11] @ [12])"
  by (rule slist_pop_correct) (simp_all add: two_snodes_repr)

theorem slist_remove_node_correct_witness:
  "if (12 :: addr) \<in> set [11, 12]
    then \<exists>h' l'. slist_remove_node two_snodes \<lparr>slist_head = 11\<rparr> 12 = Some (0, h', l') \<and> slist_repr h' l' (remove1 12 [11, 12])
    else slist_remove_node two_snodes \<lparr>slist_head = 11\<rparr> 12 = Some (- 1, two_snodes, \<lparr>slist_head = 11\<rparr>)"
  by (rule slist_remove_node_correct) (rule two_snodes_repr)

subsection \<open>The queue\<close>

record queue_t =
  queue_list :: list_t

definition queue_init :: "queue_t" where
  "queue_init = \<lparr>queue_list = list_init\<rparr>"

definition queue_enqueue :: "node heap \<Rightarrow> queue_t \<Rightarrow> addr \<Rightarrow> (node heap \<times> queue_t) option" where
  "queue_enqueue h qu node = do {
     (h, l) \<leftarrow> list_append h (queue_list qu) node;
     Some (h, qu\<lparr>queue_list := l\<rparr>)
   }"

definition queue_dequeue :: "node heap \<Rightarrow> queue_t \<Rightarrow> (int \<times> addr option \<times> node heap \<times> queue_t) option" where
  "queue_dequeue h qu = do {
     (rc, node, h, l) \<leftarrow> list_popleft h (queue_list qu);
     Some (rc, node, h, qu\<lparr>queue_list := l\<rparr>)
   }"

definition queue_peek_last :: "queue_t \<Rightarrow> int \<times> addr option" where
  "queue_peek_last qu =
     (if list_tail (queue_list qu) = NULL then (- 1, None)
      else (0, Some (list_tail (queue_list qu))))"

definition queue_peek_first :: "queue_t \<Rightarrow> int \<times> addr option" where
  "queue_peek_first qu =
     (if list_head (queue_list qu) = NULL then (- 1, None)
      else (0, Some (list_head (queue_list qu))))"

definition queue_repr :: "node heap \<Rightarrow> queue_t \<Rightarrow> addr list \<Rightarrow> bool" where
  "queue_repr h qu as \<longleftrightarrow> list_repr h (queue_list qu) as"

text \<open>
  The instance: the state pairs the heap with the queue; nodes may be offered when they are
  distinct, allocated and not in the queue.
\<close>

definition queue_fits :: "node heap \<times> queue_t \<Rightarrow> addr list \<Rightarrow> bool" where
  "queue_fits s ys \<longleftrightarrow> distinct ys \<and>
     (\<exists>xs. queue_repr (fst s) (snd s) xs \<and> (\<forall>y \<in> set ys. fresh_node (fst s) xs y))"

definition queue_put :: "node heap \<times> queue_t \<Rightarrow> addr \<Rightarrow> (int \<times> node heap \<times> queue_t) option" where
  "queue_put s x = map_option (\<lambda>s'. (0, s')) (queue_enqueue (fst s) (snd s) x)"

definition queue_get :: "node heap \<times> queue_t \<Rightarrow> (int \<times> addr option \<times> node heap \<times> queue_t) option" where
  "queue_get s = queue_dequeue (fst s) (snd s)"

lemmas queue_defs = queue_repr_def queue_fits_def queue_put_def queue_get_def queue_enqueue_def
  queue_dequeue_def

lemma queue_fitsD: "queue_repr h qu xs \<Longrightarrow> queue_fits (h, qu) ys \<longleftrightarrow>
    distinct ys \<and> (\<forall>y \<in> set ys. fresh_node h xs y)"
  by (auto simp: queue_fits_def queue_repr_def dest: list_repr_unique)

interpretation queue: disciplined "\<lambda>s. queue_repr (fst s) (snd s)" "\<lambda>_. \<infinity>" queue_fits queue_put
  Fifo queue_get
proof
  fix s xs x ys
  assume a: "queue_repr (fst s) (snd s) xs" "queue_fits s (x # ys)"
  obtain h qu where s: "s = (h, qu)" by (cases s)
  have fit: "distinct (x # ys)" "\<forall>y \<in> set (x # ys). fresh_node h xs y"
    using a queue_fitsD [of h qu xs "x # ys"] by (simp_all add: s)
  then obtain h' l' where app: "list_append h (queue_list qu) x = Some (h', l')"
    "list_repr h' l' (xs @ [x])" "only_touches (insert x (set xs)) h h'"
    using list_append_correct [of h "queue_list qu" xs x] a by (auto simp: queue_repr_def s)
  let ?q = "qu\<lparr>queue_list := l'\<rparr>"
  have "queue_fits (h', ?q) ys"
    using app fit by (subst queue_fitsD [of _ _ "xs @ [x]"])
      (auto simp: queue_repr_def fresh_node_def only_touches_def)
  then show "\<exists>s'. queue_put s x = Some (0, s') \<and> queue_repr (fst s') (snd s') (xs @ [x]) \<and>
      \<infinity> = \<infinity> \<and> queue_fits s' ys"
    using app by (auto simp: queue_defs s)
next
  fix s xs x ys
  assume a: "queue_repr (fst s) (snd s) xs" "take_out Fifo xs = Some (x, ys)"
  obtain h qu where s: "s = (h, qu)" by (cases s)
  from a(1) have r: "list_repr h (queue_list qu) (x # ys)" using a(2)
    by (simp add: s queue_repr_def take_out_Fifo_Some)
  then obtain h' l' where pop: "list_popleft h (queue_list qu) = Some (0, Some x, h', l')"
    "list_repr h' l' ys" "only_touches (set ys) h h'"
    using list_popleft_correct by blast
  let ?q = "qu\<lparr>queue_list := l'\<rparr>"
  have "queue_fits (h', ?q) zs" if "queue_fits (h, qu) zs" for zs
    using that pop r queue_fitsD [of h qu "x # ys" zs] queue_fitsD [of h' ?q ys zs]
    by (auto simp: queue_repr_def fresh_node_def only_touches_def)
  then show "\<exists>s'. queue_get s = Some (0, Some x, s') \<and> queue_repr (fst s') (snd s') ys \<and>
      \<infinity> = \<infinity> \<and> (\<forall>zs. queue_fits s zs \<longrightarrow> queue_fits s' zs)"
    using pop by (auto simp: queue_get_def queue_dequeue_def queue_repr_def s)
next
  fix s :: "node heap \<times> queue_t"
  show "queue_repr (fst s) (snd s) [] \<Longrightarrow> queue_get s = Some (- 1, None, s)"
    using list_popleft_empty [of "fst s" "queue_list (snd s)"] by (cases s) (simp add: queue_defs)
qed simp_all

text \<open>
  C38.  The queue is an unbounded FIFO: any sequence of enqueues of distinct free nodes and
  dequeues never faults and returns, call by call, what the abstract queue returns.
\<close>

theorem queue_refines_fifo:
  assumes "queue_repr h qu xs" and "distinct (puts_of ops)" and "\<forall>y \<in> set (puts_of ops). fresh_node h xs y"
    and "spec_run Fifo \<infinity> xs ops = (outs, ys)"
  shows "\<exists>h' qu'. run_ops queue_put queue_get (h, qu) ops = Some (outs, (h', qu')) \<and> queue_repr h' qu' ys"
  using queue.run_simulates [of "(h, qu)" xs ops outs ys] assms by (auto simp: queue_fitsD)

lemma queue_peek_correct:
  assumes "queue_repr h qu xs"
  shows "queue_peek_first qu = (if xs = [] then (- 1, None) else (0, Some (hd xs)))"
    and "queue_peek_last qu = (if xs = [] then (- 1, None) else (0, Some (last xs)))"
proof -
  have r: "list_repr h (queue_list qu) xs" using assms by (simp add: queue_repr_def)
  then have d: "dseg h NULL (list_head (queue_list qu)) xs (list_tail (queue_list qu)) NULL"
    by (simp add: list_repr_def)
  show "queue_peek_first qu = (if xs = [] then (- 1, None) else (0, Some (hd xs)))"
    using list_repr_head_NULL [OF r] dseg_first [OF d]
    by (cases xs) (simp_all add: queue_peek_first_def)
  show "queue_peek_last qu = (if xs = [] then (- 1, None) else (0, Some (last xs)))"
    using list_repr_tail_NULL [OF r] dseg_last [OF d]
    by (simp add: queue_peek_last_def)
qed

subsection \<open>The stack\<close>

record stack_t =
  stack_list :: slist_t

definition stack_init :: "stack_t" where
  "stack_init = \<lparr>stack_list = slist_init\<rparr>"

definition stack_push :: "snode heap \<Rightarrow> stack_t \<Rightarrow> addr \<Rightarrow> (snode heap \<times> stack_t) option" where
  "stack_push h st node = do {
     (h, l) \<leftarrow> slist_appendleft h (stack_list st) node;
     Some (h, st\<lparr>stack_list := l\<rparr>)
   }"

definition stack_pop :: "snode heap \<Rightarrow> stack_t \<Rightarrow> (int \<times> addr option \<times> snode heap \<times> stack_t) option" where
  "stack_pop h st = do {
     (rc, node, h, l) \<leftarrow> slist_popleft h (stack_list st);
     Some (rc, node, h, st\<lparr>stack_list := l\<rparr>)
   }"

definition stack_get_top :: "stack_t \<Rightarrow> int \<times> addr option" where
  "stack_get_top st =
     (if slist_head (stack_list st) = NULL then (- 1, None)
      else (0, Some (slist_head (stack_list st))))"

text \<open>Oldest first, as the contract wants it: the chain holds the reverse.\<close>

definition stack_repr :: "snode heap \<Rightarrow> stack_t \<Rightarrow> addr list \<Rightarrow> bool" where
  "stack_repr h st as \<longleftrightarrow> slist_repr h (stack_list st) (rev as)"

definition stack_fits :: "snode heap \<times> stack_t \<Rightarrow> addr list \<Rightarrow> bool" where
  "stack_fits s ys \<longleftrightarrow> distinct ys \<and>
     (\<exists>xs. stack_repr (fst s) (snd s) xs \<and> (\<forall>y \<in> set ys. sfresh (fst s) xs y))"

definition stack_put :: "snode heap \<times> stack_t \<Rightarrow> addr \<Rightarrow> (int \<times> snode heap \<times> stack_t) option" where
  "stack_put s x = map_option (\<lambda>s'. (0, s')) (stack_push (fst s) (snd s) x)"

definition stack_get :: "snode heap \<times> stack_t \<Rightarrow> (int \<times> addr option \<times> snode heap \<times> stack_t) option" where
  "stack_get s = stack_pop (fst s) (snd s)"

lemmas stack_defs = stack_repr_def stack_fits_def stack_put_def stack_get_def stack_push_def
  stack_pop_def

lemma stack_fitsD: "stack_repr h st xs \<Longrightarrow> stack_fits (h, st) ys \<longleftrightarrow>
    distinct ys \<and> (\<forall>y \<in> set ys. sfresh h xs y)"
  by (auto simp: stack_fits_def stack_repr_def dest: slist_repr_unique)

interpretation stack: disciplined "\<lambda>s. stack_repr (fst s) (snd s)" "\<lambda>_. \<infinity>" stack_fits stack_put
  Lifo stack_get
proof
  fix s xs x ys
  assume a: "stack_repr (fst s) (snd s) xs" "stack_fits s (x # ys)"
  obtain h st where s: "s = (h, st)" by (cases s)
  have fit: "distinct (x # ys)" "\<forall>y \<in> set (x # ys). sfresh h xs y"
    using a stack_fitsD [of h st xs "x # ys"] by (simp_all add: s)
  then have "sfresh h (rev xs) x" by (simp add: sfresh_def)
  then obtain h' l' where app: "slist_appendleft h (stack_list st) x = Some (h', l')"
    "slist_repr h' l' (x # rev xs)" "dom h' = dom h"
    using slist_appendleft_correct [of h "stack_list st" "rev xs" x] a by (auto simp: stack_repr_def s)
  let ?t = "st\<lparr>stack_list := l'\<rparr>"
  have "stack_fits (h', ?t) ys"
    using app fit by (subst stack_fitsD [of _ _ "xs @ [x]"])
      (auto simp: stack_repr_def sfresh_def)
  then show "\<exists>s'. stack_put s x = Some (0, s') \<and> stack_repr (fst s') (snd s') (xs @ [x]) \<and>
      \<infinity> = \<infinity> \<and> stack_fits s' ys"
    using app by (auto simp: stack_defs s)
next
  fix s xs x ys
  assume a: "stack_repr (fst s) (snd s) xs" "take_out Lifo xs = Some (x, ys)"
  obtain h st where s: "s = (h, st)" by (cases s)
  from a(1) have r: "slist_repr h (stack_list st) (x # rev ys)" using a(2)
    by (simp add: s stack_repr_def take_out_Lifo_Some)
  then obtain l' where pop: "slist_popleft h (stack_list st) = Some (0, Some x, h, l')"
    "slist_repr h l' (rev ys)"
    using slist_popleft_correct by blast
  let ?t = "st\<lparr>stack_list := l'\<rparr>"
  have "stack_fits (h, ?t) zs" if "stack_fits (h, st) zs" for zs
    using that pop r stack_fitsD [of h st "ys @ [x]" zs] stack_fitsD [of h ?t ys zs]
    by (auto simp: stack_repr_def sfresh_def)
  then show "\<exists>s'. stack_get s = Some (0, Some x, s') \<and> stack_repr (fst s') (snd s') ys \<and>
      \<infinity> = \<infinity> \<and> (\<forall>zs. stack_fits s zs \<longrightarrow> stack_fits s' zs)"
    using pop by (auto simp: stack_get_def stack_pop_def stack_repr_def s)
next
  fix s :: "snode heap \<times> stack_t"
  show "stack_repr (fst s) (snd s) [] \<Longrightarrow> stack_get s = Some (- 1, None, s)"
    using slist_popleft_empty [of "fst s" "stack_list (snd s)"] by (cases s) (simp add: stack_defs)
qed simp_all

text \<open>The stack is an unbounded LIFO: any sequence of pushes of distinct free nodes and pops
  never faults and returns, call by call, what the abstract stack returns.
\<close>

theorem stack_refines_lifo:
  assumes "stack_repr h st xs" and "distinct (puts_of ops)" and "\<forall>y \<in> set (puts_of ops). sfresh h xs y"
    and "spec_run Lifo \<infinity> xs ops = (outs, ys)"
  shows "\<exists>h' st'. run_ops stack_put stack_get (h, st) ops = Some (outs, (h', st')) \<and> stack_repr h' st' ys"
  using stack.run_simulates [of "(h, st)" xs ops outs ys] assms by (auto simp: stack_fitsD)

lemma stack_get_top_correct:
  "stack_repr h st xs \<Longrightarrow> stack_get_top st = (if xs = [] then (- 1, None) else (0, Some (last xs)))"
  by (cases xs rule: rev_cases) (auto simp: stack_repr_def slist_repr_def stack_get_top_def)

theorem queue_refines_fifo_witness:
  "\<exists>h' qu'. run_ops queue_put queue_get (three_nodes, queue_init) [Put 12, Put 11, Get, Get, Get] =
      Some ([(0, None), (0, None), (0, Some 12), (0, Some 11), (- 1, None)], (h', qu')) \<and> queue_repr h' qu' []"
proof (rule queue_refines_fifo)
  show "queue_repr three_nodes queue_init []"
    by (simp add: queue_repr_def queue_init_def list_repr_empty)
qed (simp_all add: fresh_node_def three_nodes_def)

theorem stack_refines_lifo_witness:
  "\<exists>h' st'. run_ops stack_put stack_get (two_snodes, stack_init) [Put 12, Put 11, Get, Get, Get] =
      Some ([(0, None), (0, None), (0, Some 11), (0, Some 12), (- 1, None)], (h', st')) \<and> stack_repr h' st' []"
proof (rule stack_refines_lifo)
  show "stack_repr two_snodes stack_init []"
    by (simp add: stack_repr_def stack_init_def slist_repr_init)
qed (simp_all add: sfresh_def two_snodes_def)

end
