(* ===== verification/DisjointSet.thy ===== *)
theory DisjointSet
  imports CPrelude
begin

text \<open>
  The union-find structure of \<open>src/disjoint_set.c\<close>: a forest of parent links over at most 127
  nodes, union by rank and path compression.  Both loops of \<open>disjoint_set_find\<close> could run
  forever on a cyclic parent array; the invariant, ranks that grow strictly towards the root,
  excludes it.  The locale \<open>union_find\<close> is the contract of the operations, in terms of the
  representative of a node, and proves what any sequence of unions computes.
\<close>

definition DISJOINT_SET_MAX :: nat where
  "DISJOINT_SET_MAX = 128"

record disjoint_set =
  max_nodes :: int
  ds_rank :: "int list"
  ds_parent :: "nat list"

subsection \<open>The operations\<close>

fun make_loop :: "disjoint_set \<Rightarrow> nat \<Rightarrow> nat \<Rightarrow> disjoint_set option" where
  "make_loop st i 0 = Some st"
| "make_loop st i (Suc n) = do {
     p \<leftarrow> set_at (ds_parent st) i i;
     r \<leftarrow> set_at (ds_rank st) i 0;
     make_loop (st\<lparr>ds_parent := p, ds_rank := r\<rparr>) (i + 1) n
   }"

definition disjoint_set_make :: "disjoint_set \<Rightarrow> int \<Rightarrow> (int \<times> disjoint_set) option" where
  "disjoint_set_make st mx =
     (if mx \<ge> int DISJOINT_SET_MAX then Some (- 1, st)
      else do {
        st \<leftarrow> make_loop (st\<lparr>max_nodes := mx\<rparr>) 0 (nat mx);
        Some (0, st)
      })"

partial_function (option) find_root :: "nat list \<Rightarrow> nat \<Rightarrow> nat option" where
  "find_root p rt = do {
     q \<leftarrow> get_at p rt;
     if q \<noteq> rt then find_root p q else Some rt
   }"

partial_function (option) compress :: "nat list \<Rightarrow> nat \<Rightarrow> nat \<Rightarrow> nat list option" where
  "compress p a rt = do {
     tmp \<leftarrow> get_at p a;
     if tmp \<noteq> rt then do {
       p \<leftarrow> set_at p a rt;
       compress p tmp rt
     } else Some p
   }"

definition disjoint_set_find :: "disjoint_set \<Rightarrow> nat \<Rightarrow> (nat \<times> disjoint_set) option" where
  "disjoint_set_find st a = do {
     rt \<leftarrow> find_root (ds_parent st) a;
     p \<leftarrow> compress (ds_parent st) a rt;
     Some (rt, st\<lparr>ds_parent := p\<rparr>)
   }"

definition disjoint_set_union :: "disjoint_set \<Rightarrow> nat \<Rightarrow> nat \<Rightarrow> disjoint_set option" where
  "disjoint_set_union st a b = do {
     (a, st) \<leftarrow> disjoint_set_find st a;
     (b, st) \<leftarrow> disjoint_set_find st b;
     if a = b then Some st
     else do {
       ra \<leftarrow> get_at (ds_rank st) a;
       rb \<leftarrow> get_at (ds_rank st) b;
       let (a, b) = (if ra < rb then (b, a) else (a, b));
       p \<leftarrow> set_at (ds_parent st) b a;
       let st = st\<lparr>ds_parent := p\<rparr>;
       ra \<leftarrow> get_at (ds_rank st) a;
       rb \<leftarrow> get_at (ds_rank st) b;
       if ra = rb then do {
         r \<leftarrow> set_at (ds_rank st) a (ra + 1);
         Some (st\<lparr>ds_rank := r\<rparr>)
       } else Some st
     }
   }"

fun num_roots_loop :: "nat list \<Rightarrow> nat \<Rightarrow> nat \<Rightarrow> int \<Rightarrow> int option" where
  "num_roots_loop p i 0 roots = Some roots"
| "num_roots_loop p i (Suc n) roots = do {
     q \<leftarrow> get_at p i;
     num_roots_loop p (i + 1) n (if q = i then roots + 1 else roots)
   }"

definition disjoint_set_num_roots :: "disjoint_set \<Rightarrow> int option" where
  "disjoint_set_num_roots st = num_roots_loop (ds_parent st) 0 (nat (max_nodes st)) 0"

subsection \<open>The contract\<close>

text \<open>Nodes connected by a list of pairs.\<close>

definition connected :: "(nat \<times> nat) list \<Rightarrow> nat \<Rightarrow> nat \<Rightarrow> bool" where
  "connected es i j \<longleftrightarrow> (i, j) \<in> (set es \<union> (set es)\<inverse>)\<^sup>*"

fun run_unions :: "('s \<Rightarrow> nat \<Rightarrow> nat \<Rightarrow> 's option) \<Rightarrow> 's \<Rightarrow> (nat \<times> nat) list \<Rightarrow> 's option" where
  "run_unions un s [] = Some s"
| "run_unions un s ((a, b) # es) = do { s \<leftarrow> un s a b; run_unions un s es }"

lemma connected_Nil [simp]: "connected [] i j \<longleftrightarrow> i = j"
  by (simp add: connected_def)

lemma connected_refl [simp]: "connected es i i"
  by (simp add: connected_def)

lemma connected_sym: "connected es i j \<longleftrightarrow> connected es j i"
proof -
  have "sym ((set es \<union> (set es)\<inverse>)\<^sup>*)" by (intro sym_rtrancl) (auto simp: sym_def)
  then show ?thesis by (auto simp: connected_def dest: symD)
qed

lemma connected_trans: "connected es i j \<Longrightarrow> connected es j k \<Longrightarrow> connected es i k"
  unfolding connected_def by (rule rtrancl_trans)

lemma connected_snoc:
  "connected (es @ [(a, b)]) i j \<longleftrightarrow>
     connected es i j \<or> connected es i a \<and> connected es b j \<or> connected es i b \<and> connected es a j"
proof -
  have "set (es @ [(a, b)]) \<union> (set (es @ [(a, b)]))\<inverse> =
      insert (a, b) (insert (b, a) (set es \<union> (set es)\<inverse>))" by auto
  then have "connected (es @ [(a, b)]) i j \<longleftrightarrow>
      (connected es i j \<or> connected es i b \<and> connected es a j) \<or>
      (connected es i a \<or> connected es i b \<and> connected es a a) \<and>
      (connected es b j \<or> connected es b b \<and> connected es a j)"
    unfolding connected_def by (simp only: rtrancl_insert) auto
  then show ?thesis by (auto intro: connected_trans)
qed

locale union_find =
  fixes inv :: "'s \<Rightarrow> bool"
    and nodes :: "'s \<Rightarrow> nat"
    and rep :: "'s \<Rightarrow> nat \<Rightarrow> nat"
    and un :: "'s \<Rightarrow> nat \<Rightarrow> nat \<Rightarrow> 's option"
  assumes union_merges: "inv s \<Longrightarrow> a < nodes s \<Longrightarrow> b < nodes s \<Longrightarrow>
    \<exists>s'. un s a b = Some s' \<and> inv s' \<and> nodes s' = nodes s \<and>
      (\<forall>i < nodes s. \<forall>j < nodes s. rep s' i = rep s' j \<longleftrightarrow>
        rep s i = rep s j \<or> rep s i = rep s a \<and> rep s b = rep s j \<or> rep s i = rep s b \<and> rep s a = rep s j)"
begin

lemma run_unions_connected:
  assumes "inv s" and "\<forall>i < nodes s. \<forall>j < nodes s. rep s i = rep s j \<longleftrightarrow> connected ds i j"
    and "\<forall>(a, b) \<in> set es. a < nodes s \<and> b < nodes s"
  shows "\<exists>s'. run_unions un s es = Some s' \<and> inv s' \<and> nodes s' = nodes s \<and>
    (\<forall>i < nodes s. \<forall>j < nodes s. rep s' i = rep s' j \<longleftrightarrow> connected (ds @ es) i j)"
  using assms
proof (induction es arbitrary: s ds)
  case Nil
  then show ?case by simp
next
  case (Cons e es)
  obtain a b where e: "e = (a, b)" by (cases e)
  have ab: "a < nodes s" "b < nodes s" using Cons.prems(3) by (auto simp: e)
  from union_merges [OF Cons.prems(1) ab] obtain s' where
    s': "un s a b = Some s'" "inv s'" "nodes s' = nodes s" and
    rep: "\<forall>i < nodes s. \<forall>j < nodes s. rep s' i = rep s' j \<longleftrightarrow>
        rep s i = rep s j \<or> rep s i = rep s a \<and> rep s b = rep s j \<or> rep s i = rep s b \<and> rep s a = rep s j"
    by blast
  have "\<forall>i < nodes s'. \<forall>j < nodes s'. rep s' i = rep s' j \<longleftrightarrow> connected (ds @ [(a, b)]) i j"
    using rep Cons.prems(2) ab s'(3) by (simp add: connected_snoc)
  from Cons.IH [OF s'(2) this] Cons.prems(3) s' show ?case by (auto simp: e)
qed

end

subsection \<open>The forest\<close>

definition forest :: "nat \<Rightarrow> int list \<Rightarrow> nat list \<Rightarrow> bool" where
  "forest m rk p \<longleftrightarrow> m \<le> length p \<and> m \<le> length rk \<and>
     (\<forall>i < m. p ! i < m \<and> (p ! i = i \<or> rk ! i < rk ! (p ! i)))"

text \<open>Nodes by decreasing rank: the induction that both loops follow.\<close>

definition above :: "nat \<Rightarrow> int list \<Rightarrow> nat \<Rightarrow> nat" where
  "above m rk i = card {j. j < m \<and> rk ! i < rk ! j}"

lemma above_less: "rk ! i < rk ! j \<Longrightarrow> j < m \<Longrightarrow> above m rk j < above m rk i"
  unfolding above_def by (rule psubset_card_mono) auto

lemma forestD:
  assumes "forest m rk p" and "i < m"
  shows "i < length p" "i < length rk" "p ! i < m" "p ! i \<noteq> i \<Longrightarrow> rk ! i < rk ! (p ! i)"
  using assms by (auto simp: forest_def)

lemma forestI:
  assumes "m \<le> length p" and "m \<le> length rk" and "\<And>i. i < m \<Longrightarrow> p ! i < m"
    and "\<And>i. i < m \<Longrightarrow> p ! i = i \<or> rk ! i < rk ! (p ! i)"
  shows "forest m rk p"
  using assms by (simp add: forest_def)

lemma find_root_total:
  assumes f: "forest m rk p"
  shows "i < m \<Longrightarrow> \<exists>r < m. find_root p i = Some r \<and> p ! r = r \<and> (i = r \<or> rk ! i < rk ! r)"
proof (induction "above m rk i" arbitrary: i rule: less_induct)
  case less
  show ?case
  proof (cases "p ! i = i")
    case True
    with less.prems forestD [OF f] show ?thesis
      by (intro exI [of _ i]) (subst find_root.simps, simp)
  next
    case False
    then have up: "rk ! i < rk ! (p ! i)" "p ! i < m" using forestD [OF f less.prems] by auto
    from less.hyps [OF above_less [OF up] up(2)] obtain r where
      "r < m" "find_root p (p ! i) = Some r" "p ! r = r" "p ! i = r \<or> rk ! (p ! i) < rk ! r" by blast
    with up False forestD [OF f less.prems] show ?thesis
      by (intro exI [of _ r]) (subst find_root.simps, auto)
  qed
qed

definition root_of :: "nat list \<Rightarrow> nat \<Rightarrow> nat" where
  "root_of p i = the (find_root p i)"

lemma root_of:
  assumes "forest m rk p" and "i < m"
  shows "find_root p i = Some (root_of p i)" "root_of p i < m" "p ! root_of p i = root_of p i"
    "i = root_of p i \<or> rk ! i < rk ! root_of p i"
proof -
  from find_root_total [OF assms] obtain r where
    r: "r < m" "find_root p i = Some r" "p ! r = r" "i = r \<or> rk ! i < rk ! r" by blast
  have "root_of p i = r" by (simp add: root_of_def r(2))
  with r show "find_root p i = Some (root_of p i)" "root_of p i < m" "p ! root_of p i = root_of p i"
    "i = root_of p i \<or> rk ! i < rk ! root_of p i" by simp_all
qed

lemma root_parent:
  assumes "forest m rk p" and "i < m"
  shows "root_of p (p ! i) = root_of p i" and "p ! i = i \<Longrightarrow> root_of p i = i"
proof -
  have "find_root p i = (if p ! i \<noteq> i then find_root p (p ! i) else Some i)"
    using forestD [OF assms] by (subst find_root.simps) simp
  then show "root_of p (p ! i) = root_of p i" "p ! i = i \<Longrightarrow> root_of p i = i"
    by (auto simp: root_of_def)
qed

text \<open>Any function that follows parents and fixes the roots is the root.\<close>

lemma root_unique:
  assumes f: "forest m rk p"
    and follow: "\<And>i. i < m \<Longrightarrow> g (p ! i) = g i" and stay: "\<And>i. i < m \<Longrightarrow> p ! i = i \<Longrightarrow> g i = i"
  shows "i < m \<Longrightarrow> root_of p i = g i"
proof (induction "above m rk i" arbitrary: i rule: less_induct)
  case less
  show ?case
  proof (cases "p ! i = i")
    case True
    with root_parent(2) [OF f less.prems] stay less.prems show ?thesis by simp
  next
    case False
    then have up: "rk ! i < rk ! (p ! i)" "p ! i < m" using forestD [OF f less.prems] by auto
    from less.hyps [OF above_less [OF up] up(2)] follow [OF less.prems] root_parent(1) [OF f less.prems]
    show ?thesis by simp
  qed
qed

lemma forest_compress:
  assumes f: "forest m rk p" and a: "a < m"
  shows "forest m rk (p[a := root_of p a])" and "i < m \<Longrightarrow> root_of (p[a := root_of p a]) i = root_of p i"
proof -
  note ra = root_of [OF f a]
  show f': "forest m rk (p[a := root_of p a])"
  proof (rule forestI)
    fix i
    assume "i < m"
    note here = forestD [OF f this]
    show "p[a := root_of p a] ! i < m" "p[a := root_of p a] ! i = i \<or> rk ! i < rk ! (p[a := root_of p a] ! i)"
      using here ra(2,4) by (cases "i = a"; auto)+
  qed (use f in \<open>simp_all add: forest_def\<close>)
  have fa: "root_of p (root_of p a) = root_of p a" using root_parent(2) [OF f ra(2)] ra(3) by simp
  show "i < m \<Longrightarrow> root_of (p[a := root_of p a]) i = root_of p i"
  proof (rule root_unique [OF f'])
    fix i
    assume i: "i < m"
    show "root_of p (p[a := root_of p a] ! i) = root_of p i"
      using root_parent(1) [OF f i] fa forestD [OF f a] by (cases "i = a") auto
    show "p[a := root_of p a] ! i = i \<Longrightarrow> root_of p i = i"
      using root_parent(2) [OF f i] forestD [OF f a] by (cases "i = a") auto
  qed
qed

lemma compress_correct:
  assumes "forest m rk p" and "a < m"
  shows "\<exists>p'. compress p a (root_of p a) = Some p' \<and> forest m rk p' \<and> length p' = length p \<and>
    (\<forall>i < m. root_of p' i = root_of p i)"
  using assms
proof (induction "above m rk a" arbitrary: a p rule: less_induct)
  case less
  note f = less.prems(1) and a = less.prems(2)
  show ?case
  proof (cases "p ! a = root_of p a")
    case True
    then show ?thesis using f forestD [OF f a] by (subst compress.simps) auto
  next
    case False
    then have ne: "p ! a \<noteq> a" using root_parent(2) [OF f a] by auto
    then have up: "rk ! a < rk ! (p ! a)" "p ! a < m" using forestD [OF f a] by auto
    let ?p = "p[a := root_of p a]"
    note c = forest_compress [OF f a]
    have r: "root_of ?p (p ! a) = root_of p a" using c(2) [OF up(2)] root_parent(1) [OF f a] by simp
    from less.hyps [OF above_less [OF up] c(1) up(2)] obtain p' where
      "compress ?p (p ! a) (root_of p a) = Some p'" "forest m rk p'" "length p' = length p"
      "\<forall>i < m. root_of p' i = root_of ?p i" by (auto simp: r)
    with False c(2) forestD [OF f a] show ?thesis by (subst compress.simps) auto
  qed
qed

subsection \<open>The structure\<close>

definition ds_inv :: "disjoint_set \<Rightarrow> bool" where
  "ds_inv s \<longleftrightarrow> 0 \<le> max_nodes s \<and> forest (nat (max_nodes s)) (ds_rank s) (ds_parent s)"

definition ds_nodes :: "disjoint_set \<Rightarrow> nat" where
  "ds_nodes s = nat (max_nodes s)"

definition ds_rep :: "disjoint_set \<Rightarrow> nat \<Rightarrow> nat" where
  "ds_rep s i = root_of (ds_parent s) i"

lemma disjoint_set_find_correct:
  assumes "ds_inv s" and "a < ds_nodes s"
  shows "\<exists>s'. disjoint_set_find s a = Some (ds_rep s a, s') \<and> ds_inv s' \<and> max_nodes s' = max_nodes s \<and>
    ds_rank s' = ds_rank s \<and> (\<forall>i < ds_nodes s. ds_rep s' i = ds_rep s i)"
proof -
  let ?m = "nat (max_nodes s)"
  have f: "forest ?m (ds_rank s) (ds_parent s)" and a: "a < ?m"
    using assms by (simp_all add: ds_inv_def ds_nodes_def)
  from compress_correct [OF f a] root_of(1) [OF f a] assms show ?thesis
    by (auto simp: disjoint_set_find_def ds_inv_def ds_nodes_def ds_rep_def)
qed

lemma forest_union:
  assumes f: "forest m rk p" and a: "a < m" "p ! a = a" and b: "b < m" "p ! b = b" and ne: "a \<noteq> b"
    and rank: "rk ! b \<le> rk ! a"
  shows "forest m (if rk ! a = rk ! b then rk[a := rk ! a + 1] else rk) (p[b := a])"
    and "i < m \<Longrightarrow> root_of (p[b := a]) i = (if root_of p i = b then a else root_of p i)"
proof -
  show f': "forest m (if rk ! a = rk ! b then rk[a := rk ! a + 1] else rk) (p[b := a])"
    (is "forest m ?rk ?p")
  proof (rule forestI)
    fix i
    assume "i < m"
    note here = forestD [OF f this] and there = forestD [OF f b(1)] forestD [OF f a(1)]
    have "?rk ! j = (if j = a \<and> rk ! a = rk ! b then rk ! j + 1 else rk ! j)" for j
      using there by (cases "j = a") auto
    then show "?p ! i = i \<or> ?rk ! i < ?rk ! (?p ! i)"
      using here there rank ne a(2) by (cases "i = b"; cases "i = a"; cases "p ! i = a"; auto)
    show "?p ! i < m" using here there a by (cases "i = b") auto
  qed (use f in \<open>simp_all add: forest_def\<close>)
  have ra: "root_of p a = a" "root_of p b = b" using root_parent(2) [OF f] a b by auto
  show "i < m \<Longrightarrow> root_of (p[b := a]) i = (if root_of p i = b then a else root_of p i)"
  proof (rule root_unique [OF f'])
    fix i
    assume i: "i < m"
    show "(if root_of p (p[b := a] ! i) = b then a else root_of p (p[b := a] ! i)) =
        (if root_of p i = b then a else root_of p i)"
      using root_parent(1) [OF f i] ra ne forestD [OF f b(1)] by (cases "i = b") auto
    show "p[b := a] ! i = i \<Longrightarrow> (if root_of p i = b then a else root_of p i) = i"
      using root_parent(2) [OF f i] ne forestD [OF f b(1)] by (cases "i = b") auto
  qed
qed

text \<open>The second half of \<open>disjoint_set_union\<close>, on two distinct roots.\<close>

lemma link_roots:
  assumes f: "forest m rk p" and ab: "a < m" "p ! a = a" "b < m" "p ! b = b" "a \<noteq> b"
    and sw: "(a', b') = (if rk ! a < rk ! b then (b, a) else (a, b))"
  shows "forest m (if rk ! a' = rk ! b' then rk[a' := rk ! a' + 1] else rk) (p[b' := a'])"
    and "a' < length p \<and> b' < length p \<and> a' < length rk \<and> b' < length rk"
    and "i < m \<Longrightarrow> j < m \<Longrightarrow> root_of (p[b' := a']) i = root_of (p[b' := a']) j \<longleftrightarrow>
      root_of p i = root_of p j \<or> root_of p i = a \<and> b = root_of p j \<or> root_of p i = b \<and> a = root_of p j"
proof -
  have h: "a' < m" "p ! a' = a'" "b' < m" "p ! b' = b'" "a' \<noteq> b'" "rk ! b' \<le> rk ! a'"
    "{a', b'} = {a, b}"
    using ab sw by (auto split: if_splits)
  note u = forest_union [OF f h(1-6)]
  show "forest m (if rk ! a' = rk ! b' then rk[a' := rk ! a' + 1] else rk) (p[b' := a'])" by (rule u(1))
  show "a' < length p \<and> b' < length p \<and> a' < length rk \<and> b' < length rk"
    using forestD [OF f h(1)] forestD [OF f h(3)] by simp
  show "i < m \<Longrightarrow> j < m \<Longrightarrow> root_of (p[b' := a']) i = root_of (p[b' := a']) j \<longleftrightarrow>
      root_of p i = root_of p j \<or> root_of p i = a \<and> b = root_of p j \<or> root_of p i = b \<and> a = root_of p j"
    using h(5,7) by (auto simp: u(2) doubleton_eq_iff)
qed

lemma disjoint_set_union_correct:
  assumes inv: "ds_inv s" and a: "a < ds_nodes s" and b: "b < ds_nodes s"
  shows "\<exists>s'. disjoint_set_union s a b = Some s' \<and> ds_inv s' \<and> ds_nodes s' = ds_nodes s \<and>
    (\<forall>i < ds_nodes s. \<forall>j < ds_nodes s. ds_rep s' i = ds_rep s' j \<longleftrightarrow>
      ds_rep s i = ds_rep s j \<or> ds_rep s i = ds_rep s a \<and> ds_rep s b = ds_rep s j \<or>
      ds_rep s i = ds_rep s b \<and> ds_rep s a = ds_rep s j)"
proof -
  from disjoint_set_find_correct [OF inv a] obtain s1 where
    s1: "disjoint_set_find s a = Some (ds_rep s a, s1)" "ds_inv s1" "max_nodes s1 = max_nodes s"
      "ds_rank s1 = ds_rank s" "\<forall>i < ds_nodes s. ds_rep s1 i = ds_rep s i" by blast
  have n1: "ds_nodes s1 = ds_nodes s" using s1(3) by (simp add: ds_nodes_def)
  from disjoint_set_find_correct [OF s1(2), of b] obtain s2 where
    s2: "disjoint_set_find s1 b = Some (ds_rep s b, s2)" "ds_inv s2" "max_nodes s2 = max_nodes s"
      "ds_rank s2 = ds_rank s" "\<forall>i < ds_nodes s. ds_rep s2 i = ds_rep s i"
    using b n1 s1(3,4,5) by auto
  let ?m = "ds_nodes s" and ?p = "ds_parent s2" and ?rk = "ds_rank s2"
  have f: "forest ?m ?rk ?p" using s2(2,3) by (simp add: ds_inv_def ds_nodes_def)
  have rep: "root_of ?p i = ds_rep s i" if "i < ?m" for i using s2(5) that by (simp add: ds_rep_def)
  define x y where "x = ds_rep s a" and "y = ds_rep s b"
  have xy: "x < ?m" "?p ! x = x" "y < ?m" "?p ! y = y"
    using root_of(2,3) [OF f a] root_of(2,3) [OF f b] rep a b by (simp_all add: x_def y_def)
  show ?thesis
  proof (cases "x = y")
    case True
    then show ?thesis using s1(1) s2 n1
      by (auto simp: disjoint_set_union_def x_def y_def ds_nodes_def)
  next
    case False
    obtain x' y' where sw: "(x', y') = (if ?rk ! x < ?rk ! y then (y, x) else (x, y))"
      by (metis surj_pair)
    note link = link_roots [OF f xy False sw]
    let ?s = "s2\<lparr>ds_parent := ?p[y' := x'],
        ds_rank := (if ?rk ! x' = ?rk ! y' then ?rk[x' := ?rk ! x' + 1] else ?rk)\<rparr>"
    have "x < length ?rk" "y < length ?rk" using forestD(2) [OF f] xy by auto
    then have "disjoint_set_union s a b = Some ?s"
      using s1(1) s2(1) False link(2) sw [symmetric]
      by (cases "?rk ! x < ?rk ! y") (auto simp: disjoint_set_union_def x_def [symmetric] y_def [symmetric])
    moreover have "ds_inv ?s" "ds_nodes ?s = ?m"
      using link(1) inv s2(3) by (simp_all add: ds_inv_def ds_nodes_def)
    moreover have "ds_rep ?s i = ds_rep ?s j \<longleftrightarrow>
      ds_rep s i = ds_rep s j \<or> ds_rep s i = x \<and> y = ds_rep s j \<or> ds_rep s i = y \<and> x = ds_rep s j"
      if "i < ?m" "j < ?m" for i j
      using link(3) [OF that] that by (simp add: ds_rep_def rep [unfolded ds_rep_def])
    ultimately show ?thesis by (intro exI [of _ ?s]) (simp add: x_def y_def)
  qed
qed

interpretation ds: union_find ds_inv ds_nodes ds_rep disjoint_set_union
  by unfold_locales (rule disjoint_set_union_correct)

lemma make_loop_correct:
  "i + n \<le> length (ds_parent s) \<Longrightarrow> i + n \<le> length (ds_rank s) \<Longrightarrow>
    \<exists>s'. make_loop s i n = Some s' \<and> max_nodes s' = max_nodes s \<and>
      length (ds_parent s') = length (ds_parent s) \<and> length (ds_rank s') = length (ds_rank s) \<and>
      (\<forall>j. i \<le> j \<and> j < i + n \<longrightarrow> ds_parent s' ! j = j) \<and> (\<forall>j < i. ds_parent s' ! j = ds_parent s ! j)"
proof (induction n arbitrary: s i)
  case 0
  then show ?case by simp
next
  case (Suc n)
  let ?s = "s\<lparr>ds_parent := (ds_parent s)[i := i], ds_rank := (ds_rank s)[i := 0]\<rparr>"
  from Suc.IH [of "Suc i" ?s] Suc.prems obtain s' where
    s': "make_loop ?s (Suc i) n = Some s'" "max_nodes s' = max_nodes s"
      "length (ds_parent s') = length (ds_parent s)" "length (ds_rank s') = length (ds_rank s)"
      "\<forall>j. Suc i \<le> j \<and> j < Suc i + n \<longrightarrow> ds_parent s' ! j = j"
      "\<forall>j < Suc i. ds_parent s' ! j = (ds_parent s)[i := i] ! j"
    by auto
  have "ds_parent s' ! i = i" using s'(6) Suc.prems by simp
  then have "\<forall>j. i \<le> j \<and> j < i + Suc n \<longrightarrow> ds_parent s' ! j = j" using s'(5)
    by (metis Suc_leI add_Suc_shift le_neq_implies_less)
  with s' Suc.prems show ?case by auto
qed

lemma disjoint_set_make_correct:
  assumes "0 \<le> mx" and "mx < int DISJOINT_SET_MAX"
    and "length (ds_parent s) = DISJOINT_SET_MAX" and "length (ds_rank s) = DISJOINT_SET_MAX"
  shows "\<exists>s'. disjoint_set_make s mx = Some (0, s') \<and> ds_inv s' \<and> ds_nodes s' = nat mx \<and>
    (\<forall>i < nat mx. ds_rep s' i = i)"
proof -
  have "0 + nat mx \<le> length (ds_parent (s\<lparr>max_nodes := mx\<rparr>))"
    "0 + nat mx \<le> length (ds_rank (s\<lparr>max_nodes := mx\<rparr>))" using assms by auto
  from make_loop_correct [OF this] obtain s' where
    s': "make_loop (s\<lparr>max_nodes := mx\<rparr>) 0 (nat mx) = Some s'" "max_nodes s' = mx"
      "length (ds_parent s') = DISJOINT_SET_MAX" "length (ds_rank s') = DISJOINT_SET_MAX"
      "\<forall>j < nat mx. ds_parent s' ! j = j" using assms(3,4) by auto
  have f: "forest (nat mx) (ds_rank s') (ds_parent s')" using s' assms by (auto simp: forest_def)
  then have "ds_rep s' i = i" if "i < nat mx" for i
    using root_parent(2) [OF f that] s'(5) that by (simp add: ds_rep_def)
  with s' f assms show ?thesis by (auto simp: disjoint_set_make_def ds_inv_def ds_nodes_def)
qed

text \<open>
  C33.  Union-find decides connectivity: after \<open>disjoint_set_make\<close> and any sequence of unions,
  every \<open>disjoint_set_find\<close> returns, and two nodes have the same representative exactly when
  the united pairs connect them.
\<close>

theorem disjoint_set_connectivity:
  assumes "0 \<le> mx" and "mx < int DISJOINT_SET_MAX"
    and "length (ds_parent s) = DISJOINT_SET_MAX" and "length (ds_rank s) = DISJOINT_SET_MAX"
    and "\<forall>(a, b) \<in> set es. a < nat mx \<and> b < nat mx" and "i < nat mx" and "j < nat mx"
  shows "\<exists>s0 s1 ri rj si sj. disjoint_set_make s mx = Some (0, s0) \<and>
    run_unions disjoint_set_union s0 es = Some s1 \<and> disjoint_set_find s1 i = Some (ri, si) \<and>
    disjoint_set_find s1 j = Some (rj, sj) \<and> (ri = rj \<longleftrightarrow> connected es i j)"
proof -
  from disjoint_set_make_correct [OF assms(1-4)] obtain s0 where
    s0: "disjoint_set_make s mx = Some (0, s0)" "ds_inv s0" "ds_nodes s0 = nat mx"
      "\<forall>i < nat mx. ds_rep s0 i = i" by blast
  then obtain s1 where s1: "run_unions disjoint_set_union s0 es = Some s1" "ds_inv s1" "ds_nodes s1 = nat mx"
      "\<forall>i < nat mx. \<forall>j < nat mx. ds_rep s1 i = ds_rep s1 j \<longleftrightarrow> connected es i j"
    using ds.run_unions_connected [of s0 "[]" es] assms(5) by auto
  with disjoint_set_find_correct [of s1 i] disjoint_set_find_correct [of s1 j] assms(6,7) s0(1)
  show ?thesis by fastforce
qed

lemma num_roots_loop_correct:
  "i + n \<le> length p \<Longrightarrow>
    num_roots_loop p i n k = Some (k + int (card {j. i \<le> j \<and> j < i + n \<and> p ! j = j}))"
proof (induction n arbitrary: i k)
  case 0
  then show ?case by simp
next
  case (Suc n)
  have "{j. i \<le> j \<and> j < i + Suc n \<and> p ! j = j} =
      (if p ! i = i then insert i else id) {j. Suc i \<le> j \<and> j < Suc i + n \<and> p ! j = j}"
    by (auto simp: Suc_le_eq le_less)
  moreover have "finite {j. Suc i \<le> j \<and> j < Suc i + n \<and> p ! j = j}" by simp
  ultimately show ?case using Suc.IH [of "Suc i"] Suc.prems by simp
qed

text \<open>\<open>disjoint_set_num_roots\<close> counts the classes: the number of distinct representatives.
\<close>

theorem disjoint_set_num_roots_correct:
  assumes "ds_inv s"
  shows "disjoint_set_num_roots s = Some (int (card (ds_rep s ` {..<ds_nodes s})))"
proof -
  let ?m = "ds_nodes s" and ?p = "ds_parent s"
  have f: "forest ?m (ds_rank s) ?p" using assms by (simp add: ds_inv_def ds_nodes_def)
  have "root_of ?p ` {..<?m} = {j. 0 \<le> j \<and> j < 0 + ?m \<and> ?p ! j = j}"
  proof (intro set_eqI iffI)
    fix j
    assume "j \<in> {j. 0 \<le> j \<and> j < 0 + ?m \<and> ?p ! j = j}"
    then show "j \<in> root_of ?p ` {..<?m}" using root_parent(2) [OF f, of j] by force
  qed (use root_of(2,3) [OF f] in auto)
  moreover have "?m \<le> length ?p" using f by (simp add: forest_def)
  ultimately show ?thesis
    using num_roots_loop_correct [of 0 ?m ?p 0]
    by (simp add: disjoint_set_num_roots_def ds_nodes_def ds_rep_def [abs_def])
qed

text \<open>Static storage: the state before \<open>disjoint_set_make\<close>.\<close>

definition ds_zero :: "disjoint_set" where
  "ds_zero = \<lparr>max_nodes = 0, ds_rank = replicate DISJOINT_SET_MAX 0, ds_parent = replicate DISJOINT_SET_MAX 0\<rparr>"

theorem disjoint_set_connectivity_witness:
  "\<exists>s0 s1 ri rj si sj. disjoint_set_make ds_zero 4 = Some (0, s0) \<and>
    run_unions disjoint_set_union s0 [(0, 1), (2, 3)] = Some s1 \<and> disjoint_set_find s1 1 = Some (ri, si) \<and>
    disjoint_set_find s1 2 = Some (rj, sj) \<and> (ri = rj \<longleftrightarrow> connected [(0, 1), (2, 3)] 1 2)"
  by (rule disjoint_set_connectivity) (simp_all add: ds_zero_def DISJOINT_SET_MAX_def)

definition ds_three :: "disjoint_set" where
  "ds_three = \<lparr>max_nodes = 3, ds_rank = [1, 0, 0], ds_parent = [0, 0, 2]\<rparr>"

theorem disjoint_set_num_roots_correct_witness:
  "disjoint_set_num_roots ds_three = Some (int (card (ds_rep ds_three ` {..<ds_nodes ds_three})))"
  by (rule disjoint_set_num_roots_correct)
    (auto simp: ds_inv_def ds_three_def forest_def numeral_3_eq_3 less_Suc_eq)

end
