(* ===== verification/StrHash.thy ===== *)
theory StrHash
  imports CPrelude
begin

text \<open>
  The string hashes of \<open>src/strutils.c\<close>.  A string argument is the list of its bytes, up to
  its terminating NUL or to the end of the list; \<open>len\<close> bounds the bytes read, a negative
  \<open>len\<close> never stops the loop (strings are shorter than \<open>2 ^ 31\<close>).  \<open>char\<close> is signed, so a
  byte above 127 is added as a negative number.
\<close>

fun djb2_loop :: "u32 \<Rightarrow> u8 list \<Rightarrow> int \<Rightarrow> u32" where
  "djb2_loop hash [] len = hash"
| "djb2_loop hash (c # str) len =
     (if c = 0 \<or> len = 0 then hash
      else djb2_loop ((push_bit 5 hash + hash) + scast c) str (len - 1))"

definition hash32_djb2 :: "u8 list \<Rightarrow> int \<Rightarrow> u32" where
  "hash32_djb2 str len = djb2_loop 5381 str len"

fun fnv_loop :: "u32 \<Rightarrow> u8 list \<Rightarrow> int \<Rightarrow> u32" where
  "fnv_loop hval [] len = hval"
| "fnv_loop hval (c # s) len =
     (if c = 0 \<or> len = 0 then hval
      else
        let hval = hval + (push_bit 1 hval + push_bit 4 hval + push_bit 7 hval + push_bit 8 hval +
                           push_bit 24 hval)
        in fnv_loop (hval XOR ucast c) s (len - 1))"

definition hash32_fnv :: "u8 list \<Rightarrow> int \<Rightarrow> u32" where
  "hash32_fnv str len = fnv_loop 0 str len"

fun poly_loop :: "u64 \<Rightarrow> u64 \<Rightarrow> u8 list \<Rightarrow> int \<Rightarrow> u64" where
  "poly_loop hash p_pow [] len = hash"
| "poly_loop hash p_pow (c # str) len =
     (if c = 0 \<or> len = 0 then hash
      else poly_loop ((hash + word_of_int (sint c - 97 + 1) * p_pow) mod 1000000009)
             ((p_pow * 31) mod 1000000009) str (len - 1))"

definition poly_hash :: "u8 list \<Rightarrow> int \<Rightarrow> u64" where
  "poly_hash str len = poly_loop 0 1 str len"

definition hash32 :: "u8 list \<Rightarrow> int \<Rightarrow> u32" where
  "hash32 = hash32_djb2"

definition hash64 :: "u8 list \<Rightarrow> int \<Rightarrow> u64" where
  "hash64 = poly_hash"

subsection \<open>What they compute\<close>

text \<open>The bytes the loops read.\<close>

fun hashed_bytes :: "u8 list \<Rightarrow> int \<Rightarrow> u8 list" where
  "hashed_bytes [] len = []"
| "hashed_bytes (c # str) len = (if c = 0 \<or> len = 0 then [] else c # hashed_bytes str (len - 1))"

lemma hashed_bytes_all: "0 \<notin> set str \<Longrightarrow> len < 0 \<Longrightarrow> hashed_bytes str len = str"
  by (induction str arbitrary: len) auto

lemma push_bit_mult: "push_bit n (x :: 'a::len word) = x * 2 ^ n"
  by (simp add: push_bit_eq_mult)

text \<open>The shift-and-add loops are the multiplicative hashes they stand for: multiplication by
  33 (djb2) and by the FNV prime 16777619 (FNV-1, from basis 0).
\<close>

theorem string_hashes_multiply:
  "hash32_djb2 str len = foldl (\<lambda>h c. h * 33 + scast c) 5381 (hashed_bytes str len) \<and>
   hash32_fnv str len = foldl (\<lambda>h c. (h * 16777619) XOR ucast c) 0 (hashed_bytes str len)"
proof -
  have "djb2_loop h str len = foldl (\<lambda>h c. h * 33 + scast c) h (hashed_bytes str len)" for h
    by (induction h str len rule: djb2_loop.induct) (auto simp: push_bit_mult algebra_simps)
  moreover have "fnv_loop h str len = foldl (\<lambda>h c. (h * 16777619) XOR ucast c) h (hashed_bytes str len)" for h
    by (induction h str len rule: fnv_loop.induct) (auto simp: push_bit_mult Let_def algebra_simps)
  ultimately show ?thesis by (simp add: hash32_djb2_def hash32_fnv_def)
qed

text \<open>The polynomial with coefficients \<open>c - 'a' + 1\<close>, low powers first.\<close>

fun letter_poly :: "u8 list \<Rightarrow> nat" where
  "letter_poly [] = 0"
| "letter_poly (c # cs) = (unat c - 96) + 31 * letter_poly cs"

lemma unat_add_mult_small:
  fixes h p :: u64
  assumes "unat h < 1000000009" and "unat p < 1000000009" and "k \<le> 31"
  shows "unat (h + word_of_nat k * p) = unat h + k * unat p"
proof -
  have "k * unat p \<le> 31 * 1000000009" using assms by (intro mult_le_mono) auto
  then show ?thesis using assms by (simp add: unat_word_ariths unat_of_nat)
qed

lemma poly_step:
  assumes "unat hash < 1000000009" and "unat p_pow < 1000000009" and "96 < unat c" and "unat c < 128"
  shows "unat ((hash + word_of_int (sint (c :: u8) - 97 + 1) * p_pow) mod (1000000009 :: u64)) =
      (unat hash + (unat c - 96) * unat p_pow) mod 1000000009"
    and "unat ((p_pow * 31) mod (1000000009 :: u64)) = (unat p_pow * 31) mod 1000000009"
proof -
  have u: "uint c < 128" unfolding uint_nat using assms(4) by linarith
  then have "\<not> bit (uint c) 7" by (simp add: bit_iff_odd)
  then have "sint c = int (unat c)" using u
    by (simp add: sint_uint signed_take_bit_eq_if_positive take_bit_int_eq_self)
  then have "sint c - 97 + 1 = int (unat c - 96)" using assms(3) by simp
  then have c: "word_of_int (sint c - 97 + 1) = (word_of_nat (unat c - 96) :: u64)"
    by (simp only: of_int_of_nat_eq)
  have "unat (hash + word_of_nat (unat c - 96) * p_pow) = unat hash + (unat c - 96) * unat p_pow"
    using assms by (intro unat_add_mult_small) auto
  then show "unat ((hash + word_of_int (sint c - 97 + 1) * p_pow) mod (1000000009 :: u64)) =
      (unat hash + (unat c - 96) * unat p_pow) mod 1000000009"
    unfolding c by (simp add: unat_mod_distrib)
  show "unat ((p_pow * 31) mod (1000000009 :: u64)) = (unat p_pow * 31) mod 1000000009"
    using assms(2) by (simp add: unat_mod_distrib unat_word_ariths)
qed

lemma mod_tail: "(a mod m + (b mod m) * r) mod m = (a + b * r) mod (m :: nat)"
proof -
  have "(b mod m * r) mod m = (b * r) mod m" by (rule mod_mult_left_eq)
  then show ?thesis by (rule mod_add_cong [OF mod_mod_trivial])
qed

lemma poly_loop_correct:
  "\<forall>c \<in> set str. 96 < unat c \<and> unat c < 128 \<Longrightarrow> unat hash < 1000000009 \<Longrightarrow> unat p_pow < 1000000009 \<Longrightarrow>
     unat (poly_loop hash p_pow str len) =
       (unat hash + unat p_pow * letter_poly (hashed_bytes str len)) mod 1000000009"
proof (induction hash p_pow str len rule: poly_loop.induct)
  case (1 hash p_pow len)
  then show ?case by simp
next
  case (2 hash p_pow c str len)
  show ?case
  proof (cases "c = 0 \<or> len = 0")
    case True
    with 2 show ?thesis by auto
  next
    case False
    let ?h = "(hash + word_of_int (sint c - 97 + 1) * p_pow) mod 1000000009"
    let ?p = "(p_pow * 31) mod 1000000009"
    let ?r = "letter_poly (hashed_bytes str (len - 1))"
    have c: "96 < unat c" "unat c < 128" using 2(2) by auto
    note step = poly_step [OF 2(3,4) c]
    have "unat (poly_loop ?h ?p str (len - 1)) = (unat ?h + unat ?p * ?r) mod 1000000009"
      using 2 False step by simp
    also have "\<dots> = (unat hash + (unat c - 96) * unat p_pow + (unat p_pow * 31) * ?r) mod 1000000009"
      unfolding step by (rule mod_tail)
    finally show ?thesis using False by (simp add: algebra_simps)
  qed
qed

text \<open>\<open>poly_hash\<close> of a string of lower-case letters is the polynomial rolling hash modulo
  \<open>10^9 + 9\<close> in base 31, with no wrap-around on the way.
\<close>

theorem poly_hash_is_polynomial:
  assumes "\<forall>c \<in> set str. 96 < unat c \<and> unat c < 128"
  shows "unat (poly_hash str len) = letter_poly (hashed_bytes str len) mod 1000000009"
  using poly_loop_correct [OF assms, of 0 1 len] by (simp add: poly_hash_def)

theorem poly_hash_is_polynomial_witness:
  "unat (poly_hash [97, 98] (- 1)) = letter_poly (hashed_bytes [97, 98] (- 1)) mod 1000000009"
  by (rule poly_hash_is_polynomial) simp

end
