(* ===== verification/HashMap.thy ===== *)
theory HashMap
  imports StrHash NumUtils
begin

text \<open>
  The chained hash table of \<open>src/hashmap.c\<close>: a pool of \<open>capacity\<close> buckets, a power of two, each
  a singly linked chain of items in a heap.  Keys are the byte strings that \<open>strdup\<close> copies;
  values are addresses.  \<open>malloc\<close> is a parameter that returns an unused address.  An assertion
  that fails, a NULL dereference and a use after free are \<open>None\<close>.  \<open>hm_repr h m bs\<close> relates a
  table to its buckets, \<open>hm_abs\<close> to the finite map it stands for; the locale \<open>dictionary\<close> is
  the contract of a map with lookup, insertion and deletion.
\<close>

record item =
  it_next :: addr
  it_hash :: u32
  it_key :: "u8 list"
  it_val :: addr

record hash_map =
  hm_pool :: "addr list"
  hm_capacity :: nat
  hm_count :: nat

abbreviation get_it_next :: "item heap \<Rightarrow> addr \<Rightarrow> addr option" where
  "get_it_next h p \<equiv> map_option it_next (deref h p)"

abbreviation set_it_next :: "item heap \<Rightarrow> addr \<Rightarrow> addr \<Rightarrow> item heap option" where
  "set_it_next h p v \<equiv> update h p (it_next_update (\<lambda>_. v))"

subsection \<open>The operations\<close>

definition hash_fn :: "u8 list \<Rightarrow> u32" where
  "hash_fn key = hash32_djb2 key (- 1)"

text \<open>\<open>hash & (capacity - 1)\<close>; on capacity 0 the mask is \<open>SIZE_MAX\<close>.\<close>

definition pool_pos :: "nat \<Rightarrow> u32 \<Rightarrow> nat" where
  "pool_pos cap hash = (if cap = 0 then unat hash else unat hash AND (cap - 1))"

text \<open>
  \<open>MAP_DENSITY(map) > 0.8\<close>.  The capacity is a power of two, so the quotient of the two
  doubles is exact, and the double nearest 0.8 is \<open>3602879701896397 / 2 ^ 52\<close>.
\<close>

definition too_dense :: "hash_map \<Rightarrow> bool" where
  "too_dense m \<longleftrightarrow> hm_count m * 2 ^ 52 > 3602879701896397 * hm_capacity m"

partial_function (option) count_chain :: "item heap \<Rightarrow> addr \<Rightarrow> nat \<Rightarrow> nat option" where
  "count_chain h it count =
     (if it = NULL then Some count
      else do { nx \<leftarrow> get_it_next h it; count_chain h nx (count + 1) })"

fun count_pool :: "item heap \<Rightarrow> addr list \<Rightarrow> nat \<Rightarrow> nat \<Rightarrow> nat \<Rightarrow> nat option" where
  "count_pool h pool i 0 count = Some count"
| "count_pool h pool i (Suc n) count = do {
     it \<leftarrow> get_at pool i;
     count \<leftarrow> count_chain h it count;
     count_pool h pool (i + 1) n count
   }"

definition hash_map_count :: "item heap \<Rightarrow> hash_map \<Rightarrow> nat option" where
  "hash_map_count h m = count_pool h (hm_pool m) 0 (hm_capacity m) 0"

definition hash_map_lint :: "item heap \<Rightarrow> hash_map \<Rightarrow> unit option" where
  "hash_map_lint h m = do {
     count \<leftarrow> hash_map_count h m;
     if count = hm_count m then Some () else None
   }"

partial_function (option) rehash_chain ::
    "item heap \<Rightarrow> addr list \<Rightarrow> nat \<Rightarrow> nat \<Rightarrow> addr \<Rightarrow> addr \<Rightarrow> (item heap \<times> addr list) option" where
  "rehash_chain h pool cap pivot prev it =
     (if it = NULL then Some (h, pool)
      else do {
        n \<leftarrow> deref h it;
        let target = pool_pos cap (it_hash n);
        if \<not> target < cap then None
        else if pivot \<noteq> target then do {
          (h, pool) \<leftarrow>
            (if prev \<noteq> NULL then do { h \<leftarrow> set_it_next h prev (it_next n); Some (h, pool) }
             else do { pool \<leftarrow> set_at pool pivot (it_next n); Some (h, pool) });
          temp \<leftarrow> get_it_next h it;
          t \<leftarrow> get_at pool target;
          h \<leftarrow> set_it_next h it t;
          pool \<leftarrow> set_at pool target it;
          rehash_chain h pool cap pivot prev temp
        } else rehash_chain h pool cap pivot it (it_next n)
      })"

fun rehash_pivots ::
    "item heap \<Rightarrow> addr list \<Rightarrow> nat \<Rightarrow> nat \<Rightarrow> nat \<Rightarrow> (item heap \<times> addr list) option" where
  "rehash_pivots h pool cap pivot 0 = Some (h, pool)"
| "rehash_pivots h pool cap pivot (Suc n) = do {
     it \<leftarrow> get_at pool pivot;
     (h, pool) \<leftarrow> rehash_chain h pool cap pivot NULL it;
     rehash_pivots h pool cap (pivot + 1) n
   }"

text \<open>\<open>safe_realloc_zero\<close> asserts that the size changes and zeroes the new half.\<close>

definition hash_map_rehash :: "item heap \<Rightarrow> hash_map \<Rightarrow> (item heap \<times> hash_map) option" where
  "hash_map_rehash h m = do {
     let old_capacity = hm_capacity m;
     let cap = old_capacity * 2;
     pool \<leftarrow> (if old_capacity = cap then None
             else Some (hm_pool m @ replicate (cap - old_capacity) NULL));
     (h, pool) \<leftarrow> rehash_pivots h pool cap 0 old_capacity;
     let m = m\<lparr>hm_pool := pool, hm_capacity := cap\<rparr>;
     hash_map_lint h m;
     Some (h, m)
   }"

definition HASH_MAP_BASE_SIZE :: u32 where [simp]: "HASH_MAP_BASE_SIZE = 32"

definition hash_map_init :: "hash_map" where
  "hash_map_init =
     (let sz = unat (round_up_pow2 HASH_MAP_BASE_SIZE)
      in \<lparr>hm_pool = replicate sz NULL, hm_capacity = sz, hm_count = 0\<rparr>)"

text \<open>
  The search loop of insert, get and delete: the last item before the one found, and the
  item, or NULL.  Comparing keys dereferences the argument, which a caller may pass as NULL
  to look up by hash alone.
\<close>

partial_function (option) hm_find ::
    "item heap \<Rightarrow> addr \<Rightarrow> addr \<Rightarrow> u8 list option \<Rightarrow> u32 \<Rightarrow> (addr \<times> addr) option" where
  "hm_find h prev it key hash =
     (if it = NULL then Some (prev, it)
      else do {
        n \<leftarrow> deref h it;
        eq \<leftarrow> (if it_hash n = hash then (case key of None \<Rightarrow> None | Some k \<Rightarrow> Some (it_key n = k))
               else Some False);
        if eq then Some (prev, it) else hm_find h it (it_next n) key hash
      })"

definition hash_map_insert ::
    "(item heap \<Rightarrow> addr) \<Rightarrow> item heap \<Rightarrow> hash_map \<Rightarrow> u8 list \<Rightarrow> addr \<Rightarrow> (u32 \<times> item heap \<times> hash_map) option" where
  "hash_map_insert malloc h m key val = do {
     (h, m) \<leftarrow> (if too_dense m then hash_map_rehash h m else Some (h, m));
     let hash = hash_fn key;
     let pos = pool_pos (hm_capacity m) hash;
     first \<leftarrow> get_at (hm_pool m) pos;
     (prev, it) \<leftarrow> hm_find h first first (Some key) hash;
     if it \<noteq> NULL then do {
       h \<leftarrow> update h it (it_val_update (\<lambda>_. val));
       n \<leftarrow> deref h it;
       Some (it_hash n, h, m)
     } else do {
       let it = malloc h;
       let h = h(it \<mapsto> \<lparr>it_next = NULL, it_hash = hash, it_key = key, it_val = val\<rparr>);
       (h, m) \<leftarrow>
         (if prev \<noteq> NULL then do { h \<leftarrow> set_it_next h prev it; Some (h, m) }
          else do { pool \<leftarrow> set_at (hm_pool m) pos it; Some (h, m\<lparr>hm_pool := pool\<rparr>) });
       let m = m\<lparr>hm_count := hm_count m + 1\<rparr>;
       n \<leftarrow> deref h it;
       Some (it_hash n, h, m)
     }
   }"

definition hash_map_get :: "item heap \<Rightarrow> hash_map \<Rightarrow> u8 list option \<Rightarrow> u32 \<Rightarrow> addr option" where
  "hash_map_get h m key key_hash = do {
     let hash = (case key of Some k \<Rightarrow> hash_fn k | None \<Rightarrow> key_hash);
     let pos = pool_pos (hm_capacity m) hash;
     first \<leftarrow> get_at (hm_pool m) pos;
     (prev, it) \<leftarrow> hm_find h NULL first key hash;
     if it \<noteq> NULL then map_option it_val (deref h it) else Some NULL
   }"

text \<open>Freed items leave the heap.  When an item is found the count is positive.\<close>

definition hash_map_delete ::
    "item heap \<Rightarrow> hash_map \<Rightarrow> u8 list option \<Rightarrow> u32 \<Rightarrow> (addr \<times> item heap \<times> hash_map) option" where
  "hash_map_delete h m key key_hash = do {
     let hash = (case key of Some k \<Rightarrow> hash_fn k | None \<Rightarrow> key_hash);
     let pos = pool_pos (hm_capacity m) hash;
     first \<leftarrow> get_at (hm_pool m) pos;
     (prev, it) \<leftarrow> hm_find h NULL first key hash;
     if it \<noteq> NULL then do {
       n \<leftarrow> deref h it;
       (h, m) \<leftarrow>
         (if prev \<noteq> NULL then do { h \<leftarrow> set_it_next h prev (it_next n); Some (h, m) }
          else do { pool \<leftarrow> set_at (hm_pool m) pos (it_next n); Some (h, m\<lparr>hm_pool := pool\<rparr>) });
       let h = h(it := None);
       Some (it_val n, h, m\<lparr>hm_count := hm_count m - 1\<rparr>)
     } else Some (NULL, h, m)
   }"

text \<open>Freeing the table: the callback's calls are logged in order.\<close>

partial_function (option) free_chain ::
    "item heap \<Rightarrow> addr \<Rightarrow> (u8 list \<times> addr) list \<Rightarrow> (item heap \<times> (u8 list \<times> addr) list) option" where
  "free_chain h it acc =
     (if it = NULL then Some (h, acc)
      else do {
        n \<leftarrow> deref h it;
        free_chain (h(it := None)) (it_next n) (acc @ [(it_key n, it_val n)])
      })"

fun free_pool ::
    "item heap \<Rightarrow> addr list \<Rightarrow> nat \<Rightarrow> nat \<Rightarrow> (u8 list \<times> addr) list \<Rightarrow> (item heap \<times> (u8 list \<times> addr) list) option" where
  "free_pool h pool pos 0 acc = Some (h, acc)"
| "free_pool h pool pos (Suc n) acc = do {
     it \<leftarrow> get_at pool pos;
     (h, acc) \<leftarrow> free_chain h it acc;
     free_pool h pool (pos + 1) n acc
   }"

definition hash_map_free :: "item heap \<Rightarrow> hash_map \<Rightarrow> (item heap \<times> hash_map \<times> (u8 list \<times> addr) list) option" where
  "hash_map_free h m = do {
     (h, acc) \<leftarrow> free_pool h (hm_pool m) 0 (hm_capacity m) [];
     Some (h, m\<lparr>hm_pool := [], hm_capacity := 0\<rparr>, acc)
   }"

record hash_map_iterator =
  iter_pos :: nat
  iter_item :: addr

definition hash_map_it_init :: "hash_map_iterator" where
  "hash_map_it_init = \<lparr>iter_pos = 0, iter_item = NULL\<rparr>"

text \<open>\<open>while (it->pos < capacity && pool[it->pos] == NULL) it->pos++\<close>, from \<open>n\<close> buckets before the end.\<close>

fun skip_empty :: "addr list \<Rightarrow> nat \<Rightarrow> nat \<Rightarrow> nat option" where
  "skip_empty pool pos 0 = Some pos"
| "skip_empty pool pos (Suc n) = do {
     p \<leftarrow> get_at pool pos;
     if p = NULL then skip_empty pool (pos + 1) n else Some pos
   }"

definition hash_map_it_next ::
    "item heap \<Rightarrow> hash_map \<Rightarrow> hash_map_iterator \<Rightarrow> ((u8 list \<times> addr) option \<times> hash_map_iterator) option" where
  "hash_map_it_next h m it =
     (if iter_item it \<noteq> NULL then do {
        n \<leftarrow> deref h (iter_item it);
        Some (Some (it_key n, it_val n), it\<lparr>iter_item := it_next n\<rparr>)
      } else do {
        pos \<leftarrow> skip_empty (hm_pool m) (iter_pos it) (hm_capacity m - iter_pos it);
        let it = it\<lparr>iter_pos := pos\<rparr>;
        if pos \<ge> hm_capacity m then Some (None, it)
        else do {
          cur \<leftarrow> get_at (hm_pool m) pos;
          n \<leftarrow> deref h cur;
          Some (Some (it_key n, it_val n), it\<lparr>iter_item := it_next n, iter_pos := pos + 1\<rparr>)
        }
      })"

text \<open>\<open>HASH_MAP_FOREACH\<close>: the pairs visited, in order.\<close>

partial_function (option) foreach_loop ::
    "item heap \<Rightarrow> hash_map \<Rightarrow> hash_map_iterator \<Rightarrow> (u8 list \<times> addr) list \<Rightarrow> (u8 list \<times> addr) list option" where
  "foreach_loop h m it acc = do {
     (out, it) \<leftarrow> hash_map_it_next h m it;
     (case out of None \<Rightarrow> Some acc | Some kv \<Rightarrow> foreach_loop h m it (acc @ [kv]))
   }"

definition hash_map_foreach :: "item heap \<Rightarrow> hash_map \<Rightarrow> (u8 list \<times> addr) list option" where
  "hash_map_foreach h m = foreach_loop h m hash_map_it_init []"

subsection \<open>Buckets\<close>

definition payload :: "item heap \<Rightarrow> addr \<Rightarrow> (u32 \<times> u8 list \<times> addr) option" where
  "payload h a = map_option (\<lambda>n. (it_hash n, it_key n, it_val n)) (h a)"

abbreviation key_at :: "item heap \<Rightarrow> addr \<Rightarrow> u8 list" where
  "key_at h a \<equiv> fst (snd (the (payload h a)))"

abbreviation val_at :: "item heap \<Rightarrow> addr \<Rightarrow> addr" where
  "val_at h a \<equiv> snd (snd (the (payload h a)))"

abbreviation hash_at :: "item heap \<Rightarrow> addr \<Rightarrow> u32" where
  "hash_at h a \<equiv> fst (the (payload h a))"

abbreviation item_pos :: "item heap \<Rightarrow> nat \<Rightarrow> addr \<Rightarrow> nat" where
  "item_pos h cap a \<equiv> pool_pos cap (hash_at h a)"

definition bucket :: "item heap \<Rightarrow> nat \<Rightarrow> nat \<Rightarrow> addr \<Rightarrow> addr list \<Rightarrow> bool" where
  "bucket h cap i p as \<longleftrightarrow> chain it_next h p as \<and> distinct (map (key_at h) as) \<and>
     (\<forall>a \<in> set as. hash_at h a = hash_fn (key_at h a) \<and> item_pos h cap a = i)"

definition hm_repr :: "item heap \<Rightarrow> hash_map \<Rightarrow> (nat \<Rightarrow> addr list) \<Rightarrow> bool" where
  "hm_repr h m bs \<longleftrightarrow> (\<exists>k. hm_capacity m = 2 ^ k) \<and> length (hm_pool m) = hm_capacity m \<and>
     (\<forall>i < hm_capacity m. bucket h (hm_capacity m) i (hm_pool m ! i) (bs i)) \<and>
     hm_count m = (\<Sum>i < hm_capacity m. length (bs i))"

definition entries :: "item heap \<Rightarrow> addr list \<Rightarrow> (u8 list \<times> addr) list" where
  "entries h as = map (\<lambda>a. (key_at h a, val_at h a)) as"

definition hm_abs :: "item heap \<Rightarrow> hash_map \<Rightarrow> (nat \<Rightarrow> addr list) \<Rightarrow> (u8 list \<rightharpoonup> addr)" where
  "hm_abs h m bs key = map_of (entries h (bs (pool_pos (hm_capacity m) (hash_fn key)))) key"

lemma payload_in [simp]: "h a = Some n \<Longrightarrow> payload h a = Some (it_hash n, it_key n, it_val n)"
  by (simp add: payload_def)

lemma payload_next [simp]:
  "h b = Some n \<Longrightarrow> payload (h(b \<mapsto> n\<lparr>it_next := q\<rparr>)) = payload h"
  by (auto simp: payload_def)

lemma bucket_frame:
  "(\<And>a. a \<in> set as \<Longrightarrow> h' a = h a) \<Longrightarrow> bucket h' cap i p as = bucket h cap i p as"
  by (simp add: bucket_def payload_def lseg_cong_dom [of as h' h] cong: map_cong)

lemma entries_payload: "(\<And>a. a \<in> set as \<Longrightarrow> payload h' a = payload h a) \<Longrightarrow> entries h' as = entries h as"
  by (simp add: entries_def)

lemma bucket_disjoint:
  "bucket h cap i p as \<Longrightarrow> bucket h cap j q bs \<Longrightarrow> i \<noteq> j \<Longrightarrow> set as \<inter> set bs = {}"
  by (auto simp: bucket_def)

lemma pool_pos_mod: "pool_pos (2 ^ k) hash = unat hash mod 2 ^ k"
proof -
  have "pool_pos (2 ^ k) hash = unat hash AND mask k" by (simp add: pool_pos_def mask_eq_exp_minus_1)
  also have "\<dots> = take_bit k (unat hash)" by (rule take_bit_eq_mask [symmetric])
  finally show ?thesis by (simp add: take_bit_eq_mod)
qed

lemma pool_pos_less: "pool_pos (2 ^ k) hash < 2 ^ k"
  by (simp add: pool_pos_mod)

lemma pool_pos_double:
  "pool_pos (2 ^ k * 2) hash = pool_pos (2 ^ k) hash \<or>
   pool_pos (2 ^ k * 2) hash = pool_pos (2 ^ k) hash + 2 ^ k"
proof -
  have "unat hash mod (2 ^ k * 2) = 2 ^ k * (unat hash div 2 ^ k mod 2) + unat hash mod 2 ^ k"
    by (rule mod_mult2_eq)
  moreover have "unat hash div 2 ^ k mod 2 = 0 \<or> unat hash div 2 ^ k mod 2 = 1" by linarith
  ultimately show ?thesis using pool_pos_mod [of k hash] pool_pos_mod [of "Suc k" hash]
    by (auto simp: mult.commute)
qed

lemma hm_repr_bucket:
  assumes "hm_repr h m bs"
  shows "pool_pos (hm_capacity m) hash < hm_capacity m"
    and "pool_pos (hm_capacity m) hash < length (hm_pool m)"
    and "bucket h (hm_capacity m) (pool_pos (hm_capacity m) hash)
      (hm_pool m ! pool_pos (hm_capacity m) hash) (bs (pool_pos (hm_capacity m) hash))"
  using assms pool_pos_less by (auto simp: hm_repr_def)

text \<open>The map as a set of items.\<close>

definition items :: "hash_map \<Rightarrow> (nat \<Rightarrow> addr list) \<Rightarrow> addr set" where
  "items m bs = (\<Union>i < hm_capacity m. set (bs i))"

lemma hm_abs_iff:
  assumes "hm_repr h m bs"
  shows "hm_abs h m bs key = Some v \<longleftrightarrow> (\<exists>a \<in> items m bs. key_at h a = key \<and> val_at h a = v)"
proof -
  let ?i = "pool_pos (hm_capacity m) (hash_fn key)"
  note b = hm_repr_bucket [OF assms, of "hash_fn key"]
  have "map_of (entries h (bs ?i)) key = Some v \<longleftrightarrow> (key, v) \<in> set (entries h (bs ?i))"
    using b(3) by (intro map_of_eq_Some_iff) (simp add: entries_def bucket_def comp_def)
  also have "\<dots> \<longleftrightarrow> (\<exists>a \<in> set (bs ?i). key_at h a = key \<and> val_at h a = v)"
    by (auto simp: entries_def prod_eq_iff)
  also have "\<dots> \<longleftrightarrow> (\<exists>a \<in> items m bs. key_at h a = key \<and> val_at h a = v)"
  proof
    assume "\<exists>a \<in> items m bs. key_at h a = key \<and> val_at h a = v"
    then obtain i a where i: "i < hm_capacity m" "a \<in> set (bs i)" "key_at h a = key" "val_at h a = v"
      by (auto simp: items_def)
    then have "bucket h (hm_capacity m) i (hm_pool m ! i) (bs i)" using assms by (simp add: hm_repr_def)
    with i have "i = ?i" by (auto simp: bucket_def)
    with i show "\<exists>a \<in> set (bs ?i). key_at h a = key \<and> val_at h a = v" by blast
  qed (use b(1) in \<open>auto simp: items_def\<close>)
  finally show ?thesis by (simp add: hm_abs_def)
qed

lemma option_eqI: "(\<And>v. x = Some v \<longleftrightarrow> y = Some v) \<Longrightarrow> x = y"
  by (cases x; cases y) auto

lemma hm_repr_disjoint:
  assumes "hm_repr h m bs" and "i < hm_capacity m" and "j < hm_capacity m" and "i \<noteq> j"
  shows "set (bs i) \<inter> set (bs j) = {}"
  using assms bucket_disjoint unfolding hm_repr_def by meson

subsection \<open>Searching\<close>

lemma hm_find_found:
  assumes "chain it_next h it (as @ a # cs)" and "\<forall>b \<in> set as. key_at h b \<noteq> key"
    and "key_at h a = key" and "hash_at h a = hash"
  shows "hm_find h prev it (Some key) hash = Some (if as = [] then prev else last as, a)"
  using assms
proof (induction as arbitrary: it prev)
  case Nil
  then show ?case by (subst hm_find.simps) (auto split: option.splits)
next
  case (Cons b as)
  then obtain n where "it = b" "b \<noteq> NULL" "h b = Some n" "chain it_next h (it_next n) (as @ a # cs)"
    "it_key n \<noteq> key" by (auto split: option.splits)
  with Cons show ?case by (subst hm_find.simps) auto
qed

lemma hm_find_missing:
  assumes "chain it_next h it as" and "\<forall>b \<in> set as. key_at h b \<noteq> key"
  shows "hm_find h prev it (Some key) hash = Some (if as = [] then prev else last as, NULL)"
  using assms
proof (induction as arbitrary: it prev)
  case Nil
  then show ?case by (subst hm_find.simps) simp
next
  case (Cons b as)
  then obtain n where "it = b" "b \<noteq> NULL" "h b = Some n" "chain it_next h (it_next n) as"
    "it_key n \<noteq> key" by (auto split: option.splits)
  with Cons show ?case by (subst hm_find.simps) auto
qed

text \<open>Looking up a key in a bucket by its position in the chain.\<close>

lemma bucket_key_split:
  assumes "bucket h cap i p as" and "map_of (entries h as) key = Some v"
  obtains xs a ys where "as = xs @ a # ys" "\<forall>b \<in> set xs \<union> set ys. key_at h b \<noteq> key"
    "key_at h a = key" "val_at h a = v" "hash_at h a = hash_fn key"
proof -
  from assms(2) obtain a where a: "a \<in> set as" "key_at h a = key" "val_at h a = v"
    by (auto simp: entries_def dest!: map_of_SomeD) (metis fst_conv snd_conv)
  then obtain xs ys where as: "as = xs @ a # ys" by (auto dest: split_list)
  with assms(1) a(2) have "\<forall>b \<in> set xs \<union> set ys. key_at h b \<noteq> key" "hash_at h a = hash_fn key"
    by (auto simp: bucket_def) (metis image_eqI)+
  with that as a show thesis by blast
qed

lemma bucket_key_missing: "map_of (entries h as) key = None \<Longrightarrow> \<forall>b \<in> set as. key_at h b \<noteq> key"
  by (auto simp: entries_def map_of_eq_None_iff)

text \<open>NULL for a missing key, as the code answers.\<close>

definition or_null :: "addr option \<Rightarrow> addr" where
  "or_null v = (case v of None \<Rightarrow> NULL | Some a \<Rightarrow> a)"

lemma hash_map_get_correct:
  assumes "hm_repr h m bs"
  shows "hash_map_get h m (Some key) kh = Some (or_null (hm_abs h m bs key))"
proof -
  let ?i = "pool_pos (hm_capacity m) (hash_fn key)"
  note b = hm_repr_bucket [OF assms, of "hash_fn key"]
  have ch: "chain it_next h (hm_pool m ! ?i) (bs ?i)" using b(3) by (simp add: bucket_def)
  show ?thesis
  proof (cases "hm_abs h m bs key")
    case None
    then have "\<forall>b \<in> set (bs ?i). key_at h b \<noteq> key" by (simp add: hm_abs_def bucket_key_missing)
    from hm_find_missing [OF ch this] None b(2) show ?thesis
      by (simp add: hash_map_get_def or_null_def)
  next
    case (Some v)
    then have "map_of (entries h (bs ?i)) key = Some v" by (simp add: hm_abs_def)
    from bucket_key_split [OF b(3) this] obtain xs a ys where s: "bs ?i = xs @ a # ys"
      "\<forall>b \<in> set xs \<union> set ys. key_at h b \<noteq> key" "key_at h a = key" "val_at h a = v"
      "hash_at h a = hash_fn key" .
    have "\<forall>b \<in> set xs. key_at h b \<noteq> key" using s(2) by blast
    from hm_find_found [OF ch [unfolded s(1)] this s(3,5)]
    have "hm_find h NULL (hm_pool m ! ?i) (Some key) (hash_fn key) = Some (if xs = [] then NULL else last xs, a)" .
    moreover obtain n where "a \<noteq> NULL" "h a = Some n"
      using lseg_alloc [OF ch, of a] s(1) by auto
    ultimately show ?thesis using Some s(4) b(2) by (simp add: hash_map_get_def or_null_def)
  qed
qed

subsection \<open>Rehashing\<close>

lemma rehash_chain_correct:
  assumes "chain it_next h (pool ! i) (as @ rs)" and "chain it_next h it rs"
    and "chain it_next h (pool ! t) ts" and "distinct (as @ rs @ ts)"
    and "prev = (if as = [] then NULL else last as)" and "i \<noteq> t" and "i < cap" and "t < cap"
    and "length pool = cap" and "\<forall>a \<in> set rs. item_pos h cap a = i \<or> item_pos h cap a = t"
  shows "\<exists>h' pool'. rehash_chain h pool cap i prev it = Some (h', pool') \<and>
    chain it_next h' (pool' ! i) (as @ filter (\<lambda>a. item_pos h cap a = i) rs) \<and>
    chain it_next h' (pool' ! t) (rev (filter (\<lambda>a. item_pos h cap a \<noteq> i) rs) @ ts) \<and>
    (\<forall>a. a \<notin> set (as @ rs @ ts) \<longrightarrow> h' a = h a) \<and> payload h' = payload h \<and> dom h' = dom h \<and>
    length pool' = cap \<and> (\<forall>j. j \<noteq> i \<longrightarrow> j \<noteq> t \<longrightarrow> pool' ! j = pool ! j)"
  using assms
proof (induction rs arbitrary: h pool as ts it prev)
  case Nil
  then show ?case by (subst rehash_chain.simps) auto
next
  case (Cons a rs)
  then obtain n where a: "it = a" "a \<noteq> NULL" "h a = Some n" and rs: "chain it_next h (it_next n) rs"
    by (auto split: option.splits)
  have dist: "a \<notin> set as" "a \<notin> set rs" "a \<notin> set ts" "distinct (as @ rs @ a # ts)"
    using Cons.prems(4) by auto
  show ?case
  proof (cases "item_pos h cap a = i")
    case True
    have "chain it_next h (pool ! i) ((as @ [a]) @ rs)" using Cons.prems(1) by simp
    from Cons.IH [OF this rs Cons.prems(3), of a] Cons.prems(4,6-10) obtain h' pool' where
      ih: "rehash_chain h pool cap i a (it_next n) = Some (h', pool')"
      "chain it_next h' (pool' ! i) ((as @ [a]) @ filter (\<lambda>a. item_pos h cap a = i) rs)"
      "chain it_next h' (pool' ! t) (rev (filter (\<lambda>a. item_pos h cap a \<noteq> i) rs) @ ts)"
      "\<forall>x. x \<notin> set ((as @ [a]) @ rs @ ts) \<longrightarrow> h' x = h x" "payload h' = payload h" "dom h' = dom h"
      "length pool' = cap" "\<forall>j. j \<noteq> i \<longrightarrow> j \<noteq> t \<longrightarrow> pool' ! j = pool ! j"
      by auto
    have "rehash_chain h pool cap i prev it = rehash_chain h pool cap i a (it_next n)"
      using a True Cons.prems(7) by (subst rehash_chain.simps) simp
    with ih True show ?thesis by auto
  next
    case False
    then have t: "item_pos h cap a = t" using Cons.prems(10) by auto
    obtain h1 pool1 where one:
      "(if prev \<noteq> NULL then do { h \<leftarrow> set_it_next h prev (it_next n); Some (h, pool) }
        else do { pool \<leftarrow> set_at pool i (it_next n); Some (h, pool) }) = Some (h1, pool1)"
      "chain it_next h1 (pool1 ! i) (as @ rs)" "chain it_next h1 (it_next n) rs"
      "h1 a = Some n" "pool1 ! t = pool ! t" "chain it_next h1 (pool1 ! t) ts" "length pool1 = cap"
      "\<forall>x. x \<notin> set as \<longrightarrow> h1 x = h x" "payload h1 = payload h" "dom h1 = dom h"
      "\<forall>j. j \<noteq> i \<longrightarrow> pool1 ! j = pool ! j"
    proof (cases as rule: rev_cases)
      case Nil
      with Cons.prems a rs that [of h "pool[i := it_next n]"] show thesis by simp
    next
      case (snoc as' b)
      then have b: "b \<noteq> a" "b \<notin> set as'" "b \<notin> set rs" "b \<notin> set ts" using Cons.prems(4) by auto
      from Cons.prems(1) snoc obtain nb where nb: "b \<noteq> NULL" "h b = Some nb" "lseg it_next h (pool ! i) as' b"
        by (auto simp: lseg_append split: option.splits)
      then have "chain it_next (h(b \<mapsto> nb\<lparr>it_next := it_next n\<rparr>)) (pool ! i) (as @ rs)"
        using snoc b rs by (auto simp: lseg_append)
      with that [of "h(b \<mapsto> nb\<lparr>it_next := it_next n\<rparr>)" pool] Cons.prems snoc nb b a rs show thesis
        by (auto simp: insert_absorb domI)
    qed
    let ?h2 = "h1(a \<mapsto> n\<lparr>it_next := pool ! t\<rparr>)" and ?pool2 = "pool1[t := a]"
    have pl: "payload ?h2 = payload h" using one(4,9) by simp
    have c: "chain it_next ?h2 (?pool2 ! i) (as @ rs)" "chain it_next ?h2 (it_next n) rs"
      "chain it_next ?h2 (?pool2 ! t) (a # ts)" "length ?pool2 = cap"
      using one dist Cons.prems(6-8) a by auto
    have "\<forall>a \<in> set rs. item_pos ?h2 cap a = i \<or> item_pos ?h2 cap a = t"
      unfolding pl using Cons.prems(10) by simp
    from Cons.IH [OF c(1,2,3) dist(4) Cons.prems(5-8) c(4) this, unfolded pl] obtain h' pool' where
      ih: "rehash_chain ?h2 ?pool2 cap i prev (it_next n) = Some (h', pool')"
      "chain it_next h' (pool' ! i) (as @ filter (\<lambda>a. item_pos h cap a = i) rs)"
      "chain it_next h' (pool' ! t) (rev (filter (\<lambda>a. item_pos h cap a \<noteq> i) rs) @ a # ts)"
      "\<forall>x. x \<notin> set (as @ rs @ a # ts) \<longrightarrow> h' x = ?h2 x" "payload h' = payload h" "dom h' = dom ?h2"
      "length pool' = cap" "\<forall>j. j \<noteq> i \<longrightarrow> j \<noteq> t \<longrightarrow> pool' ! j = ?pool2 ! j"
      by blast
    have "rehash_chain h pool cap i prev it = rehash_chain ?h2 ?pool2 cap i prev (it_next n)"
      using a t one(1,4,5,7) Cons.prems(6,8)
      by (subst rehash_chain.simps) (simp split del: if_split)
    with ih pl one False t show ?thesis by (auto simp: insert_absorb domI)
  qed
qed

text \<open>All pivots: bucket \<open>i\<close> splits into the items that stay and, reversed, those that move.\<close>

definition staying :: "item heap \<Rightarrow> nat \<Rightarrow> (nat \<Rightarrow> addr list) \<Rightarrow> nat \<Rightarrow> addr list" where
  "staying h cap bs i = filter (\<lambda>a. item_pos h cap a = i) (bs i)"

definition moving :: "item heap \<Rightarrow> nat \<Rightarrow> (nat \<Rightarrow> addr list) \<Rightarrow> nat \<Rightarrow> addr list" where
  "moving h cap bs i = rev (filter (\<lambda>a. item_pos h cap a \<noteq> i) (bs i))"

definition rehashed :: "item heap \<Rightarrow> nat \<Rightarrow> (nat \<Rightarrow> addr list) \<Rightarrow> nat \<Rightarrow> item heap \<Rightarrow> addr list \<Rightarrow> bool" where
  "rehashed h0 old bs p h pool \<longleftrightarrow> length pool = old * 2 \<and> payload h = payload h0 \<and> dom h = dom h0 \<and>
     (\<forall>i < p. chain it_next h (pool ! i) (staying h0 (old * 2) bs i) \<and>
       chain it_next h (pool ! (i + old)) (moving h0 (old * 2) bs i)) \<and>
     (\<forall>i. p \<le> i \<and> i < old \<longrightarrow> chain it_next h (pool ! i) (bs i) \<and> pool ! (i + old) = NULL)"

lemma rehash_step:
  assumes r: "rehashed h0 old bs p h pool" and p: "p < old"
    and pos: "\<forall>a \<in> set (bs p). item_pos h0 (old * 2) a = p \<or> item_pos h0 (old * 2) a = p + old"
    and disj: "\<forall>i < old. i \<noteq> p \<longrightarrow> set (bs i) \<inter> set (bs p) = {}"
  shows "\<exists>h' pool'. rehash_chain h pool (old * 2) p NULL (pool ! p) = Some (h', pool') \<and>
    rehashed h0 old bs (Suc p) h' pool'"
proof -
  have pl: "payload h = payload h0" and len: "length pool = old * 2" and
    c: "chain it_next h (pool ! p) ([] @ bs p)" "chain it_next h (pool ! p) (bs p)"
    and n: "chain it_next h (pool ! (p + old)) []"
    using r p by (auto simp: rehashed_def)
  have d: "distinct ([] @ bs p @ [])" using chain_distinct [OF c(2)] by simp
  have "\<forall>a \<in> set (bs p). item_pos h (old * 2) a = p \<or> item_pos h (old * 2) a = p + old"
    unfolding pl by (rule pos)
  from rehash_chain_correct [OF c n d refl, of "old * 2"] this p len obtain h' pool' where
    s: "rehash_chain h pool (old * 2) p NULL (pool ! p) = Some (h', pool')"
    "chain it_next h' (pool' ! p) (staying h0 (old * 2) bs p)"
    "chain it_next h' (pool' ! (p + old)) (moving h0 (old * 2) bs p)"
    "\<forall>a. a \<notin> set (bs p) \<longrightarrow> h' a = h a" "payload h' = payload h0" "dom h' = dom h"
    "length pool' = old * 2" "\<forall>j. j \<noteq> p \<longrightarrow> j \<noteq> p + old \<longrightarrow> pool' ! j = pool ! j"
    by (auto simp: pl staying_def moving_def)
  have other: "chain it_next h' (pool' ! j) cs \<longleftrightarrow> chain it_next h (pool ! j) cs"
    if "j \<noteq> p" "j \<noteq> p + old" "set cs \<subseteq> set (bs i)" "i < old" "i \<noteq> p" for i j cs
  proof -
    have "h' a = h a" if "a \<in> set cs" for a
      using that \<open>set cs \<subseteq> set (bs i)\<close> disj \<open>i < old\<close> \<open>i \<noteq> p\<close> s(4) by blast
    then have "chain it_next h' (pool' ! j) cs = chain it_next h (pool' ! j) cs"
      by (rule lseg_cong_dom)
    then show ?thesis using s(8) that(1,2) by simp
  qed
  have sub: "set (staying h0 (old * 2) bs i) \<subseteq> set (bs i)" "set (moving h0 (old * 2) bs i) \<subseteq> set (bs i)" for i
    by (auto simp: staying_def moving_def)
  have "chain it_next h' (pool' ! i) (staying h0 (old * 2) bs i) \<and>
      chain it_next h' (pool' ! (i + old)) (moving h0 (old * 2) bs i)" if "i < Suc p" for i
  proof (cases "i = p")
    case True
    then show ?thesis using s(2,3) by simp
  next
    case False
    then have i: "i < p" using that by simp
    then show ?thesis
      using r p other [OF _ _ sub(1), of i i] other [OF _ _ sub(2), of "i + old" i]
      by (simp add: rehashed_def)
  qed
  moreover have "chain it_next h' (pool' ! i) (bs i) \<and> pool' ! (i + old) = NULL" if "Suc p \<le> i" "i < old" for i
    using r that p other [of i "bs i" i] s(8) by (simp add: rehashed_def)
  moreover have "dom h = dom h0" using r by (simp add: rehashed_def)
  ultimately have "rehashed h0 old bs (Suc p) h' pool'"
    using s(5,6,7) unfolding rehashed_def by blast
  with s(1) show ?thesis by blast
qed

lemma rehash_pivots_correct:
  assumes pos: "\<forall>i < old. \<forall>a \<in> set (bs i). item_pos h0 (old * 2) a = i \<or> item_pos h0 (old * 2) a = i + old"
    and disj: "\<forall>i < old. \<forall>j < old. i \<noteq> j \<longrightarrow> set (bs i) \<inter> set (bs j) = {}"
  shows "p + n = old \<Longrightarrow> rehashed h0 old bs p h pool \<Longrightarrow>
    \<exists>h' pool'. rehash_pivots h pool (old * 2) p n = Some (h', pool') \<and> rehashed h0 old bs old h' pool'"
proof (induction n arbitrary: p h pool)
  case 0
  then show ?case by simp
next
  case (Suc n)
  have p: "p < old" using Suc.prems(1) by simp
  from rehash_step [OF Suc.prems(2) p] pos disj p obtain h' pool' where
    s: "rehash_chain h pool (old * 2) p NULL (pool ! p) = Some (h', pool')" "rehashed h0 old bs (Suc p) h' pool'"
    by blast
  from Suc.IH [OF _ s(2)] Suc.prems(1) obtain h2 pool2 where
    "rehash_pivots h' pool' (old * 2) (Suc p) n = Some (h2, pool2)" "rehashed h0 old bs old h2 pool2" by auto
  moreover have "p < length pool" using Suc.prems(2) p by (simp add: rehashed_def)
  ultimately show ?case using s(1) by simp
qed

lemma count_chain_correct: "chain it_next h it as \<Longrightarrow> count_chain h it c = Some (c + length as)"
proof (induction as arbitrary: it c)
  case Nil
  then show ?case by (subst count_chain.simps) simp
next
  case (Cons a as)
  then show ?case by (subst count_chain.simps) (auto split: option.splits)
qed

lemma count_pool_correct:
  "i + n \<le> length pool \<Longrightarrow> (\<And>j. i \<le> j \<Longrightarrow> j < i + n \<Longrightarrow> chain it_next h (pool ! j) (bs j)) \<Longrightarrow>
    count_pool h pool i n c = Some (c + (\<Sum>j = i..<i + n. length (bs j)))"
proof (induction n arbitrary: i c)
  case 0
  then show ?case by simp
next
  case (Suc n)
  have "count_chain h (pool ! i) c = Some (c + length (bs i))"
    using Suc.prems(2) [of i] by (simp add: count_chain_correct)
  moreover have "count_pool h pool (Suc i) n (c + length (bs i)) =
      Some (c + length (bs i) + (\<Sum>j = Suc i..<Suc i + n. length (bs j)))"
    using Suc.prems by (intro Suc.IH) auto
  moreover have "(\<Sum>j = i..<i + Suc n. length (bs j)) = length (bs i) + (\<Sum>j = Suc i..<Suc i + n. length (bs j))"
    by (simp add: sum.atLeast_Suc_lessThan)
  ultimately show ?case using Suc.prems(1) by simp
qed

lemma hash_map_lint_ok: "hm_repr h m bs \<Longrightarrow> hash_map_lint h m = Some ()"
  using count_pool_correct [of 0 "hm_capacity m" "hm_pool m" h bs 0]
  by (auto simp: hash_map_lint_def hash_map_count_def hm_repr_def bucket_def atLeast0LessThan)

lemma filter_compl_length:
  "length (filter P xs) + length (rev (filter (\<lambda>x. \<not> P x) xs)) = length xs"
  by (simp add: sum_length_filter_compl)

lemma sum_lessThan_add: "(\<Sum>i < m + n. f i) = (\<Sum>i < m. f i) + (\<Sum>i < n. f (i + m :: nat) :: nat)"
  by (induction n) (simp_all add: ac_simps)

lemma UN_lessThan_add: "(\<Union>i < m + n. f i) = (\<Union>i < m. f i) \<union> (\<Union>i < n. f (i + m :: nat))"
  by (induction n) (auto simp: lessThan_Suc ac_simps)

lemma hash_map_rehash_correct:
  assumes r: "hm_repr h m bs"
  shows "\<exists>h' m' bs'. hash_map_rehash h m = Some (h', m') \<and> hm_repr h' m' bs' \<and>
    hm_abs h' m' bs' = hm_abs h m bs \<and> dom h' = dom h \<and> hm_capacity m' = 2 * hm_capacity m \<and>
    items m' bs' = items m bs \<and> payload h' = payload h"
proof -
  let ?old = "hm_capacity m"
  obtain k where k: "?old = 2 ^ k" using r by (auto simp: hm_repr_def)
  have bucket: "bucket h ?old i (hm_pool m ! i) (bs i)" if "i < ?old" for i
    using r that by (simp add: hm_repr_def)
  have pos: "\<forall>i < ?old. \<forall>a \<in> set (bs i). item_pos h (?old * 2) a = i \<or> item_pos h (?old * 2) a = i + ?old"
  proof (intro allI impI ballI)
    fix i a
    assume "i < ?old" "a \<in> set (bs i)"
    then have "item_pos h ?old a = i" using bucket [of i] by (auto simp: bucket_def)
    then show "item_pos h (?old * 2) a = i \<or> item_pos h (?old * 2) a = i + ?old"
      using pool_pos_double [of k "hash_at h a"] unfolding k by auto
  qed
  let ?pool = "hm_pool m @ replicate (?old * 2 - ?old) NULL"
  have "rehashed h ?old bs 0 h ?pool"
    using r bucket by (auto simp: rehashed_def hm_repr_def nth_append bucket_def)
  from rehash_pivots_correct [OF pos _ _ this, of ?old] hm_repr_disjoint [OF r] obtain h' pool' where
    s: "rehash_pivots h ?pool (?old * 2) 0 ?old = Some (h', pool')" "rehashed h ?old bs ?old h' pool'"
    by (metis add_0)
  define bs' where "bs' i = (if i < ?old then staying h (?old * 2) bs i else moving h (?old * 2) bs (i - ?old))" for i
  let ?m = "m\<lparr>hm_pool := pool', hm_capacity := ?old * 2\<rparr>"
  have pl: "payload h' = payload h" and len: "length pool' = ?old * 2" and dom: "dom h' = dom h"
    using s(2) by (simp_all add: rehashed_def)
  have "bucket h' (?old * 2) i (pool' ! i) (bs' i)" if "i < ?old * 2" for i
  proof (cases "i < ?old")
    case True
    then show ?thesis
      using s(2) bucket [OF True]
      by (auto simp: bucket_def bs'_def pl rehashed_def staying_def distinct_map_filter)
  next
    case False
    define j where "j = i - ?old"
    have j: "i = j + ?old" "j < ?old" using that False by (auto simp: j_def)
    have "item_pos h (?old * 2) a = i" if "a \<in> set (moving h (?old * 2) bs j)" for a
      using that pos j by (auto simp: moving_def)
    moreover have "chain it_next h' (pool' ! i) (moving h (?old * 2) bs j)"
      using s(2) j by (simp add: rehashed_def)
    ultimately show ?thesis
      using bucket [OF j(2)] j
      by (auto simp: bucket_def bs'_def pl moving_def distinct_map_filter rev_map [symmetric])
  qed
  moreover have "(\<Sum>i < ?old * 2. length (bs' i)) = (\<Sum>i < ?old. length (bs i))"
  proof -
    have "(\<Sum>i < ?old * 2. length (bs' i)) = (\<Sum>i < ?old. length (bs' i)) + (\<Sum>i < ?old. length (bs' (i + ?old)))"
      by (simp only: mult_2_right sum_lessThan_add)
    also have "\<dots> = (\<Sum>i < ?old. length (staying h (?old * 2) bs i) + length (moving h (?old * 2) bs i))"
      by (simp add: bs'_def sum.distrib)
    also have "\<dots> = (\<Sum>i < ?old. length (bs i))"
      by (simp only: staying_def moving_def filter_compl_length)
    finally show ?thesis .
  qed
  ultimately have r': "hm_repr h' ?m bs'"
    using r len k by (auto simp: hm_repr_def intro: exI [of _ "Suc k"])
  have items: "items ?m bs' = items m bs"
  proof -
    have "set (bs' i) \<union> set (bs' (i + ?old)) = set (bs i)" if "i < ?old" for i
      using that by (auto simp: bs'_def staying_def moving_def)
    then have "(\<Union>i < ?old. set (bs' i)) \<union> (\<Union>i < ?old. set (bs' (i + ?old))) = (\<Union>i < ?old. set (bs i))"
      by blast
    then show ?thesis by (simp add: items_def mult_2_right UN_lessThan_add)
  qed
  have "hm_abs h' ?m bs' = hm_abs h m bs"
    by (intro ext option_eqI) (simp add: hm_abs_iff [OF r] hm_abs_iff [OF r'] items pl)
  moreover have "hash_map_rehash h m = Some (h', ?m)"
    using s(1) hash_map_lint_ok [OF r'] k by (simp add: hash_map_rehash_def)
  ultimately show ?thesis using r' dom items pl by auto
qed

subsection \<open>Insertion\<close>

lemma lseg_same_next:
  "(\<And>x. map_option nx (h' x) = map_option nx (h x)) \<Longrightarrow> lseg nx h' p as q = lseg nx h p as q"
proof (induction as arbitrary: p)
  case Nil
  then show ?case by simp
next
  case (Cons a as)
  have "map_option nx (h' a) = map_option nx (h a)" by (rule Cons.prems)
  then show ?case using Cons.IH [OF Cons.prems] by (cases "h a"; cases "h' a") simp_all
qed

text \<open>Replacing one bucket of a well-formed table.\<close>

lemma hm_repr_replace:
  assumes r: "hm_repr h m bs" and i: "i < hm_capacity m"
    and b: "bucket h' (hm_capacity m) i (pool' ! i) as"
    and rest: "\<And>j a. j < hm_capacity m \<Longrightarrow> j \<noteq> i \<Longrightarrow> a \<in> set (bs j) \<Longrightarrow> h' a = h a"
    and pool: "length pool' = length (hm_pool m)" "\<And>j. j \<noteq> i \<Longrightarrow> pool' ! j = hm_pool m ! j"
    and count: "n + length (bs i) = hm_count m + length as"
  shows "hm_repr h' (m\<lparr>hm_pool := pool', hm_count := n\<rparr>) (bs(i := as))"
    and "items (m\<lparr>hm_pool := pool', hm_count := n\<rparr>) (bs(i := as)) = items m bs - set (bs i) \<union> set as"
proof -
  let ?c = "hm_capacity m"
  have "bucket h' ?c j (pool' ! j) ((bs(i := as)) j)" if "j < ?c" for j
  proof (cases "j = i")
    case False
    then have "bucket h ?c j (pool' ! j) (bs j)" using r that pool(2) by (simp add: hm_repr_def)
    then show ?thesis using False bucket_frame [of "bs j" h' h] rest [OF that False] by simp
  qed (use b in simp)
  moreover have "n = (\<Sum>j < ?c. length ((bs(i := as)) j))"
  proof -
    have "(\<Sum>j < ?c. length (f j)) = length (f i) + (\<Sum>j \<in> {..<?c} - {i}. length (f j))" for f :: "nat \<Rightarrow> addr list"
      using sum.remove [of "{..<?c}" i "\<lambda>j. length (f j)"] i by simp
    from this [of bs] this [of "bs(i := as)"] have
      "hm_count m = length (bs i) + (\<Sum>j \<in> {..<?c} - {i}. length (bs j))"
      "(\<Sum>j < ?c. length ((bs(i := as)) j)) = length as + (\<Sum>j \<in> {..<?c} - {i}. length (bs j))"
      using r by (simp_all add: hm_repr_def)
    with count show ?thesis by simp
  qed
  ultimately show "hm_repr h' (m\<lparr>hm_pool := pool', hm_count := n\<rparr>) (bs(i := as))"
    using r pool(1) by (simp add: hm_repr_def)
  have "x \<notin> set (bs i)" if "j < ?c" "j \<noteq> i" "x \<in> set (bs j)" for j x
    using hm_repr_disjoint [OF r that(1) i that(2)] that(3) by blast
  then show "items (m\<lparr>hm_pool := pool', hm_count := n\<rparr>) (bs(i := as)) = items m bs - set (bs i) \<union> set as"
    using i by (auto simp: items_def split: if_splits)
qed

lemma hm_repr_value:
  assumes r: "hm_repr h m bs" and a: "h a = Some n"
  shows "hm_repr (h(a \<mapsto> n\<lparr>it_val := v\<rparr>)) m bs"
proof -
  let ?h = "h(a \<mapsto> n\<lparr>it_val := v\<rparr>)"
  have "lseg it_next ?h p as q = lseg it_next h p as q" for p as q
    by (rule lseg_same_next) (simp add: a)
  moreover have "key_at ?h b = key_at h b" "hash_at ?h b = hash_at h b" for b
    using a by (auto simp: payload_def)
  ultimately have "bucket ?h cap i p as = bucket h cap i p as" for cap i p as
    by (simp add: bucket_def)
  then show ?thesis using r by (simp add: hm_repr_def)
qed

lemma items_alloc:
  assumes "hm_repr h m bs" and "a \<in> items m bs"
  obtains n where "a \<noteq> NULL" "h a = Some n"
  using assms lseg_alloc by (fastforce simp: items_def hm_repr_def bucket_def)

text \<open>The body of \<open>hash_map_insert\<close>, after the density check.\<close>

lemma insert_existing:
  assumes r: "hm_repr h m bs" and k: "hm_abs h m bs key = Some v0"
  defines "i \<equiv> pool_pos (hm_capacity m) (hash_fn key)"
  shows "\<exists>pv a n. hm_find h (hm_pool m ! i) (hm_pool m ! i) (Some key) (hash_fn key) = Some (pv, a) \<and>
    a \<noteq> NULL \<and> h a = Some n \<and> it_hash n = hash_fn key \<and>
    hm_repr (h(a \<mapsto> n\<lparr>it_val := v\<rparr>)) m bs \<and> hm_abs (h(a \<mapsto> n\<lparr>it_val := v\<rparr>)) m bs = (hm_abs h m bs)(key \<mapsto> v)"
proof -
  note b = hm_repr_bucket(3) [OF r, of "hash_fn key", folded i_def]
  have "map_of (entries h (bs i)) key = Some v0" using k by (simp add: hm_abs_def i_def)
  from bucket_key_split [OF b this] obtain xs a ys where s: "bs i = xs @ a # ys"
    "\<forall>b \<in> set xs \<union> set ys. key_at h b \<noteq> key" "key_at h a = key" "hash_at h a = hash_fn key" by metis
  have xs: "\<forall>b \<in> set xs. key_at h b \<noteq> key" using s(2) by blast
  have ch: "chain it_next h (hm_pool m ! i) (xs @ a # ys)" using b s(1) by (simp add: bucket_def)
  have f: "hm_find h (hm_pool m ! i) (hm_pool m ! i) (Some key) (hash_fn key) =
      Some (if xs = [] then hm_pool m ! i else last xs, a)"
    by (rule hm_find_found [OF ch xs s(3,4)])
  obtain n where n: "a \<noteq> NULL" "h a = Some n" using lseg_alloc [OF ch, of a] by auto
  let ?h = "h(a \<mapsto> n\<lparr>it_val := v\<rparr>)"
  have r': "hm_repr ?h m bs" by (rule hm_repr_value [OF r n(2)])
  have "i < hm_capacity m" using hm_repr_bucket(1) [OF r] by (simp add: i_def)
  then have a: "a \<in> items m bs" using s(1) by (force simp: items_def)
  have keys: "key_at ?h b = key_at h b" "b \<noteq> a \<Longrightarrow> val_at ?h b = val_at h b" "val_at ?h a = v" for b
    using n(2) by (auto simp: payload_def)
  have "hm_abs ?h m bs x = ((hm_abs h m bs)(key \<mapsto> v)) x" for x
  proof (cases "x = key")
    case True
    have "hm_abs ?h m bs key = Some v"
      unfolding hm_abs_iff [OF r'] keys(1) using a s(3) keys(3) by blast
    with True show ?thesis by simp
  next
    case False
    have "hm_abs ?h m bs x = hm_abs h m bs x"
    proof (rule option_eqI)
      fix w
      show "hm_abs ?h m bs x = Some w \<longleftrightarrow> hm_abs h m bs x = Some w"
        unfolding hm_abs_iff [OF r'] hm_abs_iff [OF r] keys(1) using False s(3) keys(2) by metis
    qed
    with False show ?thesis by simp
  qed
  with f n s(4) r' show ?thesis by fastforce
qed

lemma insert_new:
  fixes v :: addr
  assumes r: "hm_repr h m bs" and k: "hm_abs h m bs key = None" and new: "new \<noteq> NULL" "h new = None"
  defines "i \<equiv> pool_pos (hm_capacity m) (hash_fn key)"
    and "h1 \<equiv> h(new \<mapsto> \<lparr>it_next = NULL, it_hash = hash_fn key, it_key = key, it_val = v\<rparr>)"
  shows "\<exists>pv h' pool' bs'. hm_find h (hm_pool m ! i) (hm_pool m ! i) (Some key) (hash_fn key) = Some (pv, NULL) \<and>
    (if pv \<noteq> NULL then do { h \<leftarrow> set_it_next h1 pv new; Some (h, m) }
     else do { pool \<leftarrow> set_at (hm_pool m) i new; Some (h1, m\<lparr>hm_pool := pool\<rparr>) }) = Some (h', m\<lparr>hm_pool := pool'\<rparr>) \<and>
    map_option it_hash (h' new) = Some (hash_fn key) \<and> dom h' = insert new (dom h) \<and>
    hm_repr h' (m\<lparr>hm_pool := pool', hm_count := hm_count m + 1\<rparr>) bs' \<and>
    hm_abs h' (m\<lparr>hm_pool := pool', hm_count := hm_count m + 1\<rparr>) bs' = (hm_abs h m bs)(key \<mapsto> v)"
proof -
  note b = hm_repr_bucket [OF r, of "hash_fn key", folded i_def]
  let ?as = "bs i" and ?p = "hm_pool m ! i"
  have ch: "chain it_next h ?p ?as" using b(3) by (simp add: bucket_def)
  have miss: "\<forall>c \<in> set ?as. key_at h c \<noteq> key" using k bucket_key_missing by (simp add: hm_abs_def i_def)
  have out: "new \<notin> items m bs" using items_alloc [OF r] new(2) by (metis option.distinct(1))
  then have out_as: "new \<notin> set ?as" using b(1) by (auto simp: items_def)
  define pv where "pv = (if ?as = [] then ?p else last ?as)"
  have f: "hm_find h ?p ?p (Some key) (hash_fn key) = Some (pv, NULL)"
    unfolding pv_def by (rule hm_find_missing [OF ch miss])
  obtain h' pool' where h':
    "(if pv \<noteq> NULL then do { h \<leftarrow> set_it_next h1 pv new; Some (h, m) }
      else do { pool \<leftarrow> set_at (hm_pool m) i new; Some (h1, m\<lparr>hm_pool := pool\<rparr>) }) = Some (h', m\<lparr>hm_pool := pool'\<rparr>)"
    "chain it_next h' (pool' ! i) (?as @ [new])" "payload h' = payload h1" "dom h' = insert new (dom h)"
    "\<forall>c. c \<noteq> new \<longrightarrow> c \<notin> set ?as \<longrightarrow> h' c = h c"
    "length pool' = length (hm_pool m)" "\<forall>j. j \<noteq> i \<longrightarrow> pool' ! j = hm_pool m ! j"
  proof (cases ?as rule: rev_cases)
    case Nil
    then have "?p = NULL" using ch by simp
    with that [of h1 "(hm_pool m)[i := new]"] Nil b(2) new show thesis
      by (auto simp: pv_def h1_def)
  next
    case (snoc xs a)
    with ch obtain n where n: "a \<noteq> NULL" "h a = Some n" "lseg it_next h ?p xs a"
      by (auto simp: lseg_append split: option.splits)
    have "distinct ?as" by (rule chain_distinct [OF ch])
    then have "a \<notin> set xs" "a \<noteq> new" "new \<notin> set xs" using snoc out_as by auto
    with n snoc that [of "h1(a \<mapsto> n\<lparr>it_next := new\<rparr>)" "hm_pool m"] new show thesis
      by (auto simp: pv_def h1_def lseg_append insert_commute insert_absorb domI)
  qed
  have pl: "payload h' c = (if c = new then Some (hash_fn key, key, v) else payload h c)" for c
    unfolding h'(3) h1_def by (simp add: payload_def)
  have "bucket h' (hm_capacity m) i (pool' ! i) (?as @ [new])"
  proof -
    have "map (key_at h') ?as = map (key_at h) ?as" using out_as by (intro map_cong refl) (auto simp: pl)
    then have keys: "map (key_at h') (?as @ [new]) = map (key_at h) ?as @ [key]" by (simp add: pl)
    have "hash_at h' c = hash_fn (key_at h' c) \<and> item_pos h' (hm_capacity m) c = i" if "c \<in> set (?as @ [new])" for c
      using that b(3) by (cases "c = new") (auto simp: pl bucket_def i_def)
    moreover have "distinct (map (key_at h') (?as @ [new]))"
      unfolding keys using b(3) miss by (auto simp: bucket_def)
    ultimately show ?thesis unfolding bucket_def using h'(2) by blast
  qed
  moreover have "h' c = h c" if "j < hm_capacity m" "j \<noteq> i" "c \<in> set (bs j)" for j c
    using that h'(5) hm_repr_disjoint [OF r that(1) b(1) that(2)] out by (auto simp: items_def)
  ultimately have R: "hm_repr h' (m\<lparr>hm_pool := pool', hm_count := hm_count m + 1\<rparr>) (bs(i := ?as @ [new]))"
    and I: "items (m\<lparr>hm_pool := pool', hm_count := hm_count m + 1\<rparr>) (bs(i := ?as @ [new])) = insert new (items m bs)"
    using hm_repr_replace [OF r b(1), of h' pool' "?as @ [new]" "hm_count m + 1"] h'(6,7) b(1)
    by (auto simp: items_def)
  have "hm_abs h' (m\<lparr>hm_pool := pool', hm_count := hm_count m + 1\<rparr>) (bs(i := ?as @ [new])) x =
      ((hm_abs h m bs)(key \<mapsto> v)) x" for x
  proof (rule option_eqI)
    fix w
    have "hm_abs h m bs key \<noteq> Some w" by (simp add: k)
    then have "\<not> (\<exists>a \<in> items m bs. key_at h a = key \<and> val_at h a = w)" unfolding hm_abs_iff [OF r] .
    then show "hm_abs h' (m\<lparr>hm_pool := pool', hm_count := hm_count m + 1\<rparr>) (bs(i := ?as @ [new])) x = Some w \<longleftrightarrow>
        ((hm_abs h m bs)(key \<mapsto> v)) x = Some w"
      unfolding hm_abs_iff [OF R] I using out by (auto simp: pl hm_abs_iff [OF r])
  qed
  then have "hm_abs h' (m\<lparr>hm_pool := pool', hm_count := hm_count m + 1\<rparr>) (bs(i := ?as @ [new])) =
      (hm_abs h m bs)(key \<mapsto> v)" by blast
  moreover have "map_option it_hash (h' new) = Some (hash_fn key)"
    using pl [of new] by (auto simp: payload_def)
  ultimately show ?thesis using f h'(1,4) R by blast
qed

text \<open>\<open>malloc\<close> returns an unused, non-NULL address whenever memory is not exhausted.\<close>

definition good_malloc :: "(item heap \<Rightarrow> addr) \<Rightarrow> bool" where
  "good_malloc malloc \<longleftrightarrow> (\<forall>h. finite (dom h) \<longrightarrow> malloc h \<noteq> NULL \<and> h (malloc h) = None)"

lemma hash_map_insert_correct:
  assumes r: "hm_repr h m bs" and fin: "finite (dom h)" and mal: "good_malloc malloc"
  shows "\<exists>h' m' bs'. hash_map_insert malloc h m key v = Some (hash_fn key, h', m') \<and> hm_repr h' m' bs' \<and>
    hm_abs h' m' bs' = (hm_abs h m bs)(key \<mapsto> v) \<and> finite (dom h')"
proof -
  obtain h1 m1 bs1 where one: "(if too_dense m then hash_map_rehash h m else Some (h, m)) = Some (h1, m1)"
    "hm_repr h1 m1 bs1" "hm_abs h1 m1 bs1 = hm_abs h m bs" "finite (dom h1)"
    using hash_map_rehash_correct [OF r] r fin by (cases "too_dense m") auto
  let ?i = "pool_pos (hm_capacity m1) (hash_fn key)"
  have i: "?i < length (hm_pool m1)" by (rule hm_repr_bucket(2) [OF one(2)])
  show ?thesis
  proof (cases "hm_abs h1 m1 bs1 key")
    case (Some v0)
    from insert_existing [OF one(2) Some, of v] obtain pv a n where
      "hm_find h1 (hm_pool m1 ! ?i) (hm_pool m1 ! ?i) (Some key) (hash_fn key) = Some (pv, a)"
      "a \<noteq> NULL" "h1 a = Some n" "it_hash n = hash_fn key" "hm_repr (h1(a \<mapsto> n\<lparr>it_val := v\<rparr>)) m1 bs1"
      "hm_abs (h1(a \<mapsto> n\<lparr>it_val := v\<rparr>)) m1 bs1 = (hm_abs h m bs)(key \<mapsto> v)"
      unfolding one(3) by blast
    with one(1,4) i show ?thesis by (auto simp: hash_map_insert_def Let_def)
  next
    case None
    have new: "malloc h1 \<noteq> NULL" "h1 (malloc h1) = None" using mal one(4) by (auto simp: good_malloc_def)
    let ?h1 = "h1(malloc h1 \<mapsto> \<lparr>it_next = NULL, it_hash = hash_fn key, it_key = key, it_val = v\<rparr>)"
    from insert_new [OF one(2) None new, of v] obtain pv h' pool' bs' where
      s: "hm_find h1 (hm_pool m1 ! ?i) (hm_pool m1 ! ?i) (Some key) (hash_fn key) = Some (pv, NULL)"
      "(if pv \<noteq> NULL then do { h \<leftarrow> set_it_next ?h1 pv (malloc h1); Some (h, m1) }
        else do { pool \<leftarrow> set_at (hm_pool m1) ?i (malloc h1); Some (?h1, m1\<lparr>hm_pool := pool\<rparr>) }) = Some (h', m1\<lparr>hm_pool := pool'\<rparr>)"
      "map_option it_hash (h' (malloc h1)) = Some (hash_fn key)" "dom h' = insert (malloc h1) (dom h1)"
      "hm_repr h' (m1\<lparr>hm_pool := pool', hm_count := hm_count m1 + 1\<rparr>) bs'"
      "hm_abs h' (m1\<lparr>hm_pool := pool', hm_count := hm_count m1 + 1\<rparr>) bs' = (hm_abs h m bs)(key \<mapsto> v)"
      unfolding one(3) by blast
    have "hash_map_insert malloc h m key v =
        Some (hash_fn key, h', m1\<lparr>hm_pool := pool', hm_count := hm_count m1 + 1\<rparr>)"
      using one(1) i s(1,2,3) new(1) unfolding hash_map_insert_def Let_def
      by (auto simp del: fun_upd_apply split: prod.splits)
    with s(4-6) one(4) show ?thesis by auto
  qed
qed

subsection \<open>Deletion\<close>

lemma delete_found:
  assumes r: "hm_repr h m bs" and k: "hm_abs h m bs key = Some v"
  shows "\<exists>h' m' bs'. hash_map_delete h m (Some key) kh = Some (v, h', m') \<and> hm_repr h' m' bs' \<and>
    hm_abs h' m' bs' = (hm_abs h m bs)(key := None) \<and> dom h' \<subseteq> dom h"
proof -
  let ?i = "pool_pos (hm_capacity m) (hash_fn key)"
  note b = hm_repr_bucket [OF r, of "hash_fn key"]
  have "map_of (entries h (bs ?i)) key = Some v" using k by (simp add: hm_abs_def)
  from bucket_key_split [OF b(3) this] obtain xs a ys where s: "bs ?i = xs @ a # ys"
    "\<forall>b \<in> set xs \<union> set ys. key_at h b \<noteq> key" "key_at h a = key" "val_at h a = v" "hash_at h a = hash_fn key" .
  have xs: "\<forall>b \<in> set xs. key_at h b \<noteq> key" using s(2) by blast
  have ch: "chain it_next h (hm_pool m ! ?i) (xs @ a # ys)" using b(3) s(1) by (simp add: bucket_def)
  have f: "hm_find h NULL (hm_pool m ! ?i) (Some key) (hash_fn key) = Some (if xs = [] then NULL else last xs, a)"
    by (rule hm_find_found [OF ch xs s(3,5)])
  have d: "distinct (xs @ a # ys)" by (rule chain_distinct [OF ch])
  obtain n where n: "a \<noteq> NULL" "h a = Some n" "lseg it_next h (hm_pool m ! ?i) xs a" "chain it_next h (it_next n) ys"
    using ch by (auto simp: lseg_append split: option.splits)
  have count: "hm_count m - 1 + length (bs ?i) = hm_count m + length (xs @ ys)"
  proof -
    have "length (bs ?i) \<le> hm_count m" using r b(1) by (auto simp: hm_repr_def intro: member_le_sum)
    then show ?thesis using s(1) by simp
  qed
  obtain h' pool' where h':
    "hash_map_delete h m (Some key) kh = Some (v, h', m\<lparr>hm_pool := pool', hm_count := hm_count m - 1\<rparr>)"
    "chain it_next h' (pool' ! ?i) (xs @ ys)" "\<forall>c. c \<noteq> a \<longrightarrow> payload h' c = payload h c"
    "\<forall>c. c \<noteq> a \<longrightarrow> c \<notin> set xs \<longrightarrow> h' c = h c" "dom h' \<subseteq> dom h"
    "length pool' = length (hm_pool m)" "\<forall>j. j \<noteq> ?i \<longrightarrow> pool' ! j = hm_pool m ! j"
  proof (cases xs rule: rev_cases)
    case Nil
    with f n s(4) b(2) d that [of "h(a := None)" "(hm_pool m)[?i := it_next n]"] show thesis
      by (auto simp: hash_map_delete_def payload_def)
  next
    case (snoc xs' c)
    with n(3) obtain nc where c: "c \<noteq> NULL" "h c = Some nc" "lseg it_next h (hm_pool m ! ?i) xs' c"
      by (auto simp: lseg_append split: option.splits)
    have ca: "c \<noteq> a" "c \<notin> set xs'" "c \<notin> set ys" "a \<notin> set xs'" "a \<notin> set ys" using d snoc by auto
    let ?h = "h(c \<mapsto> nc\<lparr>it_next := it_next n\<rparr>, a := None)"
    have "hash_map_delete h m (Some key) kh = Some (v, ?h, m\<lparr>hm_pool := hm_pool m, hm_count := hm_count m - 1\<rparr>)"
      using f n s(4) b(2) snoc c ca by (simp add: hash_map_delete_def)
    moreover have "chain it_next ?h (hm_pool m ! ?i) (xs @ ys)"
      using c ca n snoc by (simp add: lseg_append)
    moreover have "\<forall>x. x \<noteq> a \<longrightarrow> payload ?h x = payload h x" using c(2) by (simp add: payload_def)
    moreover have "dom ?h \<subseteq> dom h" using c(2) by auto
    ultimately show thesis using snoc by (intro that [of ?h "hm_pool m"]) auto
  qed
  have sub: "set (xs @ ys) = set (bs ?i) - {a}" using s(1) d by auto
  have pl: "payload h' c = payload h c" if "c \<in> set (xs @ ys)" for c using that h'(3) sub by auto
  have "bucket h' (hm_capacity m) ?i (pool' ! ?i) (xs @ ys)"
  proof -
    have "map (key_at h') (xs @ ys) = map (key_at h) (xs @ ys)" using pl by (intro map_cong refl) auto
    moreover have "distinct (map (key_at h) (xs @ ys))" using b(3) s(1) by (auto simp: bucket_def)
    ultimately have "distinct (map (key_at h') (xs @ ys))" by (simp only:)
    moreover have "hash_at h' c = hash_fn (key_at h' c) \<and> item_pos h' (hm_capacity m) c = ?i"
      if "c \<in> set (xs @ ys)" for c
      unfolding pl [OF that] using b(3) sub that by (auto simp: bucket_def)
    ultimately show ?thesis unfolding bucket_def using h'(2) by blast
  qed
  moreover have "h' c = h c" if "j < hm_capacity m" "j \<noteq> ?i" "c \<in> set (bs j)" for j c
    using that h'(4) hm_repr_disjoint [OF r that(1) b(1) that(2)] s(1) by auto
  ultimately have R: "hm_repr h' (m\<lparr>hm_pool := pool', hm_count := hm_count m - 1\<rparr>) (bs(?i := xs @ ys))"
    and I: "items (m\<lparr>hm_pool := pool', hm_count := hm_count m - 1\<rparr>) (bs(?i := xs @ ys)) = items m bs - {a}"
    using hm_repr_replace [OF r b(1), of h' pool' "xs @ ys" "hm_count m - 1"] h'(6,7) count b(1) sub s(1)
    by (auto simp: items_def)
  have a: "a \<in> items m bs" using s(1) b(1) by (force simp: items_def)
  have only: "c = a" if "c \<in> items m bs" "key_at h c = key" for c
  proof -
    from that(1) obtain j where j: "j < hm_capacity m" "c \<in> set (bs j)" by (auto simp: items_def)
    then have "bucket h (hm_capacity m) j (hm_pool m ! j) (bs j)" using r by (simp add: hm_repr_def)
    then have "j = ?i" using j(2) that(2) by (auto simp: bucket_def)
    then show ?thesis using j(2) s(1,2) that(2) by auto
  qed
  have "hm_abs h' (m\<lparr>hm_pool := pool', hm_count := hm_count m - 1\<rparr>) (bs(?i := xs @ ys)) x =
      ((hm_abs h m bs)(key := None)) x" for x
  proof (rule option_eqI)
    fix w
    show "hm_abs h' (m\<lparr>hm_pool := pool', hm_count := hm_count m - 1\<rparr>) (bs(?i := xs @ ys)) x = Some w \<longleftrightarrow>
        ((hm_abs h m bs)(key := None)) x = Some w"
      unfolding hm_abs_iff [OF R] I using only h'(3) s(3) by (auto simp: hm_abs_iff [OF r])
  qed
  then have "hm_abs h' (m\<lparr>hm_pool := pool', hm_count := hm_count m - 1\<rparr>) (bs(?i := xs @ ys)) =
      (hm_abs h m bs)(key := None)" by blast
  with h'(1,5) R show ?thesis by blast
qed

lemma delete_missing:
  assumes r: "hm_repr h m bs" and k: "hm_abs h m bs key = None"
  shows "hash_map_delete h m (Some key) kh = Some (NULL, h, m)"
proof -
  let ?i = "pool_pos (hm_capacity m) (hash_fn key)"
  note b = hm_repr_bucket [OF r, of "hash_fn key"]
  have ch: "chain it_next h (hm_pool m ! ?i) (bs ?i)" using b(3) by (simp add: bucket_def)
  have "\<forall>b \<in> set (bs ?i). key_at h b \<noteq> key" using k by (simp add: hm_abs_def bucket_key_missing)
  from hm_find_missing [OF ch this] b(2) show ?thesis by (simp add: hash_map_delete_def)
qed

subsection \<open>The table as a dictionary\<close>

datatype map_op = MInsert "u8 list" addr | MGet "u8 list" | MDelete "u8 list"

fun map_step :: "(u8 list \<rightharpoonup> addr) \<Rightarrow> map_op \<Rightarrow> addr \<times> (u8 list \<rightharpoonup> addr)" where
  "map_step d (MInsert k v) = (NULL, d(k \<mapsto> v))"
| "map_step d (MGet k) = (or_null (d k), d)"
| "map_step d (MDelete k) = (or_null (d k), d(k := None))"

fun map_run :: "(u8 list \<rightharpoonup> addr) \<Rightarrow> map_op list \<Rightarrow> addr list" where
  "map_run d [] = []"
| "map_run d (p # ps) = (let (out, d') = map_step d p in out # map_run d' ps)"

fun table_run :: "('s \<Rightarrow> map_op \<Rightarrow> (addr \<times> 's) option) \<Rightarrow> 's \<Rightarrow> map_op list \<Rightarrow> (addr list \<times> 's) option" where
  "table_run step s [] = Some ([], s)"
| "table_run step s (p # ps) = do {
     (out, s) \<leftarrow> step s p;
     (outs, s) \<leftarrow> table_run step s ps;
     Some (out # outs, s)
   }"

locale dictionary =
  fixes R :: "'s \<Rightarrow> (u8 list \<rightharpoonup> addr) \<Rightarrow> bool"
    and step :: "'s \<Rightarrow> map_op \<Rightarrow> (addr \<times> 's) option"
  assumes simulates: "R s d \<Longrightarrow> \<exists>s'. step s p = Some (fst (map_step d p), s') \<and> R s' (snd (map_step d p))"
begin

lemma run_simulates: "R s d \<Longrightarrow> \<exists>s'. table_run step s ps = Some (map_run d ps, s')"
proof (induction ps arbitrary: s d)
  case Nil
  then show ?case by simp
next
  case (Cons p ps)
  from simulates [OF Cons.prems, of p] obtain s' where
    s': "step s p = Some (fst (map_step d p), s')" "R s' (snd (map_step d p))" by blast
  from Cons.IH [OF s'(2)] s'(1) show ?case by (auto simp: case_prod_beta)
qed

end

fun hm_step :: "(item heap \<Rightarrow> addr) \<Rightarrow> item heap \<times> hash_map \<Rightarrow> map_op \<Rightarrow> (addr \<times> item heap \<times> hash_map) option" where
  "hm_step malloc (h, m) (MInsert k v) =
     do { (_, h, m) \<leftarrow> hash_map_insert malloc h m k v; Some (NULL, h, m) }"
| "hm_step malloc (h, m) (MGet k) = do { v \<leftarrow> hash_map_get h m (Some k) 0; Some (v, h, m) }"
| "hm_step malloc (h, m) (MDelete k) = hash_map_delete h m (Some k) 0"

definition hm_rel :: "(item heap \<Rightarrow> addr) \<Rightarrow> item heap \<times> hash_map \<Rightarrow> (u8 list \<rightharpoonup> addr) \<Rightarrow> bool" where
  "hm_rel malloc s d \<longleftrightarrow> good_malloc malloc \<and> finite (dom (fst s)) \<and>
     (\<exists>bs. hm_repr (fst s) (snd s) bs \<and> hm_abs (fst s) (snd s) bs = d)"

lemma hm_step_simulates:
  assumes "hm_rel malloc s d"
  shows "\<exists>s'. hm_step malloc s p = Some (fst (map_step d p), s') \<and> hm_rel malloc s' (snd (map_step d p))"
proof -
  obtain h m where s: "s = (h, m)" by (cases s)
  from assms obtain bs where r: "hm_repr h m bs" "hm_abs h m bs = d" "finite (dom h)" "good_malloc malloc"
    by (auto simp: hm_rel_def s)
  show ?thesis
  proof (cases p)
    case (MInsert k v)
    from hash_map_insert_correct [OF r(1,3,4), of k v] r(2,4) show ?thesis
      by (auto simp: s MInsert hm_rel_def)
  next
    case (MGet k)
    from hash_map_get_correct [OF r(1), of k 0] assms r(2) show ?thesis
      by (simp add: s MGet)
  next
    case (MDelete k)
    show ?thesis
    proof (cases "d k")
      case None
      then have "d(k := None) = d" by auto
      with None delete_missing [OF r(1), of k 0] assms r(2) show ?thesis
        by (simp add: s MDelete or_null_def)
    next
      case (Some v)
      from delete_found [OF r(1), of k v 0] Some r(2) obtain h' m' bs' where
        "hash_map_delete h m (Some k) 0 = Some (v, h', m')" "hm_repr h' m' bs'"
        "hm_abs h' m' bs' = d(k := None)" "dom h' \<subseteq> dom h" by auto
      with Some r(3,4) show ?thesis
        by (auto simp: s MDelete or_null_def hm_rel_def intro: finite_subset)
    qed
  qed
qed

interpretation hm: dictionary "hm_rel malloc" "hm_step malloc" for malloc
  by unfold_locales (rule hm_step_simulates)

lemma hm_rel_init:
  assumes "good_malloc malloc" and "finite (dom h)"
  shows "hm_rel malloc (h, hash_map_init) Map.empty"
proof -
  have "round_up_pow2 32 = 32" by (simp add: round_up_pow2_def)
  then have "hm_repr h hash_map_init (\<lambda>_. [])"
    by (auto simp: hm_repr_def hash_map_init_def bucket_def intro: exI [of _ 5])
  moreover have "hm_abs h hash_map_init (\<lambda>_. []) = Map.empty"
    by (rule ext) (simp add: hm_abs_def entries_def)
  ultimately show ?thesis using assms unfolding hm_rel_def by auto
qed

text \<open>
  C32.  The hash table is a dictionary: from an empty table, any sequence of insertions,
  lookups and deletions runs without a fault or a failed assertion, through every rehash, and
  returns, call by call, what the finite map returns.
\<close>

theorem hash_map_refines_map:
  assumes "good_malloc malloc" and "finite (dom h)"
  shows "\<exists>s. table_run (hm_step malloc) (h, hash_map_init) ps = Some (map_run Map.empty ps, s)"
  using hm.run_simulates [OF hm_rel_init [OF assms]] .

text \<open>The least free address, as an instance of \<open>malloc\<close>.\<close>

definition bump_malloc :: "item heap \<Rightarrow> addr" where
  "bump_malloc h = Suc (Max (insert 0 (dom h)))"

lemma bump_malloc_good: "good_malloc bump_malloc"
proof -
  have "h (bump_malloc h) = None" if "finite (dom h)" for h :: "item heap"
  proof (rule ccontr)
    assume "h (bump_malloc h) \<noteq> None"
    then have "bump_malloc h \<le> Max (insert 0 (dom h))" using that by (intro Max_ge) (auto simp: domI)
    then show False by (simp add: bump_malloc_def)
  qed
  then show ?thesis by (simp add: good_malloc_def bump_malloc_def)
qed

theorem hash_map_refines_map_witness:
  "\<exists>s. table_run (hm_step bump_malloc) (Map.empty, hash_map_init)
      [MInsert [97] 7, MInsert [98] 8, MInsert [97] 9, MGet [97], MDelete [97], MGet [97]] =
    Some ([0, 0, 0, 9, 9, 0], s)"
proof -
  have e: "map_run Map.empty [MInsert [97] 7, MInsert [98] 8, MInsert [97] 9, MGet [97], MDelete [97], MGet [97]] =
      [0, 0, 0, 9, 9, 0]" by (simp add: or_null_def)
  have f: "finite (dom (Map.empty :: item heap))" by simp
  show ?thesis unfolding e [symmetric] by (rule hash_map_refines_map [OF bump_malloc_good f])
qed

subsection \<open>Looking up by hash alone\<close>

lemma hm_find_no_key:
  "chain it_next h it as \<Longrightarrow>
    hm_find h prev it None hash =
      (if \<exists>a \<in> set as. hash_at h a = hash then None else Some (if as = [] then prev else last as, NULL))"
proof (induction as arbitrary: it prev)
  case Nil
  then show ?case by (subst hm_find.simps) simp
next
  case (Cons a as)
  then obtain n where "it = a" "a \<noteq> NULL" "h a = Some n" "chain it_next h (it_next n) as"
    by (auto split: option.splits)
  with Cons.IH [of "it_next n" a] show ?case by (subst hm_find.simps) auto
qed

text \<open>A lookup by hash alone (a NULL key, which the interface provides a parameter for) never
  finds anything: it dereferences NULL if some key of the table has that hash, and answers
  NULL otherwise.
\<close>

theorem hash_map_get_by_hash:
  assumes "hm_repr h m bs"
  shows "hash_map_get h m None kh = (if \<exists>a \<in> items m bs. hash_at h a = kh then None else Some NULL)"
proof -
  let ?i = "pool_pos (hm_capacity m) kh"
  note b = hm_repr_bucket [OF assms, of kh]
  have ch: "chain it_next h (hm_pool m ! ?i) (bs ?i)" using b(3) by (simp add: bucket_def)
  have "(\<exists>a \<in> set (bs ?i). hash_at h a = kh) \<longleftrightarrow> (\<exists>a \<in> items m bs. hash_at h a = kh)"
  proof
    assume "\<exists>a \<in> items m bs. hash_at h a = kh"
    then obtain j a where j: "j < hm_capacity m" "a \<in> set (bs j)" "hash_at h a = kh" by (auto simp: items_def)
    then have "bucket h (hm_capacity m) j (hm_pool m ! j) (bs j)" using assms by (simp add: hm_repr_def)
    then have "j = ?i" using j by (auto simp: bucket_def)
    with j show "\<exists>a \<in> set (bs ?i). hash_at h a = kh" by blast
  qed (use b(1) in \<open>auto simp: items_def\<close>)
  with hm_find_no_key [OF ch, of NULL kh] b(2) show ?thesis by (simp add: hash_map_get_def)
qed

subsection \<open>Iterating and freeing\<close>

definition all_entries :: "item heap \<Rightarrow> hash_map \<Rightarrow> (nat \<Rightarrow> addr list) \<Rightarrow> (u8 list \<times> addr) list" where
  "all_entries h m bs = concat (map (\<lambda>i. entries h (bs i)) [0..<hm_capacity m])"

lemma foreach_chain:
  "chain it_next h p as \<Longrightarrow>
    foreach_loop h m \<lparr>iter_pos = pos, iter_item = p\<rparr> acc =
    foreach_loop h m \<lparr>iter_pos = pos, iter_item = NULL\<rparr> (acc @ entries h as)"
proof (induction as arbitrary: p acc)
  case Nil
  then show ?case by (simp add: entries_def)
next
  case (Cons a as)
  then obtain n where n: "p = a" "a \<noteq> NULL" "h a = Some n" "chain it_next h (it_next n) as"
    by (auto split: option.splits)
  then have "foreach_loop h m \<lparr>iter_pos = pos, iter_item = p\<rparr> acc =
      foreach_loop h m \<lparr>iter_pos = pos, iter_item = it_next n\<rparr> (acc @ [(it_key n, it_val n)])"
    by (subst foreach_loop.simps) (simp add: hash_map_it_next_def)
  with Cons.IH [OF n(4)] n(3) show ?case by (simp add: entries_def)
qed

lemma foreach_from:
  assumes r: "hm_repr h m bs"
  shows "pos + n = hm_capacity m \<Longrightarrow> foreach_loop h m \<lparr>iter_pos = pos, iter_item = NULL\<rparr> acc =
    Some (acc @ concat (map (\<lambda>i. entries h (bs i)) [pos..<hm_capacity m]))"
proof (induction n arbitrary: pos acc)
  case 0
  then show ?case by (subst foreach_loop.simps) (simp add: hash_map_it_next_def)
next
  case (Suc n)
  then have pos: "pos < hm_capacity m" "hm_capacity m - pos = Suc n" "hm_capacity m - Suc pos = n" by auto
  have ch: "chain it_next h (hm_pool m ! pos) (bs pos)" and len: "length (hm_pool m) = hm_capacity m"
    using r pos(1) by (auto simp: hm_repr_def bucket_def)
  note ih = Suc.IH [of "Suc pos"]
  have upt: "[pos..<hm_capacity m] = pos # [Suc pos..<hm_capacity m]" using pos(1) by (rule upt_conv_Cons)
  show ?case
  proof (cases "hm_pool m ! pos = NULL")
    case True
    then have "bs pos = []" using ch by simp
    moreover have "hash_map_it_next h m \<lparr>iter_pos = pos, iter_item = NULL\<rparr> =
        hash_map_it_next h m \<lparr>iter_pos = Suc pos, iter_item = NULL\<rparr>"
      using True pos len by (simp add: hash_map_it_next_def)
    then have "foreach_loop h m \<lparr>iter_pos = pos, iter_item = NULL\<rparr> acc =
        foreach_loop h m \<lparr>iter_pos = Suc pos, iter_item = NULL\<rparr> acc"
      by (subst (1 2) foreach_loop.simps) simp
    ultimately show ?thesis using ih [of acc] Suc.prems by (simp add: upt entries_def)
  next
    case False
    then obtain n' cs where n': "h (hm_pool m ! pos) = Some n'" "bs pos = hm_pool m ! pos # cs"
      "chain it_next h (it_next n') cs" using ch by (auto simp: chain_not_NULL)
    have "foreach_loop h m \<lparr>iter_pos = pos, iter_item = NULL\<rparr> acc =
        foreach_loop h m \<lparr>iter_pos = Suc pos, iter_item = it_next n'\<rparr> (acc @ [(it_key n', it_val n')])"
      using False pos len n'(1) by (subst foreach_loop.simps) (simp add: hash_map_it_next_def)
    with foreach_chain [OF n'(3)] ih [of "(acc @ [(it_key n', it_val n')]) @ entries h cs"] Suc.prems n'
    show ?thesis by (simp add: upt entries_def)
  qed
qed

lemma hash_map_foreach_entries: "hm_repr h m bs \<Longrightarrow> hash_map_foreach h m = Some (all_entries h m bs)"
  using foreach_from [of h m bs 0 "hm_capacity m" "[]"]
  by (simp add: hash_map_foreach_def hash_map_it_init_def all_entries_def)

lemma all_entries_map:
  assumes r: "hm_repr h m bs"
  shows "distinct (map fst (all_entries h m bs))" and "map_of (all_entries h m bs) = hm_abs h m bs"
proof -
  have keys: "map fst (entries h as) = map (key_at h) as" for as by (simp add: entries_def)
  have b: "bucket h (hm_capacity m) i (hm_pool m ! i) (bs i)" if "i < hm_capacity m" for i
    using r that by (simp add: hm_repr_def)
  have "distinct (concat (map (\<lambda>i. map (key_at h) (bs i)) [0..<n]))" if "n \<le> hm_capacity m" for n
    using that
  proof (induction n)
    case 0
    then show ?case by simp
  next
    case (Suc n)
    have "key_at h a \<noteq> key_at h c" if "a \<in> set (bs i)" "i < n" "c \<in> set (bs n)" for a c i
    proof
      assume "key_at h a = key_at h c"
      moreover have "hash_at h a = hash_fn (key_at h a)" "item_pos h (hm_capacity m) a = i"
        using b [of i] that Suc.prems by (auto simp: bucket_def)
      moreover have "hash_at h c = hash_fn (key_at h c)" "item_pos h (hm_capacity m) c = n"
        using b [of n] that Suc.prems by (auto simp: bucket_def)
      ultimately show False using that(2) by simp
    qed
    with Suc b [of n] show ?case by (fastforce simp: bucket_def)
  qed
  then show d: "distinct (map fst (all_entries h m bs))"
    by (simp add: all_entries_def map_concat comp_def keys)
  show "map_of (all_entries h m bs) = hm_abs h m bs"
  proof (intro ext option_eqI)
    fix k v
    have "map_of (all_entries h m bs) k = Some v \<longleftrightarrow> (k, v) \<in> set (all_entries h m bs)"
      by (rule map_of_eq_Some_iff [OF d])
    also have "set (all_entries h m bs) = (\<lambda>a. (key_at h a, val_at h a)) ` items m bs"
      by (simp add: all_entries_def entries_def items_def image_UN atLeast0LessThan)
    also have "(k, v) \<in> \<dots> \<longleftrightarrow> (\<exists>a \<in> items m bs. key_at h a = k \<and> val_at h a = v)"
      by (auto simp: image_iff prod_eq_iff)
    finally show "map_of (all_entries h m bs) k = Some v \<longleftrightarrow> hm_abs h m bs k = Some v"
      by (simp add: hm_abs_iff [OF r])
  qed
qed

text \<open>
  C40.  Iteration terminates and visits every binding of the map exactly once.
\<close>

theorem hash_map_foreach_complete:
  assumes "hm_repr h m bs"
  shows "\<exists>kvs. hash_map_foreach h m = Some kvs \<and> distinct (map fst kvs) \<and> map_of kvs = hm_abs h m bs"
  using hash_map_foreach_entries [OF assms] all_entries_map [OF assms] by blast

definition freed :: "item heap \<Rightarrow> addr set \<Rightarrow> item heap" where
  "freed h A = (\<lambda>a. if a \<in> A then None else h a)"

lemma free_chain_correct:
  "chain it_next h it as \<Longrightarrow> free_chain h it acc = Some (freed h (set as), acc @ entries h as)"
proof (induction as arbitrary: h it acc)
  case Nil
  then show ?case by (subst free_chain.simps) (simp add: freed_def entries_def)
next
  case (Cons a as)
  then obtain n where n: "it = a" "a \<noteq> NULL" "h a = Some n" "chain it_next h (it_next n) as"
    by (auto split: option.splits)
  have "a \<notin> set as" using chain_distinct [OF Cons.prems] by simp
  with n have ch: "chain it_next (h(a := None)) (it_next n) as" by simp
  have "entries (h(a := None)) as = entries h as"
    using \<open>a \<notin> set as\<close> by (intro entries_payload) (auto simp: payload_def)
  moreover have "freed (h(a := None)) (set as) = freed h (set (a # as))" by (auto simp: freed_def)
  moreover have "free_chain h it acc = free_chain (h(a := None)) (it_next n) (acc @ [(it_key n, it_val n)])"
    using n by (subst free_chain.simps) (simp del: fun_upd_apply)
  moreover have "entries h (a # as) = (it_key n, it_val n) # entries h as" using n(3) by (simp add: entries_def)
  ultimately show ?case unfolding Cons.IH [OF ch] by simp
qed

lemma free_pool_correct:
  assumes "\<And>j. j < cap \<Longrightarrow> chain it_next h0 (pool ! j) (bs j)" and "length pool = cap"
    and disj: "\<And>i j. i < cap \<Longrightarrow> j < cap \<Longrightarrow> i \<noteq> j \<Longrightarrow> set (bs i) \<inter> set (bs j) = {}"
  shows "pos + n = cap \<Longrightarrow> free_pool (freed h0 (\<Union>i < pos. set (bs i))) pool pos n acc =
    Some (freed h0 (\<Union>i < cap. set (bs i)), acc @ concat (map (\<lambda>i. entries h0 (bs i)) [pos..<cap]))"
proof (induction n arbitrary: pos acc)
  case 0
  then show ?case by simp
next
  case (Suc n)
  let ?h = "freed h0 (\<Union>i < pos. set (bs i))"
  have pos: "pos < cap" using Suc.prems by simp
  have same: "?h a = h0 a" if "a \<in> set (bs pos)" for a
  proof -
    have "a \<notin> set (bs i)" if "i < pos" for i using disj [of i pos] that pos \<open>a \<in> set (bs pos)\<close> by auto
    then show ?thesis by (simp add: freed_def)
  qed
  have "chain it_next ?h (pool ! pos) (bs pos) = chain it_next h0 (pool ! pos) (bs pos)"
    by (rule lseg_cong_dom) (rule same)
  then have "chain it_next ?h (pool ! pos) (bs pos)" using assms(1) [OF pos] by (simp only:)
  from free_chain_correct [OF this] have
    f: "free_chain ?h (pool ! pos) acc = Some (freed ?h (set (bs pos)), acc @ entries ?h (bs pos))" .
  have "entries ?h (bs pos) = entries h0 (bs pos)"
    by (rule entries_payload) (simp only: payload_def same)
  with f have "free_chain ?h (pool ! pos) acc = Some (freed ?h (set (bs pos)), acc @ entries h0 (bs pos))"
    by (simp only:)
  moreover have "freed ?h (set (bs pos)) = freed h0 (\<Union>i < Suc pos. set (bs i))"
    by (auto simp: freed_def lessThan_Suc)
  moreover have "[pos..<cap] = pos # [Suc pos..<cap]" using pos by (rule upt_conv_Cons)
  ultimately show ?case using Suc.IH [of "Suc pos"] Suc.prems pos assms(2) by simp
qed

text \<open>\<open>hash_map_free\<close> calls the callback once for every binding and frees every item of the
  table and nothing else.  It zeroes the capacity twice and leaves the count as it was.
\<close>

theorem hash_map_free_correct:
  assumes r: "hm_repr h m bs"
  shows "\<exists>h' kvs. hash_map_free h m = Some (h', \<lparr>hm_pool = [], hm_capacity = 0, hm_count = hm_count m\<rparr>, kvs) \<and>
    distinct (map fst kvs) \<and> map_of kvs = hm_abs h m bs \<and> h' = freed h (items m bs)"
proof -
  have "free_pool (freed h (\<Union>i < 0. set (bs i))) (hm_pool m) 0 (hm_capacity m) [] =
      Some (freed h (\<Union>i < hm_capacity m. set (bs i)), [] @ concat (map (\<lambda>i. entries h (bs i)) [0..<hm_capacity m]))"
    by (rule free_pool_correct)
      (use r hm_repr_disjoint [OF r] in \<open>auto simp: hm_repr_def bucket_def\<close>)
  then have "hash_map_free h m =
      Some (freed h (items m bs), \<lparr>hm_pool = [], hm_capacity = 0, hm_count = hm_count m\<rparr>, all_entries h m bs)"
    by (cases m) (simp add: hash_map_free_def freed_def items_def all_entries_def)
  with all_entries_map [OF r] show ?thesis by blast
qed

text \<open>A table with one binding, in the only bucket.\<close>

definition one_item :: "item heap" where
  "one_item = [5 \<mapsto> \<lparr>it_next = NULL, it_hash = hash_fn [97], it_key = [97], it_val = 9\<rparr>]"

definition one_map :: "hash_map" where
  "one_map = \<lparr>hm_pool = [5], hm_capacity = 1, hm_count = 1\<rparr>"

lemma one_repr: "hm_repr one_item one_map (\<lambda>_. [5])"
proof -
  have "\<exists>k. (1 :: nat) = 2 ^ k" by (rule exI [of _ 0]) simp
  then show ?thesis by (simp add: hm_repr_def bucket_def one_item_def one_map_def payload_def pool_pos_def)
qed

theorem hash_map_get_by_hash_witness:
  "hash_map_get one_item one_map None 3 =
    (if \<exists>a \<in> items one_map (\<lambda>_. [5]). hash_at one_item a = 3 then None else Some NULL)"
  by (rule hash_map_get_by_hash [OF one_repr])

theorem hash_map_foreach_complete_witness:
  "\<exists>kvs. hash_map_foreach one_item one_map = Some kvs \<and> distinct (map fst kvs) \<and>
    map_of kvs = hm_abs one_item one_map (\<lambda>_. [5])"
  by (rule hash_map_foreach_complete [OF one_repr])

theorem hash_map_free_correct_witness:
  "\<exists>h' kvs. hash_map_free one_item one_map =
      Some (h', \<lparr>hm_pool = [], hm_capacity = 0, hm_count = hm_count one_map\<rparr>, kvs) \<and>
    distinct (map fst kvs) \<and> map_of kvs = hm_abs one_item one_map (\<lambda>_. [5]) \<and>
    h' = freed one_item (items one_map (\<lambda>_. [5]))"
  by (rule hash_map_free_correct [OF one_repr])

end
