(* ===== verification/HexStr.thy ===== *)
theory HexStr
  imports CString
begin

text \<open>
  Hexadecimal conversion of \<open>src/strutils.c\<close>.  A character is a byte; \<open>char\<close> is signed in C,
  but the range tests compare with characters below 128 only, where both readings agree.  The
  destination buffers are checked: a write past the end is \<open>None\<close>.  Lengths and indices are of type
  \<open>int\<close>: the length of a string is cut to 32 bits, and an index that overflows is \<open>None\<close>.
\<close>

definition hex2int :: "u8 \<Rightarrow> int" where
  "hex2int ch =
     (if ch \<ge> 0x30 \<and> ch \<le> 0x39 then uint (ch - 0x30)
      else
        let ch = ch AND NOT 0x20
        in if ch \<ge> 0x41 \<and> ch \<le> 0x46 then uint (ch - 0x41) + 10 else - 1)"

definition int2hex :: "u8 \<Rightarrow> u8" where
  "int2hex v = (let v = v AND 0x0f in if v \<le> 9 then 0x30 + v else 0x41 + (v - 10))"

fun atohstr_loop :: "u8 list \<Rightarrow> u8 list \<Rightarrow> nat \<Rightarrow> nat \<Rightarrow> u8 list option" where
  "atohstr_loop hstr arr i 0 = do { k \<leftarrow> int_index (i * 2); set_at hstr k 0 }"
| "atohstr_loop hstr arr i (Suc n) = do {
     a \<leftarrow> get_at arr i;
     k \<leftarrow> int_index (i * 2 + 0);
     hstr \<leftarrow> set_at hstr k (int2hex (drop_bit 4 a));
     k \<leftarrow> int_index (i * 2 + 1);
     hstr \<leftarrow> set_at hstr k (int2hex a);
     atohstr_loop hstr arr (i + 1) n
   }"

definition atohstr :: "u8 list \<Rightarrow> u8 list \<Rightarrow> int \<Rightarrow> (int \<times> u8 list) option" where
  "atohstr hstr arr arr_len = map_option (\<lambda>b. (0, b)) (atohstr_loop hstr arr 0 (nat arr_len))"

fun hstrtoa_loop :: "u8 list \<Rightarrow> u8 list \<Rightarrow> nat \<Rightarrow> nat \<Rightarrow> int \<Rightarrow> (int \<times> u8 list) option" where
  "hstrtoa_loop arr hstr i 0 len = Some (len, arr)"
| "hstrtoa_loop arr hstr i (Suc n) len = do {
     k \<leftarrow> int_index (i * 2 + 0);
     c1 \<leftarrow> get_at hstr k;
     k \<leftarrow> int_index (i * 2 + 1);
     c2 \<leftarrow> get_at hstr k;
     let nib1 = hex2int c1;
     let nib2 = hex2int c2;
     if nib1 = - 1 \<or> nib2 = - 1 then Some (- 1, arr)
     else do {
       arr \<leftarrow> set_at arr i (word_of_int (push_bit 4 nib1 OR nib2));
       hstrtoa_loop arr hstr (i + 1) n len
     }
   }"

definition hstrtoa :: "u8 list \<Rightarrow> u8 list \<Rightarrow> (int \<times> u8 list) option" where
  "hstrtoa arr hstr = do {
     n \<leftarrow> c_strlen hstr;
     let len = int_of_size n;
     if len AND 1 = 1 \<or> len = 0 then Some (- 1, arr)
     else
       let len = len sdiv 2
       in hstrtoa_loop arr hstr 0 (nat len) len
   }"

subsection \<open>Digits\<close>

lemma nibble_digit: "hex2int (int2hex b) = uint (b AND 0x0f) \<and> int2hex b \<noteq> 0"
proof -
  have "hex2int (int2hex v) = uint v \<and> int2hex v \<noteq> 0" if "0 \<le> v" "v \<le> 15" for v
    using that by (rule bytes_between [of _ 0 15, rotated]) code_simp
  moreover have "int2hex b = int2hex (b AND 0x0f)" by (simp add: int2hex_def and.assoc)
  moreover have "b AND 0x0f \<le> 15" using word_and_le1 [of b 15] by simp
  ultimately show ?thesis by simp
qed

lemma nibbles: "uint (drop_bit 4 b AND 15) * 16 + uint (b AND 15) = uint (b :: u8)"
proof -
  have m: "(15 :: int) = mask 4" by (simp add: mask_eq_exp_minus_1)
  have b: "uint b < 256" using unsigned_less [of b, where 'a = int] by simp
  have "uint (b AND 15) = uint b mod 16"
    unfolding unsigned_and_eq by (simp add: m take_bit_eq_mod flip: take_bit_eq_mask)
  moreover have "uint (drop_bit 4 b AND 15) = uint b div 16 mod 16"
    using b unfolding unsigned_and_eq unsigned_drop_bit_eq
    by (simp add: m take_bit_eq_mod drop_bit_eq_div flip: take_bit_eq_mask)
  moreover have "uint b div 16 mod 16 = uint b div 16"
    using b by (intro mod_pos_pos_trivial) (simp_all add: pos_imp_zdiv_nonneg_iff)
  ultimately show ?thesis by simp
qed
lemma hex_nibbles:
  "word_of_int (hex2int (int2hex (drop_bit 4 b)) * 16 + hex2int (int2hex b)) = b \<and> int2hex b \<noteq> 0 \<and>
    hex2int (int2hex b) \<noteq> - 1"
proof -
  have "uint (b AND 15) \<noteq> - 1" using unsigned_greater_eq [of "b AND 15", where 'a = int] by linarith
  then show ?thesis by (simp only: nibble_digit nibbles word_of_int_uint simp_thms not_False_eq_True)
qed

lemma hex2int_range: "hex2int c = - 1 \<or> 0 \<le> hex2int c \<and> hex2int c < 16"
  by (auto simp: hex2int_def Let_def uint_sub word_le_def)

definition hex_of :: "u8 list \<Rightarrow> u8 list" where
  "hex_of bs = concat (map (\<lambda>b. [int2hex (drop_bit 4 b), int2hex b]) bs)"

lemma length_hex_of [simp]: "length (hex_of bs) = 2 * length bs"
  by (induction bs) (auto simp: hex_of_def)

lemma hex_of_empty [simp]: "hex_of bs = [] \<longleftrightarrow> bs = []"
  using length_hex_of [of bs] by (metis length_0_conv mult_eq_0_iff zero_neq_numeral)

lemma hex_of_Cons: "hex_of (b # bs) = int2hex (drop_bit 4 b) # int2hex b # hex_of bs"
  by (simp add: hex_of_def)

lemma hex_of_append: "hex_of (as @ bs) = hex_of as @ hex_of bs"
  by (simp add: hex_of_def)

lemma hex_of_no_NUL: "0 \<notin> set (hex_of bs)"
  by (induction bs) (auto simp: hex_of_def hex_nibbles dest: sym)

subsection \<open>Printing\<close>

lemma atohstr_loop_writes:
  "length p = i * 2 \<Longrightarrow> length q = i \<Longrightarrow> 2 * length xs < length rest \<Longrightarrow>
     int (i * 2 + 2 * length xs) \<le> INT_MAX \<Longrightarrow>
     atohstr_loop (p @ rest) (q @ xs) i (length xs)
       = Some (p @ hex_of xs @ 0 # drop (2 * length xs + 1) rest)"
proof (induction xs arbitrary: p q i rest)
  case Nil
  then obtain r rest' where "rest = r # rest'" by (cases rest) auto
  with Nil show ?case by (simp add: hex_of_def list_update_append)
next
  case (Cons x xs)
  then obtain r s rest' where r: "rest = r # s # rest'"
    by (cases rest; cases "tl rest") auto
  have "atohstr_loop ((p @ [int2hex (drop_bit 4 x), int2hex x]) @ rest') ((q @ [x]) @ xs) (Suc i) (length xs)
      = Some ((p @ [int2hex (drop_bit 4 x), int2hex x]) @ hex_of xs @ 0 # drop (2 * length xs + 1) rest')"
    using Cons.prems r by (intro Cons.IH) auto
  then show ?case
    using Cons.prems r by (simp add: hex_of_Cons list_update_append nth_append)
qed

lemma atohstr_writes:
  "2 * length arr < length hstr \<Longrightarrow> int (2 * length arr) \<le> INT_MAX \<Longrightarrow>
     atohstr hstr arr (int (length arr)) = Some (0, hex_of arr @ 0 # drop (2 * length arr + 1) hstr)"
  using atohstr_loop_writes [of "[]" 0 "[]" arr hstr] by (simp add: atohstr_def)

subsection \<open>Parsing\<close>

definition hex_digits :: "u8 list \<Rightarrow> bool" where
  "hex_digits s \<longleftrightarrow> list_all (\<lambda>c. hex2int c \<noteq> - 1) s"

fun hex_bytes :: "u8 list \<Rightarrow> u8 list" where
  "hex_bytes (c # d # s) = word_of_int (hex2int c * 16 + hex2int d) # hex_bytes s"
| "hex_bytes s = []"

lemma nibbles_or: "hex2int c \<noteq> - 1 \<Longrightarrow> hex2int d \<noteq> - 1 \<Longrightarrow>
    push_bit 4 (hex2int c) OR hex2int d = hex2int c * 16 + hex2int d"
proof -
  assume "hex2int c \<noteq> - 1" "hex2int d \<noteq> - 1"
  then have r: "0 \<le> hex2int c" "0 \<le> hex2int d" "hex2int d < 16" using hex2int_range [of c] hex2int_range [of d] by auto
  have "push_bit 4 (hex2int c) AND hex2int d = 0"
  proof (rule bit_eqI)
    fix n
    have "\<not> bit (hex2int d) n" if "4 \<le> n"
    proof -
      have "take_bit 4 (hex2int d) = hex2int d" using r by (simp add: take_bit_int_eq_self_iff)
      then show ?thesis using that by (metis bit_take_bit_iff not_le)
    qed
    then show "bit (push_bit 4 (hex2int c) AND hex2int d) n \<longleftrightarrow> bit (0 :: int) n"
      by (auto simp: bit_and_iff bit_push_bit_iff)
  qed
  then show ?thesis by (simp add: disjunctive_add_eq_or [symmetric] push_bit_eq_mult)
qed

lemma hstrtoa_loop_reads:
  "length s = 2 * n \<Longrightarrow> length p = i * 2 \<Longrightarrow> length q = i \<Longrightarrow> n \<le> length rest \<Longrightarrow>
     int (i * 2 + 2 * n) \<le> INT_MAX \<Longrightarrow>
     \<exists>arr'. hstrtoa_loop (q @ rest) (p @ s @ z) i n len
       = Some (if hex_digits s then (len, q @ hex_bytes s @ drop n rest) else (- 1, arr'))"
proof (induction n arbitrary: s p q i rest)
  case 0
  then show ?case by (simp add: hex_digits_def)
next
  case (Suc n)
  obtain c d s' where s: "s = c # d # s'" using Suc.prems(1) by (cases s; cases "tl s") auto
  obtain r rest' where r: "rest = r # rest'" using Suc.prems(4) by (cases rest) auto
  show ?case
  proof (cases "hex2int c = - 1 \<or> hex2int d = - 1")
    case True
    then show ?thesis using Suc.prems s by (auto simp: nth_append hex_digits_def Let_def)
  next
    case False
    let ?v = "word_of_int (hex2int c * 16 + hex2int d) :: u8"
    obtain arr' where "hstrtoa_loop ((q @ [?v]) @ rest') ((p @ [c, d]) @ s' @ z) (Suc i) n len
       = Some (if hex_digits s' then (len, (q @ [?v]) @ hex_bytes s' @ drop n rest') else (- 1, arr'))"
      using Suc.IH [of s' "p @ [c, d]" "Suc i" "q @ [?v]" rest'] Suc.prems s r by auto
    then show ?thesis using Suc.prems s r False
      by (intro exI [of _ arr']) (simp add: nth_append hex_digits_def Let_def nibbles_or list_update_append)
  qed
qed

lemma hex_bytes_hex_of: "hex_bytes (hex_of bs) = bs"
  by (induction bs) (simp_all only: hex_of_Cons hex_bytes.simps hex_nibbles, simp add: hex_of_def)

lemma hex_digits_hex_of: "hex_digits (hex_of bs)"
  by (induction bs) (simp_all add: hex_digits_def hex_of_def hex_nibbles)

text \<open>\<open>hstrtoa()\<close> on a string whose length an \<open>int\<close> can hold.\<close>

lemma hstrtoa_int:
  assumes "0 \<notin> set s" and "int (length s) \<le> INT_MAX"
  shows "hstrtoa arr (s @ 0 # z) = (if s = [] \<or> odd (length s) then Some (- 1, arr)
    else hstrtoa_loop arr (s @ 0 # z) 0 (length s div 2) (int (length s div 2)))"
proof -
  have "int (length s) AND 1 = 1 \<longleftrightarrow> odd (length s)" by (simp add: and_one_eq odd_iff_mod_2_eq_one) presburger
  moreover have "nat (int (length s) div 2) = length s div 2" "int (length s) div 2 = int (length s div 2)" by simp_all
  ultimately show ?thesis using assms by (simp add: hstrtoa_def Let_def)
qed



text \<open>C29. Printing the bytes of a non-empty array of less than \<open>2 ^ 30\<close> bytes with \<open>atohstr()\<close> and parsing the result with
  \<open>hstrtoa()\<close> gives the bytes back, whatever they are and whatever the two buffers held, as long
  as the text buffer has two characters per byte and one for the terminator.\<close>

theorem hex_round_trip:
  assumes "bs \<noteq> []" and "int (2 * length bs) \<le> INT_MAX" and "2 * length bs < length buf" and "length bs \<le> length arr"
  shows "do { (rc, text) \<leftarrow> atohstr buf bs (int (length bs)); hstrtoa arr text }
    = Some (int (length bs), bs @ drop (length bs) arr)"
  using hstrtoa_loop_reads [of "hex_of bs" "length bs" "[]" 0 "[]" arr "0 # drop (2 * length bs + 1) buf" "int (length bs)"] assms
  by (auto simp: atohstr_writes hstrtoa_int hex_of_no_NUL hex_digits_hex_of hex_bytes_hex_of)

theorem hex_round_trip_witness:
  "do { (rc, text) \<leftarrow> atohstr (replicate 6 0x7a) [0xbe, 0x07] 2; hstrtoa [0, 0, 0x55] text }
    = Some (2, [0xbe, 0x07, 0x55])"
  using hex_round_trip [of "[0xbe, 0x07]" "replicate 6 0x7a" "[0, 0, 0x55]"] by (simp add: INT_MAX_def)

end
