(* ===== verification/StrTok.thy ===== *)
theory StrTok
  imports Memory
begin

text \<open>
  Splitting a string into tokens (\<open>src/strutils.c\<close>): \<open>str_sep()\<close>, \<open>str_sep_count()\<close> and
  \<open>split_string()\<close> with the \<open>strtok_r\<close> of POSIX.  A \<open>char **\<close> to the rest of the string is an
  offset into the buffer, \<open>None\<close> for NULL.  The specification is \<open>tokens\<close>, the maximal runs of
  characters that are not separators.
\<close>

definition str_sep :: "u8 list \<Rightarrow> nat option \<Rightarrow> u8 list \<Rightarrow> (nat option \<times> u8 list \<times> nat option) option" where
  "str_sep b str sep = (case str of
       None \<Rightarrow> Some (None, b, None)
     | Some p \<Rightarrow> do {
         c \<leftarrow> get_at b p;
         if c = 0 then Some (Some p, b, Some p)
         else do {
           start \<leftarrow> scan (\<lambda>c. c \<in> set sep) b p;
           end1 \<leftarrow> scan (\<lambda>c. c \<notin> set sep) b start;
           e \<leftarrow> get_at b end1;
           if e \<noteq> 0 then do { b \<leftarrow> set_at b end1 0; Some (Some start, b, Some (end1 + 1)) }
           else Some (Some start, b, Some end1)
         }
       })"

partial_function (option) count_tokens :: "u8 list \<Rightarrow> u8 list \<Rightarrow> nat \<Rightarrow> nat \<Rightarrow> nat option" where
  "count_tokens b sep p count = do {
     c \<leftarrow> get_at b p;
     if c = 0 then Some count
     else do {
       p \<leftarrow> scan (\<lambda>c. c \<in> set sep) b p;
       c \<leftarrow> get_at b p;
       if c = 0 then Some count
       else do {
         p \<leftarrow> scan (\<lambda>c. c \<notin> set sep) b p;
         count_tokens b sep p (count + 1)
       }
     }
   }"

definition str_sep_count :: "u8 list option \<Rightarrow> u8 list option \<Rightarrow> nat option" where
  "str_sep_count str sep = (case str of
       None \<Rightarrow> Some 0
     | Some b \<Rightarrow> do {
         c \<leftarrow> get_at b 0;
         if c = 0 then Some 0
         else (case sep of None \<Rightarrow> Some 1 | Some sep \<Rightarrow> count_tokens b sep 0 0)
       })"

text \<open>\<open>strtok_r\<close>: skip separators, cut the token off, remember where the next one may start.\<close>

definition strtok_r :: "u8 list \<Rightarrow> nat \<Rightarrow> u8 list \<Rightarrow> (nat option \<times> u8 list \<times> nat) option" where
  "strtok_r b p sep = do {
     start \<leftarrow> scan (\<lambda>c. c \<in> set sep) b p;
     c \<leftarrow> get_at b start;
     if c = 0 then Some (None, b, start)
     else do {
       end1 \<leftarrow> scan (\<lambda>c. c \<notin> set sep) b start;
       e \<leftarrow> get_at b end1;
       if e \<noteq> 0 then do { b \<leftarrow> set_at b end1 0; Some (Some start, b, end1 + 1) }
       else Some (Some start, b, end1)
     }
   }"

text \<open>
  The array of tokens: \<open>realloc\<close> keeps the front and leaves the rest undefined (\<open>None\<close> here, as is
  a NULL pointer).  A token is the string \<open>safe_strdup()\<close> copies.  \<open>more n\<close> is whether the allocator
  grants an array of \<open>n\<close> bytes, \<open>malloc\<close> answers for the copies; \<open>Inl\<close> is the end of the process.  The
  \<open>int\<close> that says by how much the array grows next must not overflow.
\<close>

definition toks_realloc :: "(nat \<Rightarrow> bool) \<Rightarrow> u8 list option list \<Rightarrow> nat \<Rightarrow> int + u8 list option list" where
  "toks_realloc more toks n =
     (if more (8 * n) then Inr (take n toks @ replicate (n - length toks) None) else die_oom)"

definition toks_grow :: "(nat \<Rightarrow> bool) \<Rightarrow> u8 list option list \<Rightarrow> nat \<Rightarrow> nat \<Rightarrow> int \<Rightarrow>
    (int + u8 list option list \<times> nat \<times> int) option" where
  "toks_grow more toks len size1 chunk =
     (if len \<ge> size1
      then and_then (toks_realloc more toks (size1 + nat chunk)) (\<lambda>toks.
        if int_ok (chunk * 4) then Some (Inr (toks, size1 + nat chunk, chunk * 4)) else None)
      else Some (Inr (toks, size1, chunk)))"

partial_function (option) split_loop ::
    "(nat \<Rightarrow> u8 list option) \<Rightarrow> (nat \<Rightarrow> bool) \<Rightarrow> u8 list \<Rightarrow> u8 list \<Rightarrow> nat option \<Rightarrow> nat \<Rightarrow> u8 list option list \<Rightarrow>
       nat \<Rightarrow> nat \<Rightarrow> int \<Rightarrow> (int + u8 list option list \<times> nat) option" where
  "split_loop malloc more buf sep tok rest toks len size1 chunk = (case tok of
       None \<Rightarrow> Some (Inr (toks, len))
     | Some p \<Rightarrow> do {
         r \<leftarrow> toks_grow more toks len size1 chunk;
         (case r of Inl rc \<Rightarrow> Some (Inl rc) | Inr (toks, size1, chunk) \<Rightarrow> do {
           t \<leftarrow> safe_strdup malloc (drop p buf);
           (case t of Inl rc \<Rightarrow> Some (Inl rc) | Inr t \<Rightarrow> do {
             toks \<leftarrow> set_at toks len (Some t);
             (tok, buf, rest) \<leftarrow> strtok_r buf rest sep;
             split_loop malloc more buf sep tok rest toks (len + 1) size1 chunk
           })
         })
       })"

definition split_string ::
    "(nat \<Rightarrow> u8 list option) \<Rightarrow> (nat \<Rightarrow> bool) \<Rightarrow> u8 list \<Rightarrow> u8 list \<Rightarrow> (int + int \<times> u8 list option list) option" where
  "split_string malloc more buf sep = do {
     (tok, buf, rest) \<leftarrow> strtok_r buf 0 sep;
     r \<leftarrow> split_loop malloc more buf sep tok rest [] 0 0 16;
     and_then r (\<lambda>(toks, len).
       if toks = [] then Some (Inr (- 1, []))
       else and_then (toks_realloc more toks (len + 1)) (\<lambda>toks. do {
         toks \<leftarrow> set_at toks len None;
         Some (Inr (0, toks))
       }))
   }"

subsection \<open>Tokens\<close>

lemma dropWhile_shrinks:
  "dropWhile P s \<noteq> [] \<Longrightarrow> length (dropWhile (\<lambda>c. \<not> P c) (dropWhile P s)) < length s"
proof (induction s)
  case (Cons c s)
  then show ?case using length_dropWhile_le [of "\<lambda>c. \<not> P c" s] by (auto simp: le_imp_less_Suc)
qed simp

function tokens :: "u8 list \<Rightarrow> u8 list \<Rightarrow> u8 list list" where
  "tokens sep s =
     (let d = dropWhile (\<lambda>c. c \<in> set sep) s
      in if d = [] then []
         else takeWhile (\<lambda>c. c \<notin> set sep) d # tokens sep (dropWhile (\<lambda>c. c \<notin> set sep) d))"
  by pat_completeness auto

termination
proof (relation "measure (\<lambda>(sep, s). length s)")
  fix sep s d
  assume "d = dropWhile (\<lambda>c. c \<in> set sep) s" and "d \<noteq> []"
  then show "((sep, dropWhile (\<lambda>c. c \<notin> set sep) d), sep, s) \<in> measure (\<lambda>(sep, s). length s)"
    using dropWhile_shrinks [of "\<lambda>c. c \<in> set sep" s] by simp
qed simp

declare tokens.simps [simp del]

lemma tokens_Nil [simp]: "tokens sep [] = []"
  by (simp add: tokens.simps)

lemma tokens_sep: "c \<in> set sep \<Longrightarrow> tokens sep (c # s) = tokens sep s"
  by (simp add: tokens.simps [of sep "c # s"] tokens.simps [of sep s])

text \<open>
  Where the next token is: after the separators \<open>u\<close>, and before the end of the string or a
  separator behind which the rest \<open>s'\<close> starts.
\<close>

lemma next_token:
  assumes "tokens sep s = t # ts"
  obtains u where "takeWhile (\<lambda>c. c \<in> set sep) s = u" and "t \<noteq> []" and "set t \<inter> set sep = {}"
    and "s = u @ t" and "ts = []"
  | u c s' where "takeWhile (\<lambda>c. c \<in> set sep) s = u" and "t \<noteq> []" and "set t \<inter> set sep = {}"
    and "c \<in> set sep" and "s = u @ t @ c # s'" and "tokens sep s' = ts"
proof -
  define d where "d = dropWhile (\<lambda>c. c \<in> set sep) s"
  define r where "r = dropWhile (\<lambda>c. c \<notin> set sep) d"
  have d: "d \<noteq> []" "t = takeWhile (\<lambda>c. c \<notin> set sep) d" "ts = tokens sep r"
    using assms by (auto simp: tokens.simps [of sep s] Let_def d_def r_def split: if_splits)
  have "hd d \<notin> set sep" using d(1) hd_dropWhile unfolding d_def by metis
  then have t: "t \<noteq> []" using d(1,2) by (cases d) auto
  have t2: "set t \<inter> set sep = {}" using d(2) by (auto dest: set_takeWhileD)
  have s: "s = takeWhile (\<lambda>c. c \<in> set sep) s @ t @ r"
    using d(2) by (simp add: r_def d_def)
  show ?thesis
  proof (cases r)
    case Nil
    then show ?thesis using that(1) [OF refl t t2] s d(3) by simp
  next
    case (Cons c s')
    have "c \<in> set sep" using hd_dropWhile [of "\<lambda>c. c \<notin> set sep" d] Cons by (simp flip: r_def)
    then show ?thesis using that(2) [OF refl t t2, of c s'] s d(3) Cons by (simp add: tokens_sep)
  qed
qed

lemma no_token: "tokens sep s = [] \<longleftrightarrow> set s \<subseteq> set sep"
  by (auto simp: tokens.simps [of sep s] Let_def)

subsection \<open>One call\<close>

lemma takeWhile_no_sep: "set t \<inter> A = {} \<Longrightarrow> takeWhile (\<lambda>c. c \<notin> A) t = t"
  by (induction t) auto

lemma takeWhile_to_sep: "set t \<inter> A = {} \<Longrightarrow> c \<in> A \<Longrightarrow> takeWhile (\<lambda>c. c \<notin> A) (t @ c # s) = t"
  by (induction t) auto

lemma strtok_step:
  assumes "0 \<notin> set s" and "length pre = p" and "tokens sep s = t # ts"
  obtains start pre' s' where "strtok_r (pre @ s @ 0 # z) p sep = Some (Some start, pre' @ s' @ 0 # z, length pre')"
    and "c_string (pre' @ s' @ 0 # z) start = Some t" and "tokens sep s' = ts"
    and "length s' < length s" and "0 \<notin> set s'" and "length (pre' @ s') = length (pre @ s)"
    and "take p pre' = pre"
  using assms(3)
proof (cases rule: next_token)
  case (1 u)
  have scan1: "scan (\<lambda>c. c \<in> set sep) (pre @ s @ 0 # z) p = Some (p + length u)"
    using scan_in [OF assms(1,2)] 1 by simp
  have scan2: "scan (\<lambda>c. c \<notin> set sep) (pre @ s @ 0 # z) (p + length u) = Some (p + length u + length t)"
    using scan_in [of t "pre @ u" "p + length u" "\<lambda>c. c \<notin> set sep" z] assms 1 takeWhile_no_sep [OF 1(3)]
    by simp
  obtain x t' where x: "t = x # t'" "x \<noteq> 0" using 1(2,4) assms(1) by (cases t) auto
  have g1: "get_at (pre @ s @ 0 # z) (p + length u) = Some x"
    using 1(4) x assms(2) by (auto simp: nth_append)
  have g2: "get_at (pre @ s @ 0 # z) (p + length u + length t) = Some 0"
    using 1(4) assms(2) by (auto simp: nth_append)
  have "strtok_r (pre @ s @ 0 # z) p sep = Some (Some (p + length u), pre @ s @ 0 # z, p + length u + length t)"
    using scan1 scan2 g1 g2 x(2) by (simp add: strtok_r_def)
  moreover have "c_string ((pre @ u) @ t @ 0 # z) (p + length u) = Some t"
    using assms 1 by (intro c_string_at) auto
  ultimately show ?thesis
    using that [of "p + length u" "pre @ s" "[]"] 1 assms x by (simp add: Int_commute)
next
  case (2 u c s')
  have scan1: "scan (\<lambda>c. c \<in> set sep) (pre @ s @ 0 # z) p = Some (p + length u)"
    using scan_in [OF assms(1,2)] 2 by simp
  have scan2: "scan (\<lambda>c. c \<notin> set sep) (pre @ s @ 0 # z) (p + length u) = Some (p + length u + length t)"
    using scan_in [of "t @ c # s'" "pre @ u" "p + length u" "\<lambda>c. c \<notin> set sep" z] assms 2
      takeWhile_to_sep [OF 2(3,4)] by simp
  obtain x t' where x: "t = x # t'" "x \<noteq> 0" using 2(2,5) assms(1) by (cases t) auto
  have g1: "get_at (pre @ s @ 0 # z) (p + length u) = Some x"
    using 2(5) x assms(2) by (auto simp: nth_append)
  have g2: "get_at (pre @ s @ 0 # z) (p + length u + length t) = Some c" "c \<noteq> 0"
    using 2(5) assms(1,2) by (auto simp: nth_append)
  have w: "set_at (pre @ s @ 0 # z) (p + length u + length t) 0 = Some ((pre @ u @ t @ [0]) @ s' @ 0 # z)"
    using 2(5) assms(2) by (simp add: list_update_append)
  have "strtok_r (pre @ s @ 0 # z) p sep = Some (Some (p + length u), (pre @ u @ t @ [0]) @ s' @ 0 # z, p + length u + length t + 1)"
    using scan1 scan2 g1 g2 x(2) w by (simp add: strtok_r_def)
  moreover have "c_string ((pre @ u) @ t @ 0 # s' @ 0 # z) (p + length u) = Some t"
    using assms 2 by (intro c_string_at) auto
  ultimately show ?thesis
    using that [of "p + length u" "pre @ u @ t @ [0]" s'] 2 assms by simp
qed

lemma strtok_none:
  assumes "0 \<notin> set s" and "length pre = p" and "tokens sep s = []"
  shows "strtok_r (pre @ s @ 0 # z) p sep = Some (None, pre @ s @ 0 # z, p + length s)"
proof -
  have all: "takeWhile (\<lambda>c. c \<in> set sep) s = s" using assms(3) by (auto simp: no_token)
  have "scan (\<lambda>c. c \<in> set sep) (pre @ s @ 0 # z) p = Some (p + length s)"
    using scan_in [OF assms(1,2), of "\<lambda>c. c \<in> set sep"] unfolding all .
  then show ?thesis using assms(2) by (simp add: strtok_r_def nth_append)
qed

text \<open>\<open>str_sep()\<close> is \<open>strtok_r\<close>, except that it never runs out of tokens.\<close>

lemma str_sep_strtok:
  assumes "strtok_r b p sep = Some (Some start, b', p')" and "0 \<notin> set sep"
  shows "str_sep b (Some p) sep = Some (Some start, b', Some p')"
proof -
  obtain c where c: "scan (\<lambda>c. c \<in> set sep) b p = Some start" "get_at b start = Some c" "c \<noteq> 0"
    using assms(1) by (auto simp: strtok_r_def split: bind_splits if_splits)
  then obtain d where d: "get_at b p = Some d" by (subst (asm) scan.simps) (auto split: bind_splits)
  have "d \<noteq> 0" using c d by (subst (asm) scan.simps) (auto split: if_splits)
  then show ?thesis using c d assms(1) by (auto simp: strtok_r_def str_sep_def split: bind_splits if_splits)
qed

lemma str_sep_end:
  assumes "0 \<notin> set s" and "length pre = p" and "tokens sep s = []" and "0 \<notin> set sep"
  shows "str_sep (pre @ s @ 0 # z) (Some p) sep = Some (Some (p + length s), pre @ s @ 0 # z, Some (p + length s))"
proof (cases s)
  case Nil
  then show ?thesis using assms(2) by (simp add: str_sep_def nth_append)
next
  case (Cons c s')
  have all: "takeWhile (\<lambda>c. c \<in> set sep) s = s" using assms(3) by (auto simp: no_token)
  have "scan (\<lambda>c. c \<in> set sep) (pre @ s @ 0 # z) p = Some (p + length s)"
    using scan_in [OF assms(1,2), of "\<lambda>c. c \<in> set sep"] unfolding all .
  moreover have "scan (\<lambda>c. c \<notin> set sep) ((pre @ s) @ [] @ 0 # z) (p + length s) = Some (p + length s)"
    using assms(2) by (subst scan_in) auto
  ultimately show ?thesis using assms(1,2) Cons by (simp add: str_sep_def nth_append)
qed

subsection \<open>All calls\<close>

text \<open>The strings that \<open>n\<close> calls of \<open>str_sep()\<close> return, each read when it is returned.\<close>

fun sep_calls :: "nat \<Rightarrow> u8 list \<Rightarrow> nat option \<Rightarrow> u8 list \<Rightarrow> u8 list list option" where
  "sep_calls 0 b str sep = Some []"
| "sep_calls (Suc n) b str sep = do {
     (r, b, str) \<leftarrow> str_sep b str sep;
     start \<leftarrow> r;
     t \<leftarrow> c_string b start;
     ts \<leftarrow> sep_calls n b str sep;
     Some (t # ts)
   }"

lemma sep_calls_end:
  "length pre = p \<Longrightarrow> 0 \<notin> set sep \<Longrightarrow> sep_calls n (pre @ 0 # z) (Some p) sep = Some (replicate n [])"
proof (induction n)
  case (Suc n)
  then show ?case
    using str_sep_end [of "[]" pre p sep z] c_string_at [of pre p "[]" z] by simp
qed simp

lemma sep_calls_tokens:
  "length pre = p \<Longrightarrow> 0 \<notin> set s \<Longrightarrow> 0 \<notin> set sep \<Longrightarrow> sep_calls n (pre @ s @ 0 # z) (Some p) sep
     = Some (take n (tokens sep s) @ replicate (n - length (tokens sep s)) [])"
proof (induction n arbitrary: pre s p)
  case (Suc n)
  show ?case
  proof (cases "tokens sep s")
    case Nil
    have "c_string ((pre @ s) @ [] @ 0 # z) (p + length s) = Some []" using Suc.prems by (intro c_string_at) auto
    then show ?thesis
      using Nil str_sep_end [OF Suc.prems(2,1) Nil Suc.prems(3)] sep_calls_end [of "pre @ s" "p + length s" sep n z] Suc.prems
      by simp
  next
    case (Cons t ts)
    obtain start pre' s' where
      step: "strtok_r (pre @ s @ 0 # z) p sep = Some (Some start, pre' @ s' @ 0 # z, length pre')"
      and t: "c_string (pre' @ s' @ 0 # z) start = Some t" and "tokens sep s' = ts" and "0 \<notin> set s'"
      using strtok_step [OF Suc.prems(2,1) Cons] by metis
    then show ?thesis
      using Cons str_sep_strtok [OF step Suc.prems(3)] Suc.IH [OF refl, of s' pre'] Suc.prems(3) by simp
  qed
qed simp

lemma first_char:
  "length pre = p \<Longrightarrow> 0 \<notin> set s \<Longrightarrow> s = u @ x # r \<Longrightarrow> \<exists>c. get_at (pre @ s @ 0 # z) p = Some c \<and> c \<noteq> 0"
  by (cases u) auto

lemma count_tokens_counts:
  "length pre = p \<Longrightarrow> 0 \<notin> set s \<Longrightarrow> count_tokens (pre @ s @ 0 # z) sep p k = Some (k + length (tokens sep s))"
proof (induction "length s" arbitrary: pre s p k rule: less_induct)
  case less
  let ?b = "pre @ s @ 0 # z"
  show ?case
  proof (cases "tokens sep s")
    case Nil
    then have all: "takeWhile (\<lambda>c. c \<in> set sep) s = s" by (auto simp: no_token)
    have scan1: "scan (\<lambda>c. c \<in> set sep) ?b p = Some (p + length s)"
      using scan_in [OF less.prems(2,1), of "\<lambda>c. c \<in> set sep"] unfolding all .
    have g: "get_at ?b (p + length s) = Some 0" using less.prems(1) by (simp add: nth_append)
    obtain c where c: "get_at ?b p = Some c" using less.prems(1) by simp
    show ?thesis by (subst count_tokens.simps) (use scan1 g c Nil in simp)
  next
    case (Cons t ts)
    then show ?thesis
    proof (cases rule: next_token)
      case (1 u)
      have scan1: "scan (\<lambda>c. c \<in> set sep) ?b p = Some (p + length u)"
        using scan_in [OF less.prems(2,1)] 1 by simp
      have scan2: "scan (\<lambda>c. c \<notin> set sep) ?b (p + length u) = Some (p + length s)"
        using scan_in [of t "pre @ u" "p + length u" "\<lambda>c. c \<notin> set sep" z] less.prems 1 takeWhile_no_sep [OF 1(3)]
        by simp
      obtain x t' where x: "t = x # t'" "x \<noteq> 0" using 1(2,4) less.prems(2) by (cases t) auto
      have g1: "get_at ?b (p + length u) = Some x" using 1(4) x less.prems(1) by (auto simp: nth_append)
      have rest: "count_tokens ?b sep (p + length s) (k + 1) = Some (k + 1)"
        using less.prems(1) by (subst count_tokens.simps) (simp add: nth_append)
      obtain c where c: "get_at ?b p = Some c" "c \<noteq> 0"
        using first_char [OF less.prems, of u x t'] 1(4) x by auto
      show ?thesis
        by (subst count_tokens.simps) (use scan1 scan2 g1 x c rest Cons 1 in simp)
    next
      case (2 u d s')
      have scan1: "scan (\<lambda>c. c \<in> set sep) ?b p = Some (p + length u)"
        using scan_in [OF less.prems(2,1)] 2 by simp
      have scan2: "scan (\<lambda>c. c \<notin> set sep) ?b (p + length u) = Some (p + length u + length t)"
        using scan_in [of "t @ d # s'" "pre @ u" "p + length u" "\<lambda>c. c \<notin> set sep" z] less.prems 2
          takeWhile_to_sep [OF 2(3,4)] by simp
      obtain x t' where x: "t = x # t'" "x \<noteq> 0" using 2(2,5) less.prems(2) by (cases t) auto
      have g1: "get_at ?b (p + length u) = Some x" using 2(5) x less.prems(1) by (auto simp: nth_append)
      have rest: "count_tokens ((pre @ u @ t) @ (d # s') @ 0 # z) sep (p + length u + length t) (k + 1)
          = Some (k + 1 + length (tokens sep (d # s')))"
        using less.prems 2 x by (intro less.hyps) auto
      obtain c where c: "get_at ?b p = Some c" "c \<noteq> 0"
        using first_char [OF less.prems, of u x "t' @ d # s'"] 2(5) x by auto
      show ?thesis
        by (subst count_tokens.simps) (use scan1 scan2 g1 x c rest Cons 2 in \<open>simp add: tokens_sep\<close>)
    qed
  qed
qed

text \<open>C27. Calling \<open>str_sep()\<close> again and again returns the tokens of the string in their order,
  then the empty string, for ever: it never returns NULL, so that a loop that stops at NULL does
  not end.  \<open>str_sep_count()\<close> is the number of tokens.  No call leaves the buffer.\<close>

theorem str_sep_yields_tokens:
  assumes "0 \<notin> set s" and "0 \<notin> set sep"
  shows "sep_calls n (s @ 0 # z) (Some 0) sep
      = Some (take n (tokens sep s) @ replicate (n - length (tokens sep s)) []) \<and>
    str_sep_count (Some (s @ 0 # z)) (Some sep) = Some (length (tokens sep s))"
proof
  show "sep_calls n (s @ 0 # z) (Some 0) sep
      = Some (take n (tokens sep s) @ replicate (n - length (tokens sep s)) [])"
    using sep_calls_tokens [of "[]" 0 s sep n z] assms by simp
  show "str_sep_count (Some (s @ 0 # z)) (Some sep) = Some (length (tokens sep s))"
    using count_tokens_counts [of "[]" 0 s z sep 0] assms
    by (cases s) (auto simp: str_sep_count_def)
qed

theorem str_sep_yields_tokens_witness:
  "sep_calls 3 [0x2c, 0x61, 0x62, 0x2c, 0x2c, 0x63, 0] (Some 0) [0x2c] = Some [[0x61, 0x62], [0x63], []] \<and>
     str_sep_count (Some [0x2c, 0x61, 0x62, 0x2c, 0x2c, 0x63, 0]) (Some [0x2c]) = Some 2"
  using str_sep_yields_tokens [of "[0x2c, 0x61, 0x62, 0x2c, 0x2c, 0x63]" "[0x2c]" 3 "[]"]
  by (simp add: tokens.simps)

subsection \<open>split\_string\<close>

text \<open>
  The array holds the tokens found so far, \<open>length acc\<close> of them, and has \<open>size1\<close> slots.  By how much it
  grows next is a power of 4, three times its size and 16 more: up to 357913936 slots the next value fits
  into an \<open>int\<close>, and the step after that does not.
\<close>

definition token_room :: "u8 list option list \<Rightarrow> u8 list list \<Rightarrow> nat \<Rightarrow> int \<Rightarrow> bool" where
  "token_room toks acc size1 chunk \<longleftrightarrow> length toks = size1 \<and> length acc \<le> size1 \<and>
     take (length acc) toks = map (\<lambda>t. Some (t @ [0])) acc \<and>
     (\<exists>k. chunk = 4 ^ k) \<and> chunk = 3 * int size1 + 16"

definition token_limit :: nat where
  "token_limit = 357913936"

lemma power4_fits: "(4 :: int) ^ k < 2 ^ 30 \<Longrightarrow> int_ok (4 ^ k * 4)"
proof -
  assume "(4 :: int) ^ k < 2 ^ 30"
  then have "(4 :: int) ^ k < 4 ^ 15" by simp
  then have "k < 15" by (simp only: power_strict_increasing_iff)
  then have "Suc k \<le> 15" by simp
  then have "(4 :: int) ^ Suc k \<le> 4 ^ 15" by (rule power_increasing) simp
  moreover have "(0 :: int) \<le> 4 ^ k" by simp
  ultimately have "(0 :: int) \<le> 4 ^ k \<and> (4 :: int) ^ k \<le> 268435456" by simp
  then show ?thesis unfolding int_ok_def INT_MAX_def by linarith
qed

text \<open>\<open>refused\<close>: the allocator turned down one of the requests for an array or for a copy of a token.\<close>

definition refused :: "(nat \<Rightarrow> u8 list option) \<Rightarrow> (nat \<Rightarrow> bool) \<Rightarrow> u8 list list \<Rightarrow> bool" where
  "refused malloc more ts \<longleftrightarrow> (\<exists>t\<in>set ts. malloc (length t + 1) = None) \<or>
     (\<exists>n \<le> 4 * length ts + 16. \<not> more (8 * n))"

lemma refused_more: "refused malloc more ts \<Longrightarrow> refused malloc more (ts @ us)"
  by (auto simp: refused_def)

lemma toks_grow_room:
  assumes "token_room toks acc size1 chunk" and "length acc < token_limit"
  shows "(\<exists>n \<le> 4 * length acc + 16. \<not> more (8 * n)) \<and> toks_grow more toks (length acc) size1 chunk = Some (Inl (- 1)) \<or>
    (\<exists>toks' size' chunk'. toks_grow more toks (length acc) size1 chunk = Some (Inr (toks', size', chunk')) \<and>
       token_room toks' acc size' chunk' \<and> length acc < size')"
proof (cases "size1 \<le> length acc")
  case False
  then have "toks_grow more toks (length acc) size1 chunk = Some (Inr (toks, size1, chunk))" by (simp add: toks_grow_def)
  then show ?thesis using False assms(1) by auto
next
  case True
  from assms(1) obtain k where k: "chunk = 4 ^ k" "chunk = 3 * int size1 + 16" and len: "length toks = size1" "length acc \<le> size1"
    and tk: "take (length acc) toks = map (\<lambda>t. Some (t @ [0])) acc"
    unfolding token_room_def by blast
  have len: "length toks = length acc" "size1 = length acc" using len True by simp_all
  let ?n = "size1 + nat chunk"
  have n: "?n = 4 * length acc + 16" "0 < nat chunk" using k(2) len(2) by linarith+
  have "chunk < 2 ^ 30" using k(2) len assms(2) by (simp add: token_limit_def)
  then have ok: "int_ok (chunk * 4)" using power4_fits [of k] k(1) by simp
  have "\<exists>j. chunk * 4 = 4 ^ j" using k(1) by (intro exI [of _ "Suc k"]) simp
  moreover have "chunk * 4 = 3 * int ?n + 16" using k(2) by simp
  ultimately have room: "token_room (toks @ replicate (nat chunk) None) acc ?n (chunk * 4)"
    unfolding token_room_def using len tk by (intro conjI) (simp_all del: int_nat_eq nat_eq_iff of_nat_add)
  have g: "toks_grow more toks (length acc) size1 chunk =
      (if more (8 * ?n) then Some (Inr (toks @ replicate (nat chunk) None, ?n, chunk * 4)) else Some (Inl (- 1)))"
    using len ok by (simp add: toks_grow_def toks_realloc_def die_oom_def)
  show ?thesis
  proof (cases "more (8 * ?n)")
    case True
    then show ?thesis using g room n len(2) by (intro disjI2) auto
  next
    case False
    then show ?thesis using g n(1) by (intro disjI1) auto
  qed
qed

lemma set_end:
  assumes "take n xs = ys" and "n \<le> length xs"
  shows "set_at (take (n + 1) xs @ replicate (n + 1 - length xs) None) n None = Some (ys @ [None])"
proof (cases "n = length xs")
  case False
  with assms(2) have "Suc n \<le> length xs" by simp
  moreover from this have "take (n + 1) xs = ys @ [xs ! n]" "length ys = n" using assms by (auto simp: take_Suc_conv_app_nth)
  ultimately show ?thesis using assms by (simp add: list_update_append)
qed (use assms in \<open>simp add: list_update_append\<close>)

lemma token_room_store:
  assumes "token_room toks acc size1 chunk" and "length acc < size1"
  shows "\<exists>toks'. set_at toks (length acc) (Some (t @ [0])) = Some toks' \<and> token_room toks' (acc @ [t]) size1 chunk"
  using assms by (auto simp: token_room_def take_Suc_conv_app_nth)

text \<open>One round of the loop.\<close>

lemma split_loop_one:
  assumes m: "malloc_ok malloc" and t: "c_string buf p = Some t"
    and room: "token_room toks acc size1 chunk" and lim: "length acc < token_limit"
  shows "refused malloc more (acc @ [t]) \<and> split_loop malloc more buf sep (Some p) rest toks (length acc) size1 chunk = Some (Inl (- 1)) \<or>
    (\<exists>toks' size' chunk'. token_room toks' (acc @ [t]) size' chunk' \<and>
       split_loop malloc more buf sep (Some p) rest toks (length acc) size1 chunk =
         do { (tok, buf, rest) \<leftarrow> strtok_r buf rest sep;
              split_loop malloc more buf sep tok rest toks' (length (acc @ [t])) size' chunk' })"
proof -
  have dup: "safe_strdup malloc (drop p buf) = Some (if malloc (length t + 1) = None then Inl (- 1) else Inr (t @ [0]))"
    using t by (auto simp: safe_strdup_def c_string_def die_oom_def split: if_splits option.splits)
  note unfold = split_loop.simps [of malloc more buf sep "Some p" rest toks "length acc" size1 chunk]
  from toks_grow_room [OF room lim, of more] show ?thesis
  proof (elim disjE exE conjE)
    fix n assume n: "n \<le> 4 * length acc + 16" "\<not> more (8 * n)"
      and g: "toks_grow more toks (length acc) size1 chunk = Some (Inl (- 1))"
    have "refused malloc more (acc @ [t])" using n by (auto simp: refused_def intro!: exI [of _ n])
    then show ?thesis using g unfold by simp
  next
    fix toks' size' chunk' assume g: "toks_grow more toks (length acc) size1 chunk = Some (Inr (toks', size', chunk'))"
      and r: "token_room toks' acc size' chunk'" "length acc < size'"
    obtain toks2 where st: "set_at toks' (length acc) (Some (t @ [0])) = Some toks2" "token_room toks2 (acc @ [t]) size' chunk'"
      using token_room_store [OF r] by blast
    show ?thesis
    proof (cases "malloc (length t + 1)")
      case None
      then show ?thesis using g unfold dup by (auto simp: refused_def)
    next
      case (Some b)
      then show ?thesis using g unfold dup st by (intro disjI2 exI [of _ toks2] exI [of _ size'] exI [of _ chunk']) simp
    qed
  qed
qed

lemma split_loop_collects:
  assumes "malloc_ok malloc" and "0 \<notin> set s" and "length pre = rest" and "c_string (pre @ s @ 0 # z) p = Some t"
    and "token_room toks acc size1 chunk" and "length acc + length (tokens sep s) < token_limit"
  shows "refused malloc more (acc @ t # tokens sep s) \<and>
      split_loop malloc more (pre @ s @ 0 # z) sep (Some p) rest toks (length acc) size1 chunk = Some (Inl (- 1)) \<or>
    (\<exists>toks' size' chunk'. token_room toks' (acc @ t # tokens sep s) size' chunk' \<and>
      split_loop malloc more (pre @ s @ 0 # z) sep (Some p) rest toks (length acc) size1 chunk
      = Some (Inr (toks', length (acc @ t # tokens sep s))))"
  using assms(2-)
proof (induction "tokens sep s" arbitrary: pre s rest p t toks size1 acc chunk)
  case Nil
  have lim: "length acc < token_limit" using Nil.prems(5) by simp
  have no: "tokens sep s = []" using Nil.hyps by simp
  note done_tok = strtok_none [OF Nil.prems(1,2) no, of z]
  have stop: "split_loop malloc more b sep None r toks' n size' chunk' = Some (Inr (toks', n))" for b r toks' n size' chunk'
    by (subst split_loop.simps) simp
  from split_loop_one [OF assms(1) Nil.prems(3,4) lim, of more sep rest] show ?case
    unfolding done_tok no by (auto simp: stop)
next
  case (Cons t1 ts)
  have lim: "length acc < token_limit" using Cons.prems(5) by simp
  have tk: "tokens sep s = t1 # ts" using Cons.hyps by simp
  obtain start pre' s' where
    step: "strtok_r (pre @ s @ 0 # z) rest sep = Some (Some start, pre' @ s' @ 0 # z, length pre')"
    and t1: "c_string (pre' @ s' @ 0 # z) start = Some t1" and ts: "tokens sep s' = ts" and s': "0 \<notin> set s'"
    using strtok_step [OF Cons.prems(1,2) tk] by metis
  from split_loop_one [OF assms(1) Cons.prems(3,4) lim, of more sep rest] show ?case
  proof (elim disjE exE conjE)
    assume "refused malloc more (acc @ [t])"
      "split_loop malloc more (pre @ s @ 0 # z) sep (Some p) rest toks (length acc) size1 chunk = Some (Inl (- 1))"
    then show ?thesis using refused_more [of malloc more "acc @ [t]"] by simp
  next
    fix toks' size' chunk' assume r: "token_room toks' (acc @ [t]) size' chunk'" and
      l: "split_loop malloc more (pre @ s @ 0 # z) sep (Some p) rest toks (length acc) size1 chunk =
         do { (tok, buf, rest) \<leftarrow> strtok_r (pre @ s @ 0 # z) rest sep;
              split_loop malloc more buf sep tok rest toks' (length (acc @ [t])) size' chunk' }"
    have "length (acc @ [t]) + length (tokens sep s') < token_limit" using Cons.prems(5) tk ts by simp
    from Cons.hyps(1) [OF ts [symmetric] s' refl t1 r this] show ?thesis unfolding l step tk ts by simp
  qed
qed

text \<open>
  C28. \<open>split_string()\<close> on a string of at most 357913936 tokens (more than that overflow the \<open>int\<close> its array
  grows by) returns copies of the tokens of its argument in their order followed by a NULL pointer, growing
  its array as needed without ever writing outside it; a string without tokens gives -1.  The process ends
  only when the allocator has refused one of the requests for the array or for a copy.
\<close>

theorem split_string_correct:
  assumes "malloc_ok malloc" and "0 \<notin> set s" and "length (tokens sep s) \<le> token_limit"
  shows "split_string malloc more (s @ 0 # z) sep
      = Some (Inr (if tokens sep s = [] then (- 1, []) else (0, map (\<lambda>t. Some (t @ [0])) (tokens sep s) @ [None]))) \<or>
    split_string malloc more (s @ 0 # z) sep = Some (Inl (- 1)) \<and> refused malloc more (tokens sep s)"
proof (cases "tokens sep s")
  case Nil
  then show ?thesis using strtok_none [of s "[]" 0 sep z] assms(2)
    by (simp add: split_string_def) (subst split_loop.simps, simp)
next
  case (Cons t ts)
  obtain start pre' s' where
    step: "strtok_r (s @ 0 # z) 0 sep = Some (Some start, pre' @ s' @ 0 # z, length pre')"
    and t: "c_string (pre' @ s' @ 0 # z) start = Some t" and ts: "tokens sep s' = ts" and s': "0 \<notin> set s'"
    using strtok_step [OF assms(2), of "[]" 0 sep t ts z] Cons by (metis append_Nil list.size(3))
  have room: "token_room [] [] 0 16" by (auto simp: token_room_def intro: exI [of _ 2])
  have lim: "length [] + length (tokens sep s') < token_limit" using assms(3) Cons ts by simp
  from split_loop_collects [OF assms(1) s' refl t room lim, of more] show ?thesis
  proof (elim disjE exE conjE)
    assume "refused malloc more ([] @ t # tokens sep s')"
      "split_loop malloc more (pre' @ s' @ 0 # z) sep (Some start) (length pre') [] (length []) 0 16 = Some (Inl (- 1))"
    then show ?thesis using step Cons ts by (simp add: split_string_def)
  next
    fix toks size' chunk' assume r: "token_room toks ([] @ t # tokens sep s') size' chunk'" and
      l: "split_loop malloc more (pre' @ s' @ 0 # z) sep (Some start) (length pre') [] (length []) 0 16
        = Some (Inr (toks, length ([] @ t # tokens sep s')))"
    let ?n = "length (t # ts)"
    have tk: "take ?n toks = map (\<lambda>t. Some (t @ [0])) (t # ts)" "?n \<le> length toks"
      using r ts unfolding token_room_def by simp_all
    have ne: "toks \<noteq> []" using tk(2) by auto
    have re: "toks_realloc more toks (?n + 1) = (if more (8 * (?n + 1)) then Inr (take (?n + 1) toks @ replicate (?n + 1 - length toks) None)
        else Inl (- 1))" by (simp add: toks_realloc_def die_oom_def)
    have fin: "set_at (take (?n + 1) toks @ replicate (?n + 1 - length toks) None) ?n None = Some (map (\<lambda>t. Some (t @ [0])) (t # ts) @ [None])"
      using tk by (intro set_end) 
    show ?thesis
    proof (cases "more (8 * (?n + 1))")
      case True
      then show ?thesis using step l ts ne re fin Cons by (simp add: split_string_def)
    next
      case False
      then have "refused malloc more (t # ts)" by (auto simp: refused_def intro!: exI [of _ "?n + 1"])
      then show ?thesis using False step l ts ne re Cons by (simp add: split_string_def)
    qed
  qed
qed

theorem split_string_correct_witness:
  "split_string (\<lambda>n. Some (replicate n 0)) (\<lambda>n. n < 200) [0x2c, 0x61, 0x62, 0x2c, 0x2c, 0x63, 0] [0x2c]
    = Some (Inr (0, [Some [0x61, 0x62, 0], Some [0x63, 0], None]))"
proof -
  let ?s = "[0x2c, 0x61, 0x62, 0x2c, 0x2c, 0x63 :: u8]"
  have ts: "tokens [0x2c] ?s = [[0x61, 0x62], [0x63]]" by (simp add: tokens.simps)
  have no: "\<not> refused (\<lambda>n. Some (replicate n 0)) (\<lambda>n. n < 200) (tokens [0x2c] ?s)"
    unfolding ts by (simp add: refused_def)
  have "malloc_ok (\<lambda>n. Some (replicate n 0))" by (simp add: malloc_ok_def)
  from split_string_correct [OF this, of ?s "[0x2c]" "\<lambda>n. n < 200" "[]"] no show ?thesis
    unfolding ts by (simp add: token_limit_def)
qed

end
