(* ===== verification/CBytes.thy ===== *)
theory CBytes
  imports CPrelude
begin

text \<open>
  Integer fields inside byte arrays, in little-endian order (the order of every host the library is
  built for).
\<close>

definition u32_bytes :: "u32 \<Rightarrow> u8 list" where
  "u32_bytes v = map (\<lambda>k. ucast (drop_bit (8 * k) v)) [0, 1, 2, 3]"

definition bytes_u32 :: "u8 list \<Rightarrow> u32" where
  "bytes_u32 bs = foldr (\<lambda>b v. ucast b OR push_bit 8 v) bs 0"

definition get_u32 :: "u8 list \<Rightarrow> nat \<Rightarrow> u32 option" where
  "get_u32 b off = map_option bytes_u32 (buf_read b off 4)"

definition put_u32 :: "u8 list \<Rightarrow> nat \<Rightarrow> u32 \<Rightarrow> u8 list option" where
  "put_u32 b off v = buf_write b off (u32_bytes v)"

definition u16_bytes :: "u16 \<Rightarrow> u8 list" where
  "u16_bytes v = map (\<lambda>k. ucast (drop_bit (8 * k) v)) [0, 1]"

lemma length_u32_bytes [simp]: "length (u32_bytes v) = 4"
  by (simp add: u32_bytes_def)

lemma u32_bytes_not_Nil [simp]: "u32_bytes v \<noteq> []"
  by (simp add: u32_bytes_def)

lemma bytes_u32_bytes [simp]: "bytes_u32 (u32_bytes v) = v"
proof (rule bit_word_eqI)
  fix n assume "n < LENGTH(32)"
  then have n: "n < 32" by simp
  show "bit (bytes_u32 (u32_bytes v)) n = bit v n"
    using n by (cases "n < 16"; cases "n < 24") (auto simp: bytes_u32_def u32_bytes_def bit_simps)
qed

lemma put_u32_in [simp]:
  "off + 4 \<le> length b \<Longrightarrow> put_u32 b off v = Some (take off b @ u32_bytes v @ drop (off + 4) b)"
  by (simp add: put_u32_def)

lemma get_u32_in [simp]: "off + 4 \<le> length b \<Longrightarrow> get_u32 b off = Some (bytes_u32 (take 4 (drop off b)))"
  by (simp add: get_u32_def)

lemma length_put_u32: "put_u32 b off v = Some b' \<Longrightarrow> length b' = length b \<and> off + 4 \<le> length b"
  by (auto simp: put_u32_def buf_write_def split: if_splits)

lemma get_put_u32: "put_u32 b off v = Some b' \<Longrightarrow> get_u32 b' off = Some v"
  using slice_write_same [of off "u32_bytes v" b]
  by (auto simp: put_u32_def get_u32_def buf_write_def buf_read_def split: if_splits)

lemma get_u32_zero: "off + 4 \<le> n \<Longrightarrow> get_u32 (replicate n 0) off = Some 0"
proof -
  have "(push_bit 8 ^^ k) (0 :: u32) = 0" for k by (induction k) auto
  then show "off + 4 \<le> n \<Longrightarrow> ?thesis" by (simp add: min_def bytes_u32_def)
qed

text \<open>The other bytes, and with them the other fields, stay.\<close>

lemma put_u32_frame:
  assumes "put_u32 b off v = Some b'" and "i + n \<le> off \<or> off + 4 \<le> i"
  shows "take n (drop i b') = take n (drop i b)"
  using assms slice_write_before [of i n off "u32_bytes v" b] slice_write_after [of off "u32_bytes v" i b n]
  by (auto simp: put_u32_def buf_write_def split: if_splits)

lemma get_put_u32_other:
  assumes "put_u32 b off v = Some b'" and "i + 4 \<le> off \<or> off + 4 \<le> i"
  shows "get_u32 b' i = get_u32 b i"
  using put_u32_frame [OF assms] length_put_u32 [OF assms(1)] by (simp add: get_u32_def buf_read_def)

lemma length_u16_bytes [simp]: "length (u16_bytes v) = 2"
  by (simp add: u16_bytes_def)

end
