(* ===== verification/Slab.thy ===== *)
theory Slab
  imports NumUtils CBytes
begin

text \<open>
  The slab allocator (\<open>src/slab.c\<close>), on the bytes of the client's blob.  A unit is a header of
  two 32-bit fields, \<open>leased\<close> at offset 0 and \<open>canary\<close> at offset 4, followed by the block the
  client gets; a block is the offset of its first byte in the blob.  Addresses have 64 bits.
\<close>

record slab =
  sl_blob :: "u8 list"
  sl_size :: nat
  sl_count :: nat

definition sizeof_unit :: nat where
  "sizeof_unit = 8"

text \<open>The result is \<open>(int)slab->count\<close>, the low 32 bits; a division by a size of 0 is undefined.\<close>

definition slab_init :: "u64 \<Rightarrow> u8 list \<Rightarrow> (int \<times> slab option) option" where
  "slab_init slab_size blob =
     (let size1 = unat (ROUND_UP slab_size 8 + word_of_nat sizeof_unit);
          blob_size = length blob
      in if size1 > blob_size then Some (- 1, None)
         else if size1 = 0 then None
         else
           let count = blob_size div size1
           in Some (sint (word_of_nat count :: 32 word),
                Some \<lparr> sl_blob = replicate blob_size 0, sl_size = size1, sl_count = count \<rparr>))"

fun slab_alloc_loop :: "slab \<Rightarrow> nat \<Rightarrow> nat \<Rightarrow> (int \<times> nat option \<times> slab) option" where
  "slab_alloc_loop slab i 0 = Some (- 1, None, slab)"
| "slab_alloc_loop slab i (Suc n) = do {
     let p = i * sl_size slab;
     leased \<leftarrow> get_u32 (sl_blob slab) p;
     if leased = 0 then do {
       b \<leftarrow> put_u32 (sl_blob slab) p 1;
       b \<leftarrow> put_u32 b (p + 4) 0xdeadbeaf;
       Some (0, Some (p + sizeof_unit), slab\<lparr>sl_blob := b\<rparr>)
     } else slab_alloc_loop slab (i + 1) n
   }"

definition slab_alloc :: "slab \<Rightarrow> (int \<times> nat option \<times> slab) option" where
  "slab_alloc slab = slab_alloc_loop slab 0 (sl_count slab)"

text \<open>A block in front of which there is no header in the blob is a foreign pointer: undefined.\<close>

definition slab_free :: "slab \<Rightarrow> nat \<Rightarrow> (int \<times> slab) option" where
  "slab_free slab block =
     (if block < sizeof_unit then None
      else do {
        let p = block - sizeof_unit;
        canary \<leftarrow> get_u32 (sl_blob slab) (p + 4);
        if canary \<noteq> 0xdeadbeaf then Some (- 1, slab)
        else do {
          b \<leftarrow> put_u32 (sl_blob slab) p 0;
          Some (0, slab\<lparr>sl_blob := b\<rparr>)
        }
      })"

subsection \<open>Units\<close>

definition block_of :: "slab \<Rightarrow> nat \<Rightarrow> nat" where
  "block_of s i = i * sl_size s + sizeof_unit"

definition leased_units :: "slab \<Rightarrow> nat set" where
  "leased_units s = {i. i < sl_count s \<and> get_u32 (sl_blob s) (i * sl_size s) \<noteq> Some 0}"

text \<open>
  The invariant, for a client that asked for blocks of \<open>req\<close> bytes and holds the blocks \<open>L\<close>: the
  units fit into the blob, they have room for a header and a block, the blocks held are those of
  the units marked as leased, and these have their canary.
\<close>

definition slab_inv :: "nat \<Rightarrow> slab \<Rightarrow> nat set \<Rightarrow> bool" where
  "slab_inv req s L \<longleftrightarrow>
     sizeof_unit + req \<le> sl_size s \<and> 8 dvd sl_size s \<and> sl_count s * sl_size s \<le> length (sl_blob s) \<and>
     L = block_of s ` leased_units s \<and>
     (\<forall>i\<in>leased_units s. get_u32 (sl_blob s) (i * sl_size s + 4) = Some 0xdeadbeaf)"

lemma unit_in_blob: "slab_inv req s L \<Longrightarrow> i < sl_count s \<Longrightarrow> i * sl_size s + sl_size s \<le> length (sl_blob s)"
  using mult_le_mono1 [of "Suc i" "sl_count s" "sl_size s"] by (simp add: slab_inv_def)

lemma units_apart: "i \<noteq> j \<Longrightarrow> i * k + k \<le> j * k \<or> j * k + k \<le> i * (k :: nat)"
  using mult_le_mono1 [of "Suc i" j k] mult_le_mono1 [of "Suc j" i k] by (cases "i < j") auto

lemma block_of_inj: "0 < sl_size s \<Longrightarrow> inj_on (block_of s) A"
  by (auto simp: inj_on_def block_of_def)

lemma slab_inv_size: "slab_inv req s L \<Longrightarrow> 8 + req \<le> sl_size s \<and> 0 < sl_size s"
  by (simp add: slab_inv_def sizeof_unit_def)

lemma unit_cases:
  assumes "slab_inv req s L" and "i < sl_count s"
  obtains v where "get_u32 (sl_blob s) (i * sl_size s) = Some v"
  using unit_in_blob [OF assms] slab_inv_size [OF assms(1)] that by (auto simp: get_u32_def buf_read_def)

lemma slab_init_inv:
  assumes "slab_init req blob = Some (r, Some s)" and "unat req + 15 < 2 ^ 64"
  shows "slab_inv (unat req) s {}" and "length (sl_blob s) = length blob"
    and "sl_count s = length blob div sl_size s"
proof -
  have up: "unat (ROUND_UP req 8) = (unat req + 7) div 8 * 8"
    using ROUND_UP_pow2 [of req 3] assms(2) by simp
  then have "unat (ROUND_UP req 8) + 8 < 2 ^ 64" using assms(2) by linarith
  then have sz: "unat (ROUND_UP req 8 + 8) = (unat req + 7) div 8 * 8 + 8"
    using up unat_word_ariths(1) [of "ROUND_UP req 8" 8] by (simp add: take_bit_nat_eq_self)
  have s: "s = \<lparr> sl_blob = replicate (length blob) 0, sl_size = (unat req + 7) div 8 * 8 + 8,
      sl_count = length blob div ((unat req + 7) div 8 * 8 + 8) \<rparr>"
    using assms(1) sz by (auto simp: slab_init_def Let_def sizeof_unit_def split: if_splits)
  have "get_u32 (sl_blob s) (i * sl_size s) = Some 0" if "i < sl_count s" for i
  proof -
    have "i * sl_size s + sl_size s \<le> sl_count s * sl_size s"
      using that mult_le_mono1 [of "Suc i" "sl_count s" "sl_size s"] by simp
    also have "\<dots> \<le> length blob" unfolding s by simp
    finally have "i * sl_size s + 4 \<le> length (sl_blob s)" "4 \<le> sl_size s" by (simp_all add: s)
    then show ?thesis using get_u32_zero [of "i * sl_size s" "length blob"] unfolding s by simp
  qed
  then have none: "leased_units s = {}" by (auto simp: leased_units_def)
  have "unat req + 8 \<le> sl_size s" unfolding s by simp
  moreover have "8 dvd sl_size s" unfolding s by simp
  moreover have "sl_count s * sl_size s \<le> length (sl_blob s)" unfolding s by simp
  ultimately show "slab_inv (unat req) s {}" by (simp add: slab_inv_def none sizeof_unit_def)
  show "length (sl_blob s) = length blob" "sl_count s = length blob div sl_size s" by (simp_all add: s)
qed

subsection \<open>Allocation\<close>

lemma slab_alloc_loop_cases:
  assumes "slab_inv req s L" and "i + n = sl_count s"
  shows "slab_alloc_loop s i n = Some (- 1, None, s) \<and> {i..<i + n} \<subseteq> leased_units s
    \<or> (\<exists>j b b'. j < sl_count s \<and> j \<notin> leased_units s \<and> put_u32 (sl_blob s) (j * sl_size s) 1 = Some b \<and>
        put_u32 b (j * sl_size s + 4) 0xdeadbeaf = Some b' \<and>
        slab_alloc_loop s i n = Some (0, Some (block_of s j), s\<lparr>sl_blob := b'\<rparr>))"
  using assms(2)
proof (induction n arbitrary: i)
  case (Suc n)
  then have i: "i < sl_count s" by simp
  obtain v where v: "get_u32 (sl_blob s) (i * sl_size s) = Some v" using unit_cases [OF assms(1) i] .
  have room: "i * sl_size s + 8 \<le> length (sl_blob s)"
    using unit_in_blob [OF assms(1) i] slab_inv_size [OF assms(1)] by linarith
  show ?case
  proof (cases "v = 0")
    case True
    obtain b where b: "put_u32 (sl_blob s) (i * sl_size s) 1 = Some b"
      using room put_u32_in by fastforce
    moreover from length_put_u32 [OF b] room obtain b' where b': "put_u32 b (i * sl_size s + 4) 0xdeadbeaf = Some b'"
      using put_u32_in [of "i * sl_size s + 4" b] by fastforce
    ultimately show ?thesis
      using i v True by (intro disjI2 exI [of _ i] exI [of _ b] exI [of _ b'])
        (simp add: leased_units_def block_of_def del: put_u32_in get_u32_in)
  next
    case False
    have "i \<in> leased_units s" using False v i by (simp add: leased_units_def del: get_u32_in)
    moreover have "slab_alloc_loop s i (Suc n) = slab_alloc_loop s (Suc i) n"
      using False v by (simp del: get_u32_in)
    moreover have "{i..<i + Suc n} = insert i {Suc i..<Suc i + n}" by auto
    ultimately show ?thesis using Suc.IH [of "Suc i"] Suc.prems by (simp del: slab_alloc_loop.simps)
  qed
qed simp

subsection \<open>What the operations do to the units\<close>

definition block_data :: "nat \<Rightarrow> slab \<Rightarrow> nat \<Rightarrow> u8 list" where
  "block_data req s blk = take req (drop blk (sl_blob s))"

text \<open>
  An operation that writes inside unit \<open>j\<close> only, leaves the header field \<open>leased\<close> with value \<open>v\<close>
  and, if that is not zero, the canary.
\<close>

lemma unit_written:
  assumes inv: "slab_inv req s L" and j: "j < sl_count s"
    and s': "s' = s\<lparr>sl_blob := b\<rparr>" "length b = length (sl_blob s)"
    and frame: "\<And>i n. i + n \<le> j * sl_size s \<or> j * sl_size s + sl_size s \<le> i \<Longrightarrow> take n (drop i b) = take n (drop i (sl_blob s))"
    and v: "get_u32 b (j * sl_size s) = Some v" and canary: "v \<noteq> 0 \<Longrightarrow> get_u32 b (j * sl_size s + 4) = Some 0xdeadbeaf"
  shows "slab_inv req s' (if v = 0 then L - {block_of s j} else insert (block_of s j) L)"
    and "i < sl_count s \<Longrightarrow> i \<noteq> j \<Longrightarrow> block_data req s' (block_of s i) = block_data req s (block_of s i)"
proof -
  have size: "8 + req \<le> sl_size s" "0 < sl_size s" using slab_inv_size [OF inv] by auto
  have apart: "i * sl_size s + k + n \<le> j * sl_size s \<or> j * sl_size s + sl_size s \<le> i * sl_size s + k"
    if "i \<noteq> j" "k + n \<le> sl_size s" for i k n
    using units_apart [OF that(1), of "sl_size s"] that(2) by auto
  have other: "get_u32 b (i * sl_size s + k) = get_u32 (sl_blob s) (i * sl_size s + k)" if "i \<noteq> j" "k + 4 \<le> sl_size s" for i k
    using frame [OF apart [OF that]] s'(2) by (simp add: get_u32_def buf_read_def)
  have field: "get_u32 b (i * sl_size s) = (if i = j then Some v else get_u32 (sl_blob s) (i * sl_size s))" for i
    using other [of i 0] v size(1) by (cases "i = j") simp_all
  have units: "leased_units s' = (if v = 0 then leased_units s - {j} else insert j (leased_units s))"
    using field j s'(1) by (auto simp: leased_units_def split: if_splits)
  have blocks: "block_of s' = block_of s" using s'(1) by (simp add: block_of_def fun_eq_iff)
  have "block_of s ` (leased_units s - {j}) = block_of s ` leased_units s - {block_of s j}"
    using inj_on_image_set_diff [OF block_of_inj [OF size(2), of UNIV], of "leased_units s" "{j}"] by simp
  moreover have "get_u32 b (i * sl_size s + 4) = Some 0xdeadbeaf" if "i \<in> leased_units s'" for i
    using that inv units other [of i 4] canary size(1) by (cases "i = j") (auto simp: slab_inv_def split: if_splits)
  ultimately show "slab_inv req s' (if v = 0 then L - {block_of s j} else insert (block_of s j) L)"
    using inv units blocks s' by (auto simp: slab_inv_def)
  show "block_data req s' (block_of s i) = block_data req s (block_of s i)" if "i < sl_count s" "i \<noteq> j"
    using frame [OF apart [OF that(2), of 8 req]] size(1) s'(1)
    by (simp add: block_data_def block_of_def sizeof_unit_def)
qed

lemma put_u32_len: "put_u32 b off v = Some b' \<Longrightarrow> length b' = length b"
  using length_put_u32 by blast

lemma lease_unit:
  assumes inv: "slab_inv req s L" and j: "j < sl_count s"
    and b: "put_u32 (sl_blob s) (j * sl_size s) 1 = Some b" and b': "put_u32 b (j * sl_size s + 4) 0xdeadbeaf = Some b'"
  shows "slab_inv req (s\<lparr>sl_blob := b'\<rparr>) (insert (block_of s j) L)"
    and "i < sl_count s \<Longrightarrow> i \<noteq> j \<Longrightarrow> block_data req (s\<lparr>sl_blob := b'\<rparr>) (block_of s i) = block_data req s (block_of s i)"
proof -
  have size: "8 \<le> sl_size s" using slab_inv_size [OF inv] by simp
  have len: "length b' = length (sl_blob s)" using put_u32_len [OF b] put_u32_len [OF b'] by simp
  have frame: "take n (drop i b') = take n (drop i (sl_blob s))"
    if "i + n \<le> j * sl_size s \<or> j * sl_size s + sl_size s \<le> i" for i n
    using put_u32_frame [OF b, of i n] put_u32_frame [OF b', of i n] that size by auto
  have "get_u32 b' (j * sl_size s) = Some 1"
    using get_put_u32 [OF b] get_put_u32_other [OF b', of "j * sl_size s"] by simp
  note w = unit_written [OF inv j refl len frame this get_put_u32 [OF b']]
  show "slab_inv req (s\<lparr>sl_blob := b'\<rparr>) (insert (block_of s j) L)" using w(1) by simp
  show "i < sl_count s \<Longrightarrow> i \<noteq> j \<Longrightarrow> block_data req (s\<lparr>sl_blob := b'\<rparr>) (block_of s i) = block_data req s (block_of s i)"
    using w(2) by simp
qed

lemma slab_alloc_cases:
  assumes inv: "slab_inv req s L"
  shows "slab_alloc s = Some (- 1, None, s) \<and> L = block_of s ` {..<sl_count s}
    \<or> (\<exists>j s'. j < sl_count s \<and> block_of s j \<notin> L \<and> slab_alloc s = Some (0, Some (block_of s j), s') \<and>
        slab_inv req s' (insert (block_of s j) L) \<and> sl_size s' = sl_size s \<and> sl_count s' = sl_count s \<and>
        length (sl_blob s') = length (sl_blob s) \<and> (\<forall>blk\<in>L. block_data req s' blk = block_data req s blk))"
proof -
  have L: "L = block_of s ` leased_units s" and sub: "leased_units s \<subseteq> {..<sl_count s}"
    using inv by (auto simp: slab_inv_def leased_units_def)
  from slab_alloc_loop_cases [OF inv, of 0 "sl_count s"] consider
      "slab_alloc s = Some (- 1, None, s)" "{0..<sl_count s} \<subseteq> leased_units s"
    | j b b' where "j < sl_count s" "j \<notin> leased_units s" "put_u32 (sl_blob s) (j * sl_size s) 1 = Some b"
      "put_u32 b (j * sl_size s + 4) 0xdeadbeaf = Some b'" "slab_alloc s = Some (0, Some (block_of s j), s\<lparr>sl_blob := b'\<rparr>)"
    by (auto simp: slab_alloc_def simp del: slab_alloc_loop.simps)
  then show ?thesis
  proof cases
    case 1
    then show ?thesis using L sub by (auto simp: atLeast0LessThan)
  next
    case 2
    have "block_of s j \<notin> L"
      using 2(2) L block_of_inj [of s UNIV] slab_inv_size [OF inv] by (auto dest: injD)
    moreover have "block_data req (s\<lparr>sl_blob := b'\<rparr>) blk = block_data req s blk" if blk: "blk \<in> L" for blk
    proof -
      obtain i where "i \<in> leased_units s" "blk = block_of s i" using blk L by auto
      then show ?thesis using lease_unit(2) [OF inv 2(1,3,4), of i] 2(2) sub by auto
    qed
    ultimately show ?thesis
      using 2 lease_unit(1) [OF inv 2(1,3,4)] put_u32_len [OF 2(3)] put_u32_len [OF 2(4)] by auto
  qed
qed

lemma slab_free_leased:
  assumes inv: "slab_inv req s L" and blk: "blk \<in> L"
  obtains s' where "slab_free s blk = Some (0, s')" and "slab_inv req s' (L - {blk})"
    and "sl_size s' = sl_size s" and "sl_count s' = sl_count s" and "length (sl_blob s') = length (sl_blob s)"
    and "\<forall>c\<in>L - {blk}. block_data req s' c = block_data req s c"
proof -
  have size: "8 \<le> sl_size s" using slab_inv_size [OF inv] by simp
  have L: "L = block_of s ` leased_units s" using inv by (simp add: slab_inv_def)
  then obtain j where j: "j \<in> leased_units s" "blk = block_of s j" using blk by auto
  have jc: "j < sl_count s" using j by (simp add: leased_units_def)
  have canary: "get_u32 (sl_blob s) (j * sl_size s + 4) = Some 0xdeadbeaf"
    using inv j(1) by (simp add: slab_inv_def del: get_u32_in)
  obtain b where b: "put_u32 (sl_blob s) (j * sl_size s) 0 = Some b"
    using unit_in_blob [OF inv jc] size put_u32_in by fastforce
  have frame: "take n (drop i b) = take n (drop i (sl_blob s))"
    if "i + n \<le> j * sl_size s \<or> j * sl_size s + sl_size s \<le> i" for i n
    using put_u32_frame [OF b, of i n] that size by auto
  note w = unit_written [OF inv jc refl put_u32_len [OF b] frame get_put_u32 [OF b]]
  have "slab_free s blk = Some (0, s\<lparr>sl_blob := b\<rparr>)"
    using j(2) canary b by (simp add: slab_free_def block_of_def del: get_u32_in put_u32_in)
  moreover have "slab_inv req (s\<lparr>sl_blob := b\<rparr>) (L - {blk})" using w(1) j(2) by simp
  moreover have "block_data req (s\<lparr>sl_blob := b\<rparr>) c = block_data req s c" if c: "c \<in> L - {blk}" for c
  proof -
    obtain i where "i \<in> leased_units s" "c = block_of s i" using c L by auto
    then show ?thesis using w(2) [of i] c j(2) by (auto simp: leased_units_def)
  qed
  ultimately show ?thesis using that put_u32_len [OF b] by simp
qed

lemma slice_update:
  "i + n \<le> off \<or> off < i \<Longrightarrow> take n (drop i (b[off := v])) = take n (drop i b)"
  by (rule nth_equalityI) (auto simp: nth_list_update)

text \<open>A client that stays inside its block disturbs no unit.\<close>

lemma block_written:
  assumes inv: "slab_inv req s L" and blk: "blk \<in> L" and off: "off < req"
    and b: "set_at (sl_blob s) (blk + off) v = Some b"
  shows "slab_inv req (s\<lparr>sl_blob := b\<rparr>) L"
    and "c \<in> L \<Longrightarrow> c \<noteq> blk \<Longrightarrow> block_data req (s\<lparr>sl_blob := b\<rparr>) c = block_data req s c"
proof -
  have size: "8 + req \<le> sl_size s" using slab_inv_size [OF inv] by simp
  have L: "L = block_of s ` leased_units s" using inv by (simp add: slab_inv_def)
  then obtain j where j: "j \<in> leased_units s" "blk = block_of s j" using blk by auto
  have jc: "j < sl_count s" using j by (simp add: leased_units_def)
  have b': "b = (sl_blob s)[blk + off := v]" using b by (simp add: set_at_def split: if_splits)
  have at: "blk + off = j * sl_size s + 8 + off" using j(2) by (simp add: block_of_def sizeof_unit_def)
  have frame: "take n (drop i b) = take n (drop i (sl_blob s))"
    if "i + n \<le> j * sl_size s \<or> j * sl_size s + sl_size s \<le> i" for i n
    unfolding b' by (rule slice_update) (use that at size off in auto)
  have head: "get_u32 b (j * sl_size s + k) = get_u32 (sl_blob s) (j * sl_size s + k)" if "k + 4 \<le> 8" for k
    using slice_update [of "j * sl_size s + k" 4 "blk + off" "sl_blob s" v] that at
    by (simp add: b' get_u32_def buf_read_def)
  obtain x where x: "get_u32 (sl_blob s) (j * sl_size s) = Some x" "x \<noteq> 0"
    using unit_cases [OF inv jc] j(1) by (auto simp: leased_units_def simp del: get_u32_in)
  have "get_u32 b (j * sl_size s) = Some x" using head [of 0] x by (simp del: get_u32_in)
  moreover have "get_u32 b (j * sl_size s + 4) = Some 0xdeadbeaf"
    using head [of 4] inv j(1) by (simp add: slab_inv_def del: get_u32_in)
  ultimately have w: "slab_inv req (s\<lparr>sl_blob := b\<rparr>) (if x = 0 then L - {block_of s j} else insert (block_of s j) L)"
    "\<And>i. i < sl_count s \<Longrightarrow> i \<noteq> j \<Longrightarrow> block_data req (s\<lparr>sl_blob := b\<rparr>) (block_of s i) = block_data req s (block_of s i)"
    using unit_written [OF inv jc refl _ frame] by (auto simp: b')
  show "slab_inv req (s\<lparr>sl_blob := b\<rparr>) L" using w(1) x(2) j blk by (simp add: insert_absorb)
  show "block_data req (s\<lparr>sl_blob := b\<rparr>) c = block_data req s c" if c: "c \<in> L" "c \<noteq> blk"
  proof -
    obtain i where "i \<in> leased_units s" "c = block_of s i" using c L by auto
    then show ?thesis using w(2) [of i] c j(2) by (auto simp: leased_units_def)
  qed
qed

subsection \<open>Clients\<close>

text \<open>
  A client that keeps to the rules: it allocates, writes inside the blocks it holds and frees
  blocks it holds, in any order.  The second component of a state is the set of blocks it holds.
\<close>

inductive slab_step :: "nat \<Rightarrow> slab \<times> nat set \<Rightarrow> slab \<times> nat set \<Rightarrow> bool" for req where
  lease: "slab_alloc s = Some (0, Some blk, s') \<Longrightarrow> slab_step req (s, L) (s', insert blk L)"
| refuse: "slab_alloc s = Some (- 1, None, s') \<Longrightarrow> slab_step req (s, L) (s', L)"
| store: "blk \<in> L \<Longrightarrow> off < req \<Longrightarrow> set_at (sl_blob s) (blk + off) v = Some b \<Longrightarrow>
    slab_step req (s, L) (s\<lparr>sl_blob := b\<rparr>, L)"
| release: "blk \<in> L \<Longrightarrow> slab_free s blk = Some (rc, s') \<Longrightarrow> slab_step req (s, L) (s', L - {blk})"

inductive_cases slab_step_cases: "slab_step req (s, L) (s', L')"

lemma slab_step_inv:
  assumes "slab_step req (s, L) (s', L')" and inv: "slab_inv req s L"
  shows "slab_inv req s' L' \<and> sl_size s' = sl_size s \<and> sl_count s' = sl_count s \<and>
    length (sl_blob s') = length (sl_blob s)"
  using assms(1)
proof (elim slab_step_cases)
  fix blk assume "L' = insert blk L" "slab_alloc s = Some (0, Some blk, s')"
  then show ?thesis using slab_alloc_cases [OF inv] by auto
next
  assume "L' = L" "slab_alloc s = Some (- 1, None, s')"
  then show ?thesis using slab_alloc_cases [OF inv] inv by auto
next
  fix blk off v b assume "L = L'" "s' = s\<lparr>sl_blob := b\<rparr>" "blk \<in> L'" "off < req" "set_at (sl_blob s) (blk + off) v = Some b"
  then show ?thesis using block_written(1) [OF inv] by (auto simp: set_at_def split: if_splits)
next
  fix blk rc assume *: "L' = L - {blk}" "blk \<in> L" "slab_free s blk = Some (rc, s')"
  obtain s'' where "slab_free s blk = Some (0, s'')" "slab_inv req s'' (L - {blk})"
    "sl_size s'' = sl_size s" "sl_count s'' = sl_count s" "length (sl_blob s'') = length (sl_blob s)"
    using slab_free_leased [OF inv *(2)] by metis
  then show ?thesis using * by auto
qed

lemma slab_reachable_inv:
  assumes "(slab_step req)\<^sup>*\<^sup>* (s0, L0) (s, L)" and "slab_inv req s0 L0"
  shows "slab_inv req s L \<and> sl_size s = sl_size s0 \<and> sl_count s = sl_count s0 \<and>
    length (sl_blob s) = length (sl_blob s0)"
  using assms(1)
proof (induction "(s, L)" arbitrary: s L rule: rtranclp_induct)
  case base
  then show ?case using assms(2) by simp
next
  case (step y)
  then show ?case using slab_step_inv [of req "fst y" "snd y"] by (cases y) auto
qed

text \<open>C25. Whatever a client of the allocator does within the rules, from \<open>slab_init()\<close> on: the
  blocks it holds lie in the blob, are aligned to 8 bytes (in a blob that is), do not overlap, and
  can be written and freed; \<open>slab_alloc()\<close> fails exactly when as many blocks are held as
  the pool has units, and otherwise gives a block that is not held, leaving the contents of
  all others alone.\<close>

theorem slab_leases_sound:
  assumes "slab_init req blob = Some (rc, Some s0)" and "unat req + 15 < 2 ^ 64"
    and "(slab_step (unat req))\<^sup>*\<^sup>* (s0, {}) (s, L)"
  shows "(\<forall>blk\<in>L. 8 dvd blk \<and> blk + unat req \<le> length blob \<and>
        (\<exists>s'. slab_free s blk = Some (0, s')) \<and>
        (\<forall>blk'\<in>L. blk \<noteq> blk' \<longrightarrow> blk + unat req \<le> blk' \<or> blk' + unat req \<le> blk)) \<and>
    finite L \<and> card L \<le> sl_count s0 \<and>
    (if card L = sl_count s0 then slab_alloc s = Some (- 1, None, s)
     else \<exists>blk s'. slab_alloc s = Some (0, Some blk, s') \<and> blk \<notin> L \<and>
       (\<forall>b\<in>L. block_data (unat req) s' b = block_data (unat req) s b))"
proof -
  note init = slab_init_inv [OF assms(1,2)]
  have inv: "slab_inv (unat req) s L" and same: "sl_count s = sl_count s0" "length (sl_blob s) = length blob"
    using slab_reachable_inv [OF assms(3) init(1)] init(2) by auto
  have size: "8 + unat req \<le> sl_size s" "0 < sl_size s" using slab_inv_size [OF inv] by auto
  have L: "L = block_of s ` leased_units s" and sub: "leased_units s \<subseteq> {..<sl_count s}" and d: "8 dvd sl_size s"
    using inv by (auto simp: slab_inv_def leased_units_def)
  have fin: "finite (leased_units s)" using sub finite_subset by blast
  then have card: "card L = card (leased_units s)" "finite L"
    using L block_of_inj [OF size(2)] by (simp_all add: card_image)
  have le: "card L \<le> sl_count s0" using card(1) card_mono [OF _ sub] same by simp
  have held: "8 dvd blk \<and> blk + unat req \<le> length blob \<and> (\<exists>s'. slab_free s blk = Some (0, s')) \<and>
      (\<forall>blk'\<in>L. blk \<noteq> blk' \<longrightarrow> blk + unat req \<le> blk' \<or> blk' + unat req \<le> blk)" if blk: "blk \<in> L" for blk
  proof -
    obtain i where i: "i \<in> leased_units s" "blk = i * sl_size s + 8"
      using blk L by (auto simp: block_of_def sizeof_unit_def)
    have "blk + unat req \<le> blk' \<or> blk' + unat req \<le> blk" if "blk' \<in> L" "blk \<noteq> blk'" for blk'
      using that i L units_apart [of i _ "sl_size s"] size by (fastforce simp: block_of_def sizeof_unit_def)
    moreover have "blk + unat req \<le> length blob"
      using unit_in_blob [OF inv, of i] i sub size same by auto
    moreover have "\<exists>s'. slab_free s blk = Some (0, s')" using slab_free_leased [OF inv blk] by blast
    ultimately show ?thesis using i(2) d by auto
  qed
  from slab_alloc_cases [OF inv] show ?thesis
  proof (elim disjE conjE exE)
    assume "slab_alloc s = Some (- 1, None, s)" "L = block_of s ` {..<sl_count s}"
    moreover from this have "card L = sl_count s0" using same block_of_inj [OF size(2)] by (simp add: card_image)
    ultimately show ?thesis using held card(2) by simp
  next
    fix j s'
    assume j: "j < sl_count s" "block_of s j \<notin> L" and al: "slab_alloc s = Some (0, Some (block_of s j), s')"
      and keep: "\<forall>blk\<in>L. block_data (unat req) s' blk = block_data (unat req) s blk"
    have "leased_units s \<subset> {..<sl_count s}" using sub j L by auto
    then have "card L < sl_count s0" using card(1) psubset_card_mono [of "{..<sl_count s}"] same by simp
    then show ?thesis using held card(2) le j al keep by auto
  qed
qed

theorem slab_leases_sound_witness:
  "\<exists>s0 s1. slab_init 5 (replicate 40 7) = Some (2, Some s0) \<and> slab_alloc s0 = Some (0, Some 8, s1) \<and>
     8 + 5 \<le> length (replicate 40 (7 :: u8))"
proof -
  define s0 where "s0 = \<lparr> sl_blob = replicate 40 (0 :: u8), sl_size = 16, sl_count = 2 \<rparr>"
  have init: "slab_init 5 (replicate 40 7) = Some (2, Some s0)"
    unfolding s0_def by (simp add: slab_init_def ROUND_UP_def sizeof_unit_def)
  have "\<exists>s1. slab_alloc s0 = Some (0, Some 8, s1)"
    by (simp add: slab_alloc_def s0_def numeral_2_eq_2 get_u32_zero sizeof_unit_def del: get_u32_in)
  then obtain s1 where al: "slab_alloc s0 = Some (0, Some 8, s1)" by blast
  have "slab_step 5 (s0, {}) (s1, {8})" using slab_step.lease [OF al, of 5 "{}"] by simp
  then have "(slab_step (unat (5 :: u64)))\<^sup>*\<^sup>* (s0, {}) (s1, {8})" by simp
  from slab_leases_sound [OF init _ this] show ?thesis using init al by auto
qed

text \<open>A size close to \<open>2 ^ 64\<close> wraps to a tiny unit, and the blocks then have no room at all.\<close>

lemma slab_init_wraps:
  "slab_init (- 1) (replicate 64 0) = Some (8, Some \<lparr> sl_blob = replicate 64 0, sl_size = 8, sl_count = 8 \<rparr>)"
  by (simp add: slab_init_def ROUND_UP_def sizeof_unit_def)

text \<open>Freeing a block twice is not noticed, nor is a pointer the allocator never gave out.\<close>

lemma slab_free_twice:
  assumes "slab_inv req s L" and "blk \<in> L" and "slab_free s blk = Some (0, s')"
  shows "\<exists>s''. slab_free s' blk = Some (0, s'')"
proof -
  have c: "8 \<le> blk" "get_u32 (sl_blob s) (blk - 4) = Some 0xdeadbeaf"
    and p: "put_u32 (sl_blob s) (blk - 8) 0 = Some (sl_blob s')"
    using assms(3) by (auto simp: slab_free_def sizeof_unit_def Let_def split: if_splits bind_splits
        simp del: get_u32_in put_u32_in)
  have "get_u32 (sl_blob s') (blk - 4) = Some 0xdeadbeaf"
    using get_put_u32_other [OF p, of "blk - 4"] c by auto
  moreover obtain b where "put_u32 (sl_blob s') (blk - 8) 0 = Some b"
    using length_put_u32 [OF p] put_u32_in by fastforce
  ultimately show ?thesis using c(1) by (simp add: slab_free_def sizeof_unit_def del: get_u32_in put_u32_in)
qed

end
