(* ===== verification/StrLib.thy ===== *)
theory StrLib
  imports Memory CBytes
begin

text \<open>
  Length-counted strings (\<open>src/strlib.c\<close>, \<open>include/utils/strlib.h\<close>).  The bytes behind \<open>buf\<close> are
  part of the value, \<open>None\<close> for NULL.  Lengths that do not fit an \<open>int\<close> are outside the model
  (\<open>string_copy()\<close> and \<open>string_printf()\<close> compute with \<open>int\<close> offsets), as is a \<open>len\<close> above
  \<open>max_len\<close>, where a subtraction of sizes wraps.
\<close>

definition STRING_ALLOCATED :: u32 where
  "STRING_ALLOCATED = 1"

record string_t =
  st_flags :: u32
  st_buf :: "u8 list option"
  st_len :: nat
  st_max_len :: nat

definition STRING_DEF :: "nat \<Rightarrow> string_t" where
  "STRING_DEF n = \<lparr> st_flags = 0, st_buf = Some (replicate (n + 1) 0), st_len = 0, st_max_len = n \<rparr>"

definition string_create :: "(nat \<Rightarrow> u8 list option) \<Rightarrow> u8 list option \<Rightarrow> nat \<Rightarrow> (int + string_t) option" where
  "string_create malloc buf len = and_then (safe_malloc malloc (len + 1)) (\<lambda>b. do {
     (b, l) \<leftarrow> (case buf of
         None \<Rightarrow> Some (b, 0)
       | Some src \<Rightarrow> do { b \<leftarrow> memcpy_to b 0 src len; Some (b, len) });
     b \<leftarrow> set_at b len 0;
     Some (Inr \<lparr> st_flags = STRING_ALLOCATED, st_buf = Some b, st_len = l, st_max_len = len \<rparr>)
   })"

definition string_clone :: "(nat \<Rightarrow> u8 list option) \<Rightarrow> string_t \<Rightarrow> (int + string_t) option" where
  "string_clone malloc src = string_create malloc (st_buf src) (st_len src)"

definition string_resize ::
    "(u8 list option \<Rightarrow> nat \<Rightarrow> u8 list option) \<Rightarrow> string_t \<Rightarrow> nat \<Rightarrow> (int + int \<times> string_t) option" where
  "string_resize realloc s new_len =
     (if st_flags s AND STRING_ALLOCATED = 0 then Some (Inr (- 1, s))
      else and_then (safe_realloc realloc (st_buf s) (new_len + 1)) (\<lambda>b. do {
        let s = s\<lparr>st_max_len := new_len\<rparr>;
        let s = (if st_len s > new_len then s\<lparr>st_len := new_len\<rparr> else s);
        b \<leftarrow> set_at b new_len 0;
        Some (Inr (0, s\<lparr>st_buf := Some b\<rparr>))
      }))"

text \<open>Releasing the buffer has no effect on the value but the reset.\<close>

definition string_destroy :: "string_t \<Rightarrow> string_t" where
  "string_destroy s = s\<lparr>st_buf := None, st_flags := 0, st_len := 0, st_max_len := 0\<rparr>"

definition string_printf :: "string_t \<Rightarrow> u8 list \<Rightarrow> u8 list \<Rightarrow> (int \<times> string_t) option" where
  "string_printf s mode out = do {
     b \<leftarrow> st_buf s;
     m \<leftarrow> get_at mode 0;
     let start = (if m = 0x61 then st_len s else 0);
     if start > st_max_len s \<or> int (st_max_len s) > INT_MAX \<or> int (start + length out) > INT_MAX then None
     else do {
       b \<leftarrow> vsnprintf_at b start (st_max_len s - start) out;
       let ret = length out;
       if start + ret \<ge> st_max_len s then Some (- 1, s\<lparr>st_buf := Some b\<rparr>)
       else do {
         b \<leftarrow> set_at b (start + ret) 0;
         Some (int ret, s\<lparr>st_len := start + ret, st_buf := Some b\<rparr>)
       }
     }
   }"

definition string_copy :: "string_t \<Rightarrow> u8 list \<Rightarrow> u8 list \<Rightarrow> nat \<Rightarrow> (int \<times> string_t) option" where
  "string_copy s mode str len = do {
     m \<leftarrow> get_at mode 0;
     let start = (if m = 0x61 then st_len s else 0);
     fill \<leftarrow> (if start + len > st_max_len s then map_option (\<lambda>c. Some (c = 0x66)) (get_at mode 1) else Some None);
     if fill = Some False then Some (- 1, s)
     else if start > st_max_len s \<or> int (st_max_len s) > INT_MAX then None
     else do {
       let len = (if fill = Some True then st_max_len s - start else len);
       b \<leftarrow> st_buf s;
       b \<leftarrow> memcpy_to b start str len;
       b \<leftarrow> set_at b (start + len) 0;
       Some (int len, s\<lparr>st_len := start + len, st_buf := Some b\<rparr>)
     }
   }"

definition string_merge ::
    "(u8 list option \<Rightarrow> nat \<Rightarrow> u8 list option) \<Rightarrow> string_t \<Rightarrow> string_t \<Rightarrow> (int + int \<times> string_t \<times> string_t) option" where
  "string_merge realloc primary secondary = do {
     let target = st_len primary + st_len secondary;
     r \<leftarrow> (if target > st_max_len primary then string_resize realloc primary target
           else Some (Inr (0, primary)));
     and_then r (\<lambda>(rc, primary).
       if rc \<noteq> 0 then Some (Inr (- 1, primary, secondary))
       else do {
         src \<leftarrow> st_buf secondary;
         (n, primary) \<leftarrow> string_copy primary [0x61, 0] src (st_len secondary);
         Some (Inr (0, primary, string_destroy secondary))
       })
   }"

definition str_flush :: "string_t \<Rightarrow> string_t option" where
  "str_flush s = do {
     b \<leftarrow> st_buf s;
     b \<leftarrow> set_at b 0 0;
     Some (s\<lparr>st_buf := Some b, st_len := 0\<rparr>)
   }"

subsection \<open>The invariant\<close>

text \<open>There is room for \<open>max_len\<close> characters and a NUL, which follows the \<open>len\<close> characters in use.\<close>

definition string_ok :: "string_t \<Rightarrow> bool" where
  "string_ok s \<longleftrightarrow> (\<exists>b. st_buf s = Some b \<and> st_max_len s < length b \<and> b ! st_len s = 0) \<and>
     st_len s \<le> st_max_len s \<and> int (st_max_len s) \<le> INT_MAX"

definition chars :: "string_t \<Rightarrow> u8 list" where
  "chars s = (case st_buf s of None \<Rightarrow> [] | Some b \<Rightarrow> take (st_len s) b)"

lemma string_ok_split:
  assumes "string_ok s"
  obtains r where "st_buf s = Some (chars s @ 0 # r)" and "length (chars s) = st_len s"
    and "st_max_len s \<le> st_len s + length r"
proof -
  obtain b where b: "st_buf s = Some b" "st_max_len s < length b" "b ! st_len s = 0" "st_len s \<le> st_max_len s"
    using assms by (auto simp: string_ok_def)
  have t: "chars s = take (st_len s) b" using b(1) by (simp add: chars_def)
  have "b = chars s @ 0 # drop (Suc (st_len s)) b"
    using id_take_nth_drop [of "st_len s" b] b(2-4) unfolding t by simp
  then have "st_buf s = Some (chars s @ 0 # drop (Suc (st_len s)) b)"
    by (rule trans [OF b(1) arg_cong [where f = Some]])
  then show ?thesis using that b(2,4) by (simp add: t)
qed

lemma string_okI:
  "st_buf s = Some (t @ 0 # r) \<Longrightarrow> length t = st_len s \<Longrightarrow> st_len s \<le> st_max_len s \<Longrightarrow>
     st_max_len s \<le> st_len s + length r \<Longrightarrow> int (st_max_len s) \<le> INT_MAX \<Longrightarrow> string_ok s \<and> chars s = t"
  by (auto simp: string_ok_def chars_def nth_append)

lemma STRING_DEF_ok: "int n \<le> INT_MAX \<Longrightarrow> string_ok (STRING_DEF n) \<and> chars (STRING_DEF n) = []"
  by (simp add: STRING_DEF_def string_ok_def chars_def)

lemma str_flush_ok: "string_ok s \<Longrightarrow> \<exists>s'. str_flush s = Some s' \<and> string_ok s' \<and> chars s' = []"
proof -
  assume "string_ok s"
  then obtain b where b: "st_buf s = Some b" "st_max_len s < length b" "int (st_max_len s) \<le> INT_MAX"
    by (auto simp: string_ok_def)
  then have "set_at b 0 0 = Some (b[0 := 0])" by (intro set_at_in) linarith
  moreover have "b[0 := 0] ! 0 = 0" using b(2) by (cases b) auto
  ultimately show ?thesis using b by (auto simp: str_flush_def string_ok_def chars_def)
qed

lemma string_create_copy:
  assumes "malloc_ok malloc" and "length src \<ge> n" and "int n \<le> INT_MAX"
  shows "string_create malloc (Some src) n = Some (Inl (- 1)) \<or>
    (\<exists>s. string_create malloc (Some src) n = Some (Inr s) \<and> string_ok s \<and> chars s = take n src \<and>
      st_max_len s = n \<and> st_flags s = STRING_ALLOCATED)"
proof (rule safe_malloc_cases [OF assms(1), of "n + 1"])
  assume "safe_malloc malloc (n + 1) = Inl (- 1)"
  then show ?thesis by (simp add: string_create_def)
next
  fix p assume p: "safe_malloc malloc (n + 1) = Inr p" "length p = n + 1"
  let ?s = "\<lparr> st_flags = STRING_ALLOCATED, st_buf = Some (take n src @ [0]), st_len = n, st_max_len = n \<rparr>"
  have "set_at (take n src @ drop n p) n 0 = Some (take n src @ [0])"
  proof -
    obtain x r where x: "drop n p = x # r" using p(2) by (cases "drop n p") auto
    have "length (drop n p) = 1" using p(2) by simp
    then have "r = []" unfolding x by simp
    then show ?thesis using x assms(2) by (simp add: list_update_append)
  qed
  then have "string_create malloc (Some src) n = Some (Inr ?s)"
    using p assms(2) by (simp add: string_create_def)
  then show ?thesis using string_okI [of ?s "take n src" "[]"] assms by auto
qed

lemma string_copy_result:
  assumes "string_ok s" and "start = (if a then st_len s else 0)" and "start + n \<le> st_max_len s" and "n \<le> length str"
  shows "\<exists>b r. memcpy_to (the (st_buf s)) start str n = Some b \<and> set_at b (start + n) 0
      = Some ((if a then chars s else []) @ take n str @ 0 # r) \<and>
    (\<forall>s'. s' = s\<lparr>st_len := start + n, st_buf := Some ((if a then chars s else []) @ take n str @ 0 # r)\<rparr> \<longrightarrow>
      string_ok s' \<and> chars s' = (if a then chars s else []) @ take n str)"
proof -
  obtain b where b: "st_buf s = Some b" "st_max_len s < length b" "st_len s \<le> st_max_len s" "int (st_max_len s) \<le> INT_MAX"
    using assms(1) by (auto simp: string_ok_def)
  have front: "take start b = (if a then chars s else [])" using assms(2) b(1) by (simp add: chars_def)
  have m: "memcpy_to b start str n = Some (take start b @ take n str @ drop (start + n) b)"
    using assms(3,4) b by simp
  obtain x r where x: "drop (start + n) b = x # r" using assms(3) b by (cases "drop (start + n) b") auto
  have len: "length (take start b) = start" "length r + start + n + 1 = length b"
    using assms(3) b arg_cong [OF x, of length] by auto
  have "set_at (take start b @ take n str @ drop (start + n) b) (start + n) 0 = Some (take start b @ take n str @ 0 # r)"
    using assms(4) len x by (simp add: list_update_append)
  moreover have "string_ok s' \<and> chars s' = take start b @ take n str"
    if "s' = s\<lparr>st_len := start + n, st_buf := Some (take start b @ take n str @ 0 # r)\<rparr>" for s'
    using that assms(3,4) len b by (intro string_okI [where r = r]) auto
  ultimately show ?thesis using m b(1) unfolding front [symmetric] by auto
qed

subsection \<open>Copying\<close>

text \<open>The mode strings: append or overwrite, and whether to cut text that does not fit.\<close>

definition mode_of :: "bool \<Rightarrow> bool \<Rightarrow> u8 list" where
  "mode_of app fill = (if app then 0x61 else 0x63) # (if fill then [0x66, 0] else [0])"

text \<open>C26. \<open>string_copy()\<close> in each of its four modes (a, af, c, cf) on a well-formed string: text
  that fits is appended to what the string holds or replaces it; text that does not fit is cut to
  the room there is in the fill modes and refused with -1, nothing changed, in the others.  The
  result is the number of characters taken, the string stays well-formed, and no byte outside
  either buffer is touched.\<close>

theorem string_copy_correct:
  assumes "string_ok s" and "n \<le> length str" and "old = (if a then chars s else [])"
    and "room = st_max_len s - length old"
  shows "if n \<le> room \<or> f
    then \<exists>s'. string_copy s (mode_of a f) str n = Some (int (min n room), s') \<and> string_ok s' \<and>
      chars s' = old @ take (min n room) str \<and> st_max_len s' = st_max_len s \<and> st_flags s' = st_flags s
    else string_copy s (mode_of a f) str n = Some (- 1, s)"
proof -
  define start where "start = (if a then st_len s else 0)"
  obtain b where b: "st_buf s = Some b" "st_len s \<le> st_max_len s" "int (st_max_len s) \<le> INT_MAX"
    "st_max_len s < length b"
    using assms(1) by (auto simp: string_ok_def)
  have start: "start = length old" "start \<le> st_max_len s"
    using b assms(3) by (auto simp: start_def chars_def)
  define k where "k = min n room"
  have k: "start + k \<le> st_max_len s" "k \<le> length str" using assms(2,4) start by (auto simp: k_def)
  from string_copy_result [OF assms(1) start_def k] b(1) assms(3) obtain c r where
    c: "memcpy_to b start str k = Some c" "set_at c (start + k) 0 = Some (old @ take k str @ 0 # r)" and
    ok: "string_ok (s\<lparr>st_len := start + k, st_buf := Some (old @ take k str @ 0 # r)\<rparr>)"
      "chars (s\<lparr>st_len := start + k, st_buf := Some (old @ take k str @ 0 # r)\<rparr>) = old @ take k str"
    by auto
  have m: "get_at (mode_of a f) 0 = Some (if a then 0x61 else 0x63)"
    "get_at (mode_of a f) 1 = Some (if f then 0x66 else 0)" by (simp_all add: mode_of_def)
  have st: "(if (if a then (0x61 :: u8) else 0x63) = 0x61 then st_len s else 0) = start"
    by (simp add: start_def)
  consider "n \<le> room" | "\<not> n \<le> room" f | "\<not> n \<le> room" "\<not> f" by blast
  then show ?thesis
  proof cases
    case 1
    then have "k = n" "\<not> start + n > st_max_len s" using start assms(4) by (auto simp: k_def)
    then show ?thesis
      using 1 b(1,3) c m st ok start(2) k_def
      by (simp add: string_copy_def Let_def del: get_at_in set_at_in memcpy_to_in)
  next
    case 2
    then have "start + n > st_max_len s" "k = st_max_len s - start" using start assms(4) by (auto simp: k_def)
    then show ?thesis
      using 2 b(1,3) c m st ok start(2) k_def
      by (simp add: string_copy_def Let_def del: get_at_in set_at_in memcpy_to_in)
  next
    case 3
    then have "start + n > st_max_len s" using start assms(4) by auto
    then show ?thesis using 3 m st by (simp add: string_copy_def Let_def del: get_at_in)
  qed
qed

theorem string_copy_correct_witness:
  "\<exists>s'. string_copy (STRING_DEF 3) (mode_of True True) [0x61, 0x62, 0x63, 0x64] 4 = Some (3, s') \<and>
     chars s' = [0x61, 0x62, 0x63]"
  using string_copy_correct [of "STRING_DEF 3" 4 "[0x61, 0x62, 0x63, 0x64]" "[]" True 3 True] STRING_DEF_ok [of 3]
  by (auto simp: STRING_DEF_def INT_MAX_def)

subsection \<open>Resizing and merging\<close>

lemma string_resize_refused: "st_flags s AND STRING_ALLOCATED = 0 \<Longrightarrow> string_resize realloc s n = Some (Inr (- 1, s))"
  by (simp add: string_resize_def)

lemma string_resize_keeps:
  assumes "string_ok s" and "realloc_ok realloc" and "st_flags s AND STRING_ALLOCATED \<noteq> 0" and "int n \<le> INT_MAX"
  shows "string_resize realloc s n = Some (Inl (- 1)) \<or>
    (\<exists>s'. string_resize realloc s n = Some (Inr (0, s')) \<and> string_ok s' \<and> chars s' = take n (chars s) \<and>
      st_max_len s' = n \<and> st_len s' = min n (st_len s) \<and> st_flags s' = st_flags s)"
proof -
  obtain b where b: "st_buf s = Some b" "st_max_len s < length b" "b ! st_len s = 0" "st_len s \<le> st_max_len s"
    using assms(1) by (auto simp: string_ok_def)
  show ?thesis
  proof (rule safe_realloc_cases [OF assms(2), of b "n + 1"])
    assume "safe_realloc realloc (Some b) (n + 1) = Inl (- 1)"
    then show ?thesis using assms(3) b(1) by (simp add: string_resize_def)
  next
    fix p assume p: "safe_realloc realloc (Some b) (n + 1) = Inr p" "length p = n + 1"
      "take (min (n + 1) (length b)) p = take (min (n + 1) (length b)) b"
    define l where "l = min n (st_len s)"
    let ?s = "s\<lparr>st_max_len := n, st_len := l, st_buf := Some (p[n := 0])\<rparr>"
    have keep: "p ! i = b ! i" if "i < n + 1" "i < length b" for i
      using that arg_cong [OF p(3), of "\<lambda>xs. xs ! i"] by simp
    have "p[n := 0] ! l = 0"
      using keep [of l] b p(2) by (auto simp: l_def nth_list_update min_def)
    moreover have "take l (p[n := 0]) = take l b"
      using keep b p(2) by (intro nth_equalityI) (auto simp: l_def nth_list_update)
    moreover have "take l b = take n (chars s)" using b(1) by (simp add: chars_def l_def)
    ultimately have "string_ok ?s \<and> chars ?s = take n (chars s)"
      using p(2) assms(4) by (simp add: string_ok_def chars_def l_def)
    moreover have "string_resize realloc s n = Some (Inr (0, ?s))"
    proof (cases "st_len s > n")
      case True
      then show ?thesis using assms(3) b(1) p(1,2) by (simp add: string_resize_def Let_def l_def min_def)
    next
      case False
      then have "s\<lparr>st_max_len := n\<rparr> = s\<lparr>st_max_len := n, st_len := l\<rparr>" by (simp add: l_def)
      then show ?thesis using False assms(3) b(1) p(1,2) by (simp add: string_resize_def Let_def)
    qed
    ultimately show ?thesis by (intro disjI2 exI [of _ ?s]) (simp add: l_def)
  qed
qed

lemma string_copy_append:
  assumes "string_ok s" and "n \<le> length str" and "st_len s + n \<le> st_max_len s"
  shows "\<exists>s'. string_copy s [0x61, 0] str n = Some (int n, s') \<and> string_ok s' \<and> chars s' = chars s @ take n str"
proof -
  obtain c where c: "st_buf s = Some c" "int (st_max_len s) \<le> INT_MAX" "st_len s \<le> st_max_len s"
    using assms(1) by (auto simp: string_ok_def)
  obtain b r where b: "memcpy_to (the (st_buf s)) (st_len s) str n = Some b"
    "set_at b (st_len s + n) 0 = Some (chars s @ take n str @ 0 # r)"
    and all: "\<forall>s'. s' = s\<lparr>st_len := st_len s + n, st_buf := Some (chars s @ take n str @ 0 # r)\<rparr> \<longrightarrow>
      string_ok s' \<and> chars s' = chars s @ take n str"
    using string_copy_result [where a = True, OF assms(1) refl _ assms(2), unfolded if_True, OF assms(3)] by blast
  have "string_copy s [0x61, 0] str n = Some (int n, s\<lparr>st_len := st_len s + n, st_buf := Some (chars s @ take n str @ 0 # r)\<rparr>)"
    using b c assms(3) by (simp add: string_copy_def Let_def del: set_at_in memcpy_to_in)
  with all show ?thesis by blast
qed

text \<open>Merging appends the characters of the second string to the first, enlarging it when that
  is needed and its buffer is one the library allocated, and leaves the second empty and without
  a buffer.  Otherwise it returns -1 and changes neither.  When memory runs out the process ends;
  nothing else can go wrong.\<close>

theorem string_merge_correct:
  assumes "string_ok p" and "string_ok q" and "int (st_len p + st_len q) \<le> INT_MAX" and "realloc_ok realloc"
  shows "if st_len p + st_len q \<le> st_max_len p \<or> st_flags p AND STRING_ALLOCATED \<noteq> 0
    then string_merge realloc p q = Some (Inl (- 1)) \<or>
      (\<exists>p'. string_merge realloc p q = Some (Inr (0, p', string_destroy q)) \<and> string_ok p' \<and>
        chars p' = chars p @ chars q)
    else string_merge realloc p q = Some (Inr (- 1, p, q))"
proof -
  obtain c r where q: "st_buf q = Some c" "c = chars q @ 0 # r" "length (chars q) = st_len q"
    using string_ok_split [OF assms(2)] by metis
  have len: "length (chars p) = st_len p" "st_len p \<le> st_max_len p"
    using string_ok_split [OF assms(1)] assms(1) by (auto simp: string_ok_def)
  have copy: "\<exists>p''. string_copy p' [0x61, 0] c (st_len q) = Some (int (st_len q), p'') \<and> string_ok p'' \<and>
      chars p'' = chars p' @ chars q" if "string_ok p'" "st_len p' + st_len q \<le> st_max_len p'" for p'
    using string_copy_append [OF that(1), of "st_len q" c] that(2) q by simp
  consider "st_len p + st_len q \<le> st_max_len p" | "st_len p + st_len q > st_max_len p" "st_flags p AND STRING_ALLOCATED \<noteq> 0"
    | "st_len p + st_len q > st_max_len p" "st_flags p AND STRING_ALLOCATED = 0" by linarith
  then show ?thesis
  proof cases
    case 1
    then show ?thesis using copy [OF assms(1)] q(1) by (auto simp: string_merge_def)
  next
    case 2
    from string_resize_keeps [OF assms(1,4) 2(2) assms(3)] show ?thesis
    proof (elim disjE exE conjE)
      assume "string_resize realloc p (st_len p + st_len q) = Some (Inl (- 1))"
      then show ?thesis using 2 by (simp add: string_merge_def)
    next
      fix p' assume p': "string_resize realloc p (st_len p + st_len q) = Some (Inr (0, p'))" "string_ok p'"
        "chars p' = take (st_len p + st_len q) (chars p)" "st_max_len p' = st_len p + st_len q"
        "st_len p' = min (st_len p + st_len q) (st_len p)"
      then show ?thesis using 2 copy [OF p'(2)] q(1) len by (auto simp: string_merge_def)
    qed
  next
    case 3
    then show ?thesis using string_resize_refused [OF 3(2)] by (simp add: string_merge_def)
  qed
qed

theorem string_merge_correct_witness:
  "let q = \<lparr> st_flags = 0, st_buf = Some [0x62, 0], st_len = 1, st_max_len = 1 \<rparr>;
       p = \<lparr> st_flags = 1, st_buf = Some [0x61, 0], st_len = 1, st_max_len = 1 \<rparr>;
       realloc = (\<lambda>d n. Some (take n (case d of None \<Rightarrow> [] | Some d \<Rightarrow> d) @
         replicate (n - length (case d of None \<Rightarrow> [] | Some d \<Rightarrow> d)) 0x7f))
   in \<exists>p'. string_merge realloc p q = Some (Inr (0, p', string_destroy q)) \<and> chars p' = [0x61, 0x62]"
proof -
  define q where "q = \<lparr> st_flags = (0 :: u32), st_buf = Some [0x62 :: u8, 0], st_len = 1, st_max_len = 1 \<rparr>"
  define p where "p = \<lparr> st_flags = (1 :: u32), st_buf = Some [0x61 :: u8, 0], st_len = 1, st_max_len = 1 \<rparr>"
  define realloc :: "u8 list option \<Rightarrow> nat \<Rightarrow> u8 list option" where
    "realloc = (\<lambda>d n. Some (take n (case d of None \<Rightarrow> [] | Some d \<Rightarrow> d) @
         replicate (n - length (case d of None \<Rightarrow> [] | Some d \<Rightarrow> d)) 0x7f))"
  have "string_ok q" "string_ok p" by (simp_all add: q_def p_def string_ok_def INT_MAX_def)
  moreover have "realloc_ok realloc" by (auto simp: realloc_ok_def realloc_def min_def)
  moreover have "int (st_len p + st_len q) \<le> INT_MAX" by (simp add: q_def p_def INT_MAX_def)
  moreover have "string_merge realloc p q \<noteq> Some (Inl (- 1))"
    by (simp add: string_merge_def string_resize_def safe_realloc_def q_def p_def realloc_def
        STRING_ALLOCATED_def string_copy_def INT_MAX_def eval_nat_numeral)
  moreover have "chars p @ chars q = [0x61, 0x62]" by (simp add: chars_def p_def q_def)
  ultimately have "\<exists>p'. string_merge realloc p q = Some (Inr (0, p', string_destroy q)) \<and> chars p' = [0x61, 0x62]"
    using string_merge_correct [of p q realloc] by (auto simp: p_def STRING_ALLOCATED_def)
  then show ?thesis by (simp add: Let_def p_def q_def realloc_def)
qed

subsection \<open>Printing\<close>

text \<open>\<open>string_printf()\<close> appends or stores the formatted output \<open>out\<close> when that leaves at least one
  character of the room unused, and returns its length.  Text that fills the room exactly is
  refused although there is a byte for its terminator, and so is longer text, in the fill modes
  too; the refusal comes after the bytes have been written: when characters were to be appended,
  the terminator of the string is gone.\<close>

theorem string_printf_correct:
  assumes "string_ok s" and "old = (if a then chars s else [])"
    and "int (length old + length out) \<le> INT_MAX"
  shows "if length old + length out < st_max_len s
    then \<exists>s'. string_printf s (mode_of a f) out = Some (int (length out), s') \<and> string_ok s' \<and>
      chars s' = old @ out \<and> st_max_len s' = st_max_len s
    else \<exists>s'. string_printf s (mode_of a f) out = Some (- 1, s') \<and> st_len s' = st_len s \<and>
      st_max_len s' = st_max_len s \<and>
      (a \<and> st_len s + 1 < st_max_len s \<and> hd out \<noteq> 0 \<longrightarrow> \<not> string_ok s')"
proof -
  define start where "start = (if a then st_len s else 0)"
  obtain b where b: "st_buf s = Some b" "st_len s \<le> st_max_len s" "int (st_max_len s) \<le> INT_MAX"
    "st_max_len s < length b"
    using assms(1) by (auto simp: string_ok_def)
  have start: "length old = start" "start \<le> st_max_len s" and old: "take start b = old"
    using b assms(2) by (auto simp: start_def chars_def)
  have m: "get_at (mode_of a f) 0 = Some (if a then 0x61 else 0x63)" by (simp add: mode_of_def)
  have run: "string_printf s (mode_of a f) out = do {
      b \<leftarrow> vsnprintf_at b start (st_max_len s - start) out;
      if start + length out \<ge> st_max_len s then Some (- 1, s\<lparr>st_buf := Some b\<rparr>)
      else do {
        b \<leftarrow> set_at b (start + length out) 0;
        Some (int (length out), s\<lparr>st_len := start + length out, st_buf := Some b\<rparr>)
      } }"
  proof -
    have ok: "\<not> (start > st_max_len s \<or> int (st_max_len s) > INT_MAX \<or> int (start + length out) > INT_MAX)"
      using b(3) start assms(3) by simp
    show ?thesis
    proof (cases a)
      case True
      then have start0: "start = st_len s" by (simp add: start_def)
      show ?thesis using ok m b(1) True unfolding start0 by (simp add: string_printf_def Let_def del: get_at_in set_at_in)
    next
      case False
      then have start0: "start = 0" by (simp add: start_def)
      show ?thesis using ok m b(1) False unfolding start0 by (simp add: string_printf_def Let_def del: get_at_in set_at_in)
    qed
  qed
  show ?thesis
  proof (cases "length old + length out < st_max_len s")
    case True
    let ?n = "start + length out"
    have w: "vsnprintf_at b start (st_max_len s - start) out = Some (old @ out @ 0 # drop (?n + 1) b)"
      using True start b(4) by (simp add: vsnprintf_at_def old min_def)
    have len: "length (old @ out) = ?n" using start by simp
    have "set_at (old @ out @ 0 # drop (?n + 1) b) ?n 0 = Some (old @ out @ 0 # drop (?n + 1) b)"
      using len list_update_length [of "old @ out" 0 "drop (?n + 1) b" 0] by simp
    moreover have "string_ok s' \<and> chars s' = old @ out"
      if "s' = s\<lparr>st_len := ?n, st_buf := Some (old @ out @ 0 # drop (?n + 1) b)\<rparr>" for s'
      using that len True start b by (intro string_okI [where r = "drop (?n + 1) b"]) auto
    ultimately show ?thesis using True start run w by (simp del: set_at_in)
  next
    case False
    show ?thesis
    proof (cases "st_max_len s - start")
      case 0
      then show ?thesis using False run start by (auto simp: vsnprintf_at_def start_def)
    next
      case (Suc k)
      have out: "k \<le> length out" using False Suc start by simp
      have w: "vsnprintf_at b start (st_max_len s - start) out = Some (old @ (take k out @ [0]) @ drop (start + k + 1) b)"
        using Suc b(4) out by (simp add: vsnprintf_at_def old min_def)
      have key: "a \<and> st_len s + 1 < st_max_len s \<and> hd out \<noteq> 0 \<longrightarrow>
          (old @ (take k out @ [0]) @ drop (start + k + 1) b) ! st_len s \<noteq> 0"
      proof (intro impI, elim conjE)
        assume a and "st_len s + 1 < st_max_len s" and "hd out \<noteq> 0"
        then have "st_len s = start" "0 < k" using Suc by (auto simp: start_def)
        then show "(old @ (take k out @ [0]) @ drop (start + k + 1) b) ! st_len s \<noteq> 0"
          using out start(1) \<open>hd out \<noteq> 0\<close> by (cases out; cases k) (auto simp: nth_append)
      qed
      have "string_printf s (mode_of a f) out
          = Some (- 1, s\<lparr>st_buf := Some (old @ (take k out @ [0]) @ drop (start + k + 1) b)\<rparr>)"
        using False run start(1) w by (simp del: append_assoc)
      then show ?thesis using False key by (auto simp: string_ok_def simp del: append_assoc)
    qed
  qed
qed

theorem string_printf_correct_witness:
  "\<exists>s'. string_printf \<lparr> st_flags = 0, st_buf = Some [0x61, 0, 0, 0], st_len = 1, st_max_len = 3 \<rparr> (mode_of True False)
     [0x62, 0x63] = Some (- 1, s') \<and> \<not> string_ok s'"
  using string_printf_correct [of "\<lparr> st_flags = 0, st_buf = Some [0x61, 0, 0, 0], st_len = 1, st_max_len = 3 \<rparr>"
      "[0x61]" True "[0x62, 0x63]" False]
  by (auto simp: string_ok_def chars_def INT_MAX_def)

subsection \<open>The macros for string constants\<close>

text \<open>
  The macros take \<open>strlen\<close> of the structure instead of the text: \<open>rest\<close> are its bytes behind the flags.
\<close>

definition str_const_copy :: "u8 list \<Rightarrow> string_t \<Rightarrow> u8 list \<Rightarrow> (int \<times> string_t) option" where
  "str_const_copy rest s str = do { len \<leftarrow> c_strlen (u32_bytes (st_flags s) @ rest); string_copy s [0x63, 0] str len }"

definition str_const_append :: "u8 list \<Rightarrow> string_t \<Rightarrow> u8 list \<Rightarrow> (int \<times> string_t) option" where
  "str_const_append rest s str = do { len \<leftarrow> c_strlen (u32_bytes (st_flags s) @ rest); string_copy s [0x61, 0] str len }"

lemma c_strlen_flags:
  "c_strlen (u32_bytes 0 @ rest) = Some 0" "c_strlen (u32_bytes STRING_ALLOCATED @ rest) = Some 1"
  by (simp_all add: c_strlen_def u32_bytes_def STRING_ALLOCATED_def)

text \<open>
  The copy of a constant empties a string in a buffer of its own and gives an allocated one its first
  character only; to append leaves the one as it is and adds one character to the other.
\<close>

lemma str_const_copy_empties:
  assumes "string_ok s" and "st_flags s = 0"
  shows "\<exists>s'. str_const_copy rest s str = Some (0, s') \<and> string_ok s' \<and> chars s' = []"
proof -
  obtain r where r: "st_buf s = Some (chars s @ 0 # r)" "length (chars s) = st_len s" "st_max_len s \<le> st_len s + length r"
    using assms(1) by (rule string_ok_split)
  obtain x b where b: "chars s @ 0 # r = x # b" by (cases "chars s @ 0 # r") auto
  have l: "length b = st_len s + length r" using arg_cong [OF b, of length] r(2) by simp
  have "int (st_max_len s) \<le> INT_MAX" using assms(1) by (simp add: string_ok_def)
  moreover have "st_buf s = Some (x # b)" using r(1) b by simp
  moreover have "st_max_len s \<le> length b" using r(3) l by simp
  ultimately show ?thesis
    by (simp add: str_const_copy_def assms(2) c_strlen_flags string_copy_def memcpy_to_def string_ok_def chars_def)
qed

lemma str_const_append_one:
  assumes "string_ok s" and "st_flags s = STRING_ALLOCATED" and "st_len s < st_max_len s" and "str \<noteq> []"
  shows "\<exists>s'. str_const_append rest s str = Some (1, s') \<and> string_ok s' \<and> chars s' = chars s @ [hd str]"
proof -
  have "1 \<le> length str" using assms(4) by (cases str) auto
  from string_copy_append [OF assms(1) this] assms(3) obtain s' where
    "string_copy s [0x61, 0] str 1 = Some (1, s') \<and> string_ok s' \<and> chars s' = chars s @ take 1 str" by auto
  moreover have "take 1 str = [hd str]" using assms(4) by (cases str) auto
  ultimately show ?thesis by (simp add: str_const_append_def assms(2) c_strlen_flags)
qed

end
