(* ===== verification/PcapGen.thy ===== *)
theory PcapGen
  imports CBytes
begin

text \<open>
  The capture file writer (\<open>src/pcap_gen.c\<close>).  A stdio stream is the list of bytes written to it.
  What the system decides is an argument of the operations: whether an allocation, \<open>fopen\<close> or
  \<open>fwrite\<close> succeeds, and the result of \<open>fflush\<close> and \<open>fclose\<close>.  A write of zero bytes reports zero
  items whatever happens (C standard).  Records are packed, in the byte order of the host.
\<close>

definition PCAP_CACHE_SIZE :: nat where
  "PCAP_CACHE_SIZE = 2 ^ 12"

record pcap_t =
  pc_file :: "u8 list"
  pc_offset :: nat
  pc_cache :: "u8 list"
  pc_num_packets :: nat

definition PCAP_MAGIC_NUM :: u32 where [simp]: "PCAP_MAGIC_NUM = 0xa1b2c3d4"
definition PCAP_VERSION_MAJOR :: u16 where [simp]: "PCAP_VERSION_MAJOR = 2"
definition PCAP_VERSION_MINOR :: u16 where [simp]: "PCAP_VERSION_MINOR = 4"

definition pcap_header :: "u32 \<Rightarrow> u32 \<Rightarrow> u8 list" where
  "pcap_header snap_len link_type =
     u32_bytes PCAP_MAGIC_NUM @ u16_bytes PCAP_VERSION_MAJOR @ u16_bytes PCAP_VERSION_MINOR @ u32_bytes 0 @ u32_bytes 0 @
     u32_bytes snap_len @ u32_bytes link_type"

definition pcap_record_header :: "u32 \<Rightarrow> u32 \<Rightarrow> u32 \<Rightarrow> u32 \<Rightarrow> u8 list" where
  "pcap_record_header ts_sec ts_usec incl_len orig_len =
     u32_bytes ts_sec @ u32_bytes ts_usec @ u32_bytes incl_len @ u32_bytes orig_len"

definition fwrite_one :: "bool \<Rightarrow> u8 list \<Rightarrow> u8 list \<Rightarrow> bool \<times> u8 list" where
  "fwrite_one ok data file1 = (if data = [] \<or> \<not> ok then (False, file1) else (True, file1 @ data))"

definition pcap_start :: "bool \<Rightarrow> bool \<Rightarrow> bool \<Rightarrow> bool \<Rightarrow> u32 \<Rightarrow> u32 \<Rightarrow> pcap_t option" where
  "pcap_start malloc_ok calloc_ok fopen_ok fwrite_ok max_packet_size link_type =
     (if \<not> malloc_ok then None
      else if \<not> calloc_ok then None
      else
        let header = pcap_header max_packet_size link_type;
            cap = \<lparr> pc_file = [], pc_offset = 0, pc_cache = replicate PCAP_CACHE_SIZE 0, pc_num_packets = 0 \<rparr>
        in if \<not> fopen_ok then None
           else
             let (ret, f) = fwrite_one fwrite_ok header (pc_file cap)
             in if \<not> ret then None else Some (cap\<lparr>pc_file := f\<rparr>))"

definition pcap_flush :: "bool \<Rightarrow> int \<Rightarrow> pcap_t \<Rightarrow> (int \<times> pcap_t) option" where
  "pcap_flush fwrite_ok fflush_rc cap = do {
     data \<leftarrow> buf_read (pc_cache cap) 0 (pc_offset cap);
     let (ret, f) = fwrite_one fwrite_ok data (pc_file cap);
     if ret then Some (fflush_rc, cap\<lparr>pc_file := f, pc_offset := 0\<rparr>) else Some (- 1, cap)
   }"

definition pcap_add :: "bool \<Rightarrow> int \<Rightarrow> u32 \<times> u32 \<Rightarrow> pcap_t \<Rightarrow> u8 list \<Rightarrow> u32 \<Rightarrow> (int \<times> pcap_t) option" where
  "pcap_add fwrite_ok fflush_rc time cap capture_data len = do {
     (rc, cap) \<leftarrow> (if pc_offset cap + 16 + unat len > PCAP_CACHE_SIZE
                  then pcap_flush fwrite_ok fflush_rc cap else Some (0, cap));
     if rc \<noteq> 0 then Some (- 1, cap)
     else do {
       let (sec, usec) = time;
       let header = pcap_record_header sec usec len len;
       c \<leftarrow> memcpy_to (pc_cache cap) (pc_offset cap) header 16;
       c \<leftarrow> memcpy_to c (pc_offset cap + 16) capture_data (unat len);
       Some (0, cap\<lparr>pc_cache := c, pc_offset := pc_offset cap + 16 + unat len,
                  pc_num_packets := pc_num_packets cap + 1\<rparr>)
     }
   }"

text \<open>The stream's final bytes, and whether it was closed.\<close>

definition pcap_stop :: "bool \<Rightarrow> int \<Rightarrow> int \<Rightarrow> pcap_t \<Rightarrow> (int \<times> u8 list \<times> bool) option" where
  "pcap_stop fwrite_ok fflush_rc fclose_rc cap = do {
     (ret, cap) \<leftarrow> pcap_flush fwrite_ok fflush_rc cap;
     if ret = 0 then Some (fclose_rc, pc_file cap, True) else Some (ret, pc_file cap, False)
   }"

subsection \<open>Records in the cache\<close>

type_synonym packet = "(u32 \<times> u32) \<times> u8 list"

definition record_of :: "packet \<Rightarrow> u8 list" where
  "record_of p = (case p of ((sec, usec), d) \<Rightarrow>
     pcap_record_header sec usec (word_of_nat (length d)) (word_of_nat (length d)) @ d)"

lemma length_pcap_record_header [simp]: "length (pcap_record_header s u i n) = 16"
  by (simp add: pcap_record_header_def)

lemma length_record_of [simp]: "length (record_of p) = 16 + length (snd p)"
  by (simp add: record_of_def split: prod.splits)

text \<open>Written and cached bytes together are the file header and the records so far.\<close>

definition pcap_inv :: "u32 \<Rightarrow> u32 \<Rightarrow> packet list \<Rightarrow> pcap_t \<Rightarrow> bool" where
  "pcap_inv snap link ps cap \<longleftrightarrow> length (pc_cache cap) = PCAP_CACHE_SIZE \<and> pc_offset cap \<le> PCAP_CACHE_SIZE \<and>
     pc_file cap @ take (pc_offset cap) (pc_cache cap) = pcap_header snap link @ concat (map record_of ps) \<and>
     pc_num_packets cap = length ps \<and> (ps \<noteq> [] \<longrightarrow> 0 < pc_offset cap) \<and> (ps = [] \<longrightarrow> pc_offset cap = 0)"

lemma pcap_start_inv:
  "\<exists>cap. pcap_start True True True True snap link = Some cap \<and> pcap_inv snap link [] cap"
  by (auto simp: pcap_start_def pcap_inv_def fwrite_one_def pcap_header_def u32_bytes_def Let_def)

lemma pcap_flush_inv:
  assumes "length (pc_cache cap) = PCAP_CACHE_SIZE" and "pc_offset cap \<le> PCAP_CACHE_SIZE" and "0 < pc_offset cap"
  shows "pcap_flush True rc cap
    = Some (rc, cap\<lparr>pc_file := pc_file cap @ take (pc_offset cap) (pc_cache cap), pc_offset := 0\<rparr>)"
  using assms by (auto simp: pcap_flush_def fwrite_one_def PCAP_CACHE_SIZE_def)

lemma pcap_append:
  assumes "length (pc_cache cap) = PCAP_CACHE_SIZE" and "pc_offset cap + 16 + length d \<le> PCAP_CACHE_SIZE"
  shows "\<exists>c. memcpy_to (pc_cache cap) (pc_offset cap) (pcap_record_header s u i n) 16 = Some c \<and>
    memcpy_to c (pc_offset cap + 16) d (length d) =
      Some (take (pc_offset cap) (pc_cache cap) @ pcap_record_header s u i n @ d @
        drop (pc_offset cap + 16 + length d) (pc_cache cap))"
  using assms by (simp add: add.commute)

lemma small_length: "length d \<le> 4080 \<Longrightarrow> unat (word_of_nat (length d) :: u32) = length d"
  by (simp add: unat_of_nat take_bit_nat_eq_self)

lemma pcap_add_inv:
  assumes inv: "pcap_inv snap link ps cap" and d: "length d \<le> 4080"
  shows "\<exists>cap'. pcap_add True 0 t cap d (word_of_nat (length d)) = Some (0, cap') \<and> pcap_inv snap link (ps @ [(t, d)]) cap'"
proof -
  obtain s u where t: "t = (s, u)" by (cases t)
  have len: "length (pc_cache cap) = PCAP_CACHE_SIZE" and off: "pc_offset cap \<le> PCAP_CACHE_SIZE"
    using inv by (simp_all add: pcap_inv_def)
  obtain cap1 where room: "(if pc_offset cap + 16 + length d > PCAP_CACHE_SIZE
      then pcap_flush True 0 cap else Some (0, cap)) = Some (0, cap1)" and
    fit: "pc_offset cap1 + 16 + length d \<le> PCAP_CACHE_SIZE" "length (pc_cache cap1) = PCAP_CACHE_SIZE" and
    same: "pc_file cap1 @ take (pc_offset cap1) (pc_cache cap1) = pcap_header snap link @ concat (map record_of ps)"
      "pc_num_packets cap1 = length ps"
  proof (cases "pc_offset cap + 16 + length d > PCAP_CACHE_SIZE")
    case True
    then have pos: "0 < pc_offset cap" using d by (simp add: PCAP_CACHE_SIZE_def)
    show ?thesis using that pcap_flush_inv [OF len off pos, of 0] True inv d
      by (simp add: pcap_inv_def PCAP_CACHE_SIZE_def)
  next
    case False
    then show ?thesis using that inv by (simp add: pcap_inv_def)
  qed
  let ?h = "pcap_record_header s u (word_of_nat (length d)) (word_of_nat (length d))"
  let ?c = "take (pc_offset cap1) (pc_cache cap1) @ ?h @ d @ drop (pc_offset cap1 + 16 + length d) (pc_cache cap1)"
  let ?cap = "cap1\<lparr>pc_cache := ?c, pc_offset := pc_offset cap1 + 16 + length d, pc_num_packets := length ps + 1\<rparr>"
  obtain c where "memcpy_to (pc_cache cap1) (pc_offset cap1) ?h 16 = Some c"
    "memcpy_to c (pc_offset cap1 + 16) d (length d) = Some ?c"
    using pcap_append [OF fit(2,1)] by blast
  then have "pcap_add True 0 t cap d (word_of_nat (length d)) = Some (0, ?cap)"
    using room same(2) small_length [OF d] t by (simp add: pcap_add_def Let_def del: memcpy_to_in)
  moreover have "take (pc_offset cap1 + 16 + length d) ?c = take (pc_offset cap1) (pc_cache cap1) @ ?h @ d"
    using fit by simp
  then have "pcap_inv snap link (ps @ [(t, d)]) ?cap"
    using fit same t by (simp add: pcap_inv_def record_of_def flip: append_assoc)
  ultimately show ?thesis by blast
qed

subsection \<open>A reader\<close>

definition field :: "nat \<Rightarrow> u8 list \<Rightarrow> (u8 list \<times> u8 list) option" where
  "field n bs = (if n \<le> length bs then Some (take n bs, drop n bs) else None)"

lemma field_append [simp]: "length xs = n \<Longrightarrow> field n (xs @ ys) = Some (xs, ys)"
  by (auto simp: field_def)

fun read_records :: "nat \<Rightarrow> u8 list \<Rightarrow> packet list option" where
  "read_records 0 bs = (if bs = [] then Some [] else None)"
| "read_records (Suc n) bs =
     (if bs = [] then Some []
      else do {
        (s, bs) \<leftarrow> field 4 bs;
        (u, bs) \<leftarrow> field 4 bs;
        (incl, bs) \<leftarrow> field 4 bs;
        (orig, bs) \<leftarrow> field 4 bs;
        (d, bs) \<leftarrow> field (unat (bytes_u32 incl)) bs;
        ps \<leftarrow> read_records n bs;
        Some (((bytes_u32 s, bytes_u32 u), d) # ps)
      })"

definition read_pcap :: "u8 list \<Rightarrow> (u32 \<times> u32 \<times> packet list) option" where
  "read_pcap bs = do {
     (magic, bs) \<leftarrow> field 4 bs;
     (version, bs) \<leftarrow> field 4 bs;
     (zone, bs) \<leftarrow> field 8 bs;
     (snap, bs) \<leftarrow> field 4 bs;
     (link, bs) \<leftarrow> field 4 bs;
     ps \<leftarrow> read_records (length bs) bs;
     if bytes_u32 magic = 0xa1b2c3d4 \<and> version = u16_bytes 2 @ u16_bytes 4 then Some (bytes_u32 snap, bytes_u32 link, ps)
     else None
   }"

lemma read_records_of:
  "\<forall>p\<in>set ps. length (snd p) \<le> 4080 \<Longrightarrow> length ps \<le> n \<Longrightarrow> read_records n (concat (map record_of ps)) = Some ps"
proof (induction ps arbitrary: n)
  case Nil
  then show ?case by (cases n) auto
next
  case (Cons p ps)
  obtain s u d where p: "p = ((s, u), d)" by (metis prod.collapse)
  obtain k where n: "n = Suc k" using Cons.prems(2) by (cases n) auto
  then show ?case
    using Cons.IH [of k] Cons.prems n small_length [of d]
    by (simp add: p record_of_def pcap_record_header_def)
qed

lemma length_records: "length ps \<le> length (concat (map record_of ps))"
  by (induction ps) auto

lemma read_pcap_of:
  assumes "\<forall>p\<in>set ps. length (snd p) \<le> 4080"
  shows "read_pcap (pcap_header snap link @ concat (map record_of ps)) = Some (snap, link, ps)"
proof -
  have recs: "read_records (length (concat (map record_of ps))) (concat (map record_of ps)) = Some ps"
    using read_records_of [OF assms length_records] .
  have eq: "pcap_header snap link @ concat (map record_of ps) = u32_bytes 0xa1b2c3d4 @ (u16_bytes 2 @ u16_bytes 4) @
      (u32_bytes 0 @ u32_bytes 0) @ u32_bytes snap @ u32_bytes link @ concat (map record_of ps)"
    by (simp add: pcap_header_def)
  show ?thesis unfolding read_pcap_def eq using recs by (simp del: append_assoc)
qed

subsection \<open>Captures\<close>

fun pcap_adds :: "packet list \<Rightarrow> pcap_t \<Rightarrow> pcap_t option" where
  "pcap_adds [] cap = Some cap"
| "pcap_adds ((t, d) # ps) cap = do {
     (rc, cap) \<leftarrow> pcap_add True 0 t cap d (word_of_nat (length d));
     if rc = 0 then pcap_adds ps cap else None
   }"

lemma pcap_adds_inv:
  "pcap_inv snap link qs cap \<Longrightarrow> \<forall>p\<in>set ps. length (snd p) \<le> 4080 \<Longrightarrow>
     \<exists>cap'. pcap_adds ps cap = Some cap' \<and> pcap_inv snap link (qs @ ps) cap'"
proof (induction ps arbitrary: qs cap)
  case (Cons p ps)
  obtain t d where p: "p = (t, d)" by (cases p)
  obtain cap1 where "pcap_add True 0 t cap d (word_of_nat (length d)) = Some (0, cap1)" "pcap_inv snap link (qs @ [p]) cap1"
    using pcap_add_inv [OF Cons.prems(1), of d t] Cons.prems(2) p by auto
  then show ?case using Cons.IH [of "qs @ [p]" cap1] Cons.prems(2) p by simp
qed auto

lemma pcap_capture_file:
  assumes "\<forall>p\<in>set ps. length (snd p) \<le> 4080" and "ps \<noteq> []"
  shows "\<exists>cap0 cap. pcap_start True True True True snap link = Some cap0 \<and> pcap_adds ps cap0 = Some cap \<and>
    pcap_stop True 0 0 cap = Some (0, pcap_header snap link @ concat (map record_of ps), True)"
proof -
  obtain cap0 where start: "pcap_start True True True True snap link = Some cap0" "pcap_inv snap link [] cap0"
    using pcap_start_inv by blast
  obtain cap where cap: "pcap_adds ps cap0 = Some cap" and inv: "pcap_inv snap link ps cap"
    using pcap_adds_inv [OF start(2) assms(1)] by auto
  have "pcap_flush True 0 cap
      = Some (0, cap\<lparr>pc_file := pcap_header snap link @ concat (map record_of ps), pc_offset := 0\<rparr>)"
    using pcap_flush_inv [of cap 0] inv assms(2) by (simp add: pcap_inv_def)
  then have "pcap_stop True 0 0 cap = Some (0, pcap_header snap link @ concat (map record_of ps), True)"
    by (simp add: pcap_stop_def)
  then show ?thesis using start(1) cap by blast
qed

text \<open>On a disk that takes every write, a capture of any non-empty sequence of packets of at most
  4080 bytes, started, added to and stopped, succeeds throughout and leaves a closed file from
  which a reader of the format gets back the snap length, the link type and all packets with their
  time stamps, in order, however the writes through the cache fell.\<close>

theorem pcap_round_trip:
  assumes "\<forall>p\<in>set ps. length (snd p) \<le> 4080" and "ps \<noteq> []"
  shows "\<exists>cap0 cap file1. pcap_start True True True True snap link = Some cap0 \<and> pcap_adds ps cap0 = Some cap \<and>
    pcap_stop True 0 0 cap = Some (0, file1, True) \<and> read_pcap file1 = Some (snap, link, ps)"
  using pcap_capture_file [OF assms] read_pcap_of [OF assms(1)] by blast

theorem pcap_round_trip_witness:
  "\<exists>cap0 cap file1. pcap_start True True True True 65535 1 = Some cap0 \<and> pcap_adds [((5, 6), [1, 2, 3]), ((5, 7), [])] cap0 = Some cap \<and>
    pcap_stop True 0 0 cap = Some (0, file1, True) \<and> read_pcap file1 = Some (65535, 1, [((5, 6), [1, 2, 3]), ((5, 7), [])])"
  using pcap_round_trip [of "[((5, 6), [1, 2, 3]), ((5, 7), [])]" 65535 1] by simp

text \<open>The boundary cases of the writer: a packet of more than 4080 bytes is never refused for its
  size; when packets are cached it is copied past the end of the cache, which is undefined
  behaviour.  With nothing cached the write of zero bytes makes it fail with -1, and so does
  stopping a capture without packets, which also leaves the stream open.\<close>

theorem pcap_boundaries:
  assumes "pcap_inv snap link ps cap" and "4080 < unat n"
  shows "if ps = [] then pcap_add True 0 t cap d n = Some (- 1, cap) \<and>
      pcap_stop True 0 0 cap = Some (- 1, pcap_header snap link, False)
    else pcap_add True 0 t cap d n = None"
proof -
  have len: "length (pc_cache cap) = PCAP_CACHE_SIZE" "pc_offset cap \<le> PCAP_CACHE_SIZE"
    using assms(1) by (simp_all add: pcap_inv_def)
  have over: "pc_offset cap + 16 + unat n > PCAP_CACHE_SIZE" using assms(2) by (simp add: PCAP_CACHE_SIZE_def)
  show ?thesis
  proof (cases "ps = []")
    case True
    then have "pc_offset cap = 0" "pc_file cap = pcap_header snap link" using assms(1) by (auto simp: pcap_inv_def)
    then have "pcap_flush True 0 cap = Some (- 1, cap)" by (simp add: pcap_flush_def fwrite_one_def)
    then show ?thesis using True over \<open>pc_file cap = pcap_header snap link\<close> by (simp add: pcap_add_def pcap_stop_def)
  next
    case False
    then have "0 < pc_offset cap" using assms(1) by (simp add: pcap_inv_def)
    from pcap_flush_inv [OF len this, of 0] show ?thesis
      using over len assms(2) False
      by (auto simp: pcap_add_def Let_def PCAP_CACHE_SIZE_def memcpy_to_def buf_write_def split: prod.splits)
  qed
qed

theorem pcap_boundaries_witness:
  "\<exists>cap. pcap_start True True True True 0 1 = Some cap \<and> pcap_add True 0 (0, 0) cap (replicate 5000 0) 5000 = Some (- 1, cap) \<and>
     pcap_stop True 0 0 cap = Some (- 1, pcap_header 0 1, False)"
proof -
  obtain cap where cap: "pcap_start True True True True 0 1 = Some cap" "pcap_inv 0 1 [] cap"
    using pcap_start_inv by blast
  then show ?thesis using pcap_boundaries [OF cap(2), of 5000 "(0, 0)" "replicate 5000 0"] by simp
qed

end
