(* ===== verification/PathWalk.thy ===== *)
theory PathWalk
  imports FileUtils
begin

text \<open>
  The directory walk (\<open>fs_path_walk()\<close> in \<open>src/file.c\<close>).  \<open>ls p\<close> is what \<open>readdir\<close> yields for the
  directory at path \<open>p\<close>, entry by entry: whether its type is a directory, and its name; \<open>None\<close> when
  \<open>opendir\<close> fails.  Strings are without their terminators here.  The two arrays have a capacity,
  and a write beyond it is \<open>None\<close>; \<open>Inl\<close> is a process that ended.
\<close>

type_synonym listing = "(bool \<times> u8 list) list"

record walk =
  wk_dirs :: "u8 list list"
  wk_dirs_cap :: nat
  wk_files :: "u8 list list"
  wk_files_cap :: nat

definition push_file :: "walk \<Rightarrow> u8 list \<Rightarrow> walk option" where
  "push_file st p =
     (if length (wk_files st) < wk_files_cap st
      then
        let files = wk_files st @ [p]
        in Some (st\<lparr>wk_files := files,
             wk_files_cap := (if length files = wk_files_cap st then wk_files_cap st * 2 else wk_files_cap st)\<rparr>)
      else None)"

definition push_dir :: "walk \<Rightarrow> u8 list \<Rightarrow> walk option" where
  "push_dir st p =
     (if length (wk_dirs st) < wk_dirs_cap st
      then
        let dirs = wk_dirs st @ [p]
        in Some (st\<lparr>wk_dirs := dirs,
             wk_dirs_cap := (if length dirs = wk_dirs_cap st then wk_dirs_cap st * 2 else wk_dirs_cap st)\<rparr>)
      else None)"

definition join_str :: "(nat \<Rightarrow> u8 list option) \<Rightarrow> u8 list \<Rightarrow> u8 list \<Rightarrow> (int + u8 list) option" where
  "join_str malloc p q = do {
     r \<leftarrow> path_join malloc (Some (p @ [0])) (Some (q @ [0]));
     and_then r (\<lambda>s. do { b \<leftarrow> s; s \<leftarrow> c_string b 0; Some (Inr s) })
   }"

fun walk_entries :: "(nat \<Rightarrow> u8 list option) \<Rightarrow> u8 list \<Rightarrow> listing \<Rightarrow> walk \<Rightarrow> (int + walk) option" where
  "walk_entries malloc root1 [] st = Some (Inr st)"
| "walk_entries malloc root1 ((is_dir, name) # es) st =
     (if \<not> is_dir then do {
        r \<leftarrow> join_str malloc root1 name;
        and_then r (\<lambda>p. do { st \<leftarrow> push_file st p; walk_entries malloc root1 es st })
      }
      else if name = [0x2e] \<or> name = [0x2e, 0x2e] then walk_entries malloc root1 es st
      else do {
        r \<leftarrow> join_str malloc root1 name;
        and_then r (\<lambda>p. do { st \<leftarrow> push_dir st p; walk_entries malloc root1 es st })
      })"

partial_function (option) walk_loop ::
    "(nat \<Rightarrow> u8 list option) \<Rightarrow> (u8 list \<Rightarrow> listing option) \<Rightarrow> walk \<Rightarrow> (int + walk) option" where
  "walk_loop malloc ls st =
     (if wk_dirs st = [] then Some (Inr st)
      else
        let root1 = last (wk_dirs st);
            st = st\<lparr>wk_dirs := butlast (wk_dirs st)\<rparr>
        in case ls root1 of
            None \<Rightarrow> Some (Inl 1)
          | Some es \<Rightarrow> do {
              r \<leftarrow> walk_entries malloc root1 es st;
              case r of Inl rc \<Rightarrow> Some (Inl rc) | Inr st \<Rightarrow> walk_loop malloc ls st
            })"

text \<open>The array of paths it returns, with its final NULL.\<close>

definition fs_path_walk ::
    "(nat \<Rightarrow> u8 list option) \<Rightarrow> (u8 list \<Rightarrow> listing option) \<Rightarrow> u8 list \<Rightarrow> (int + u8 list option list) option" where
  "fs_path_walk malloc ls root_dir = do {
     let st = \<lparr> wk_dirs = [root_dir], wk_dirs_cap = 32, wk_files = [], wk_files_cap = 32 \<rparr>;
     r \<leftarrow> walk_loop malloc ls st;
     and_then r (\<lambda>st.
       if length (wk_files st) < wk_files_cap st then Some (Inr (map Some (wk_files st) @ [None])) else None)
   }"

text \<open>Releasing the result: every element up to the NULL is freed, and the array; how many are freed.\<close>

fun fs_path_walk_free :: "u8 list option list \<Rightarrow> nat option" where
  "fs_path_walk_free [] = None"
| "fs_path_walk_free (None # fs) = Some 0"
| "fs_path_walk_free (Some f # fs) = map_option Suc (fs_path_walk_free fs)"

subsection \<open>The tree below a directory\<close>

datatype fs_tree = Leaf | Dir "(u8 list \<times> fs_tree) list"

definition dots :: "bool \<times> u8 list \<Rightarrow> bool" where
  "dots e \<longleftrightarrow> fst e \<and> (snd e = [0x2e] \<or> snd e = [0x2e, 0x2e])"

definition entry_of :: "u8 list \<times> fs_tree \<Rightarrow> bool \<times> u8 list" where
  "entry_of k = (snd k \<noteq> Leaf, fst k)"

text \<open>The file system has the tree \<open>t\<close> at path \<open>p\<close>.\<close>

inductive mounted :: "(u8 list \<Rightarrow> listing option) \<Rightarrow> u8 list \<Rightarrow> fs_tree \<Rightarrow> bool" for ls where
  leaf: "mounted ls p Leaf"
| dir: "ls p = Some es \<Longrightarrow> filter (\<lambda>e. \<not> dots e) es = map entry_of kids \<Longrightarrow>
    (\<And>n t. (n, t) \<in> set kids \<Longrightarrow> 0 \<notin> set n \<and> mounted ls (joined p n) t) \<Longrightarrow> mounted ls p (Dir kids)"

inductive_cases mounted_Dir: "mounted ls p (Dir kids)"

fun files_of :: "u8 list \<Rightarrow> fs_tree \<Rightarrow> u8 list list" where
  "files_of p Leaf = [p]"
| "files_of p (Dir kids) = concat (map (\<lambda>(n, t). files_of (joined p n) t) kids)"

definition malloc_total :: "(nat \<Rightarrow> u8 list option) \<Rightarrow> bool" where
  "malloc_total malloc \<longleftrightarrow> malloc_ok malloc \<and> (\<forall>n. malloc n \<noteq> None)"

lemma joined_no_NUL: "0 \<notin> set p \<Longrightarrow> 0 \<notin> set q \<Longrightarrow> 0 \<notin> set (joined p q)"
  by (auto simp: joined_def PATH_SEP_def)

lemma join_str_total:
  assumes "malloc_total malloc" and "0 \<notin> set p" and "0 \<notin> set q"
  shows "join_str malloc p q = Some (Inr (joined p q))"
proof -
  have ok: "malloc_ok malloc" "\<And>n. malloc n \<noteq> None"
    using assms(1) by (simp_all add: malloc_total_def)
  obtain r where "path_join malloc (Some (p @ [0])) (Some (q @ [0])) = Some (Inr (Some (joined p q @ 0 # r)))"
    using path_join_cases [OF ok(1) assms(2,3), of "[]" "[]"] ok(2) by blast
  then show ?thesis using joined_no_NUL [OF assms(2,3)] by (simp add: join_str_def)
qed

subsection \<open>One directory\<close>

definition walk_ok :: "walk \<Rightarrow> bool" where
  "walk_ok st \<longleftrightarrow> length (wk_files st) < wk_files_cap st \<and> length (wk_dirs st) < wk_dirs_cap st"

lemma push_file_ok:
  "walk_ok st \<Longrightarrow> \<exists>st'. push_file st p = Some st' \<and> walk_ok st' \<and> wk_files st' = wk_files st @ [p] \<and> wk_dirs st' = wk_dirs st"
  by (auto simp: push_file_def walk_ok_def)

lemma push_dir_ok:
  "walk_ok st \<Longrightarrow> \<exists>st'. push_dir st p = Some st' \<and> walk_ok st' \<and> wk_dirs st' = wk_dirs st @ [p] \<and> wk_files st' = wk_files st"
  by (auto simp: push_dir_def walk_ok_def)

fun leaves :: "u8 list \<Rightarrow> (u8 list \<times> fs_tree) list \<Rightarrow> u8 list list" where
  "leaves p [] = []"
| "leaves p ((n, Leaf) # ks) = joined p n # leaves p ks"
| "leaves p ((n, Dir k) # ks) = leaves p ks"

fun sub_dirs :: "u8 list \<Rightarrow> (u8 list \<times> fs_tree) list \<Rightarrow> (u8 list \<times> (u8 list \<times> fs_tree) list) list" where
  "sub_dirs p [] = []"
| "sub_dirs p ((n, Leaf) # ks) = sub_dirs p ks"
| "sub_dirs p ((n, Dir k) # ks) = (joined p n, k) # sub_dirs p ks"

lemma walk_entries_finds:
  assumes "malloc_total malloc" and "0 \<notin> set root1"
  shows "walk_ok st \<Longrightarrow> filter (\<lambda>e. \<not> dots e) es = map entry_of kids \<Longrightarrow> \<forall>k\<in>set kids. 0 \<notin> set (fst k) \<Longrightarrow>
    \<exists>st'. walk_entries malloc root1 es st = Some (Inr st') \<and> walk_ok st' \<and>
      wk_files st' = wk_files st @ leaves root1 kids \<and> wk_dirs st' = wk_dirs st @ map fst (sub_dirs root1 kids)"
proof (induction es arbitrary: kids st)
  case Nil
  then show ?case by simp
next
  case (Cons e es)
  obtain is_dir name where e: "e = (is_dir, name)" by (cases e)
  show ?case
  proof (cases "dots e")
    case True
    then have "is_dir" "name = [0x2e] \<or> name = [0x2e, 0x2e]" using e by (auto simp: dots_def)
    then show ?thesis using Cons True e by simp
  next
    case False
    then obtain n t ks where kids: "kids = (n, t) # ks" "entry_of (n, t) = e" "filter (\<lambda>e. \<not> dots e) es = map entry_of ks"
      using Cons.prems(2) by (cases kids) auto
    have n: "n = name" "is_dir \<longleftrightarrow> t \<noteq> Leaf" using kids(2) e by (auto simp: entry_of_def)
    have join: "join_str malloc root1 name = Some (Inr (joined root1 name))"
      using join_str_total [OF assms] Cons.prems(3) kids(1) n by simp
    have nodots: "\<not> (is_dir \<and> (name = [0x2e] \<or> name = [0x2e, 0x2e]))" using False e by (simp add: dots_def)
    show ?thesis
    proof (cases t)
      case Leaf
      obtain st1 where st1: "push_file st (joined root1 name) = Some st1" "walk_ok st1"
        "wk_files st1 = wk_files st @ [joined root1 name]" "wk_dirs st1 = wk_dirs st"
        using push_file_ok [OF Cons.prems(1)] by blast
      from Cons.IH [OF st1(2) kids(3)] Cons.prems(3) show ?thesis
        using join st1 n Leaf e kids(1) by auto
    next
      case (Dir k)
      obtain st1 where st1: "push_dir st (joined root1 name) = Some st1" "walk_ok st1"
        "wk_dirs st1 = wk_dirs st @ [joined root1 name]" "wk_files st1 = wk_files st"
        using push_dir_ok [OF Cons.prems(1)] by blast
      from Cons.IH [OF st1(2) kids(3)] Cons.prems(3) show ?thesis
        using join st1 n Dir e kids(1) nodots by auto
    qed
  qed
qed

lemma files_of_dir:
  "mset (files_of p (Dir kids)) = mset (leaves p kids) + (\<Sum>(q, k)\<leftarrow>sub_dirs p kids. mset (files_of q (Dir k)))"
  by (induction p kids rule: leaves.induct) auto

fun dirs_in :: "fs_tree \<Rightarrow> nat" where
  "dirs_in Leaf = 0"
| "dirs_in (Dir kids) = Suc (sum_list (map (\<lambda>(n, t). dirs_in t) kids))"

lemma dirs_in_sub: "dirs_in (Dir kids) = Suc (\<Sum>(q, k)\<leftarrow>sub_dirs p kids. dirs_in (Dir k))"
  by (induction p kids rule: leaves.induct) auto

lemma sub_dirs_mem: "(q, k) \<in> set (sub_dirs p kids) \<Longrightarrow> \<exists>n. q = joined p n \<and> (n, Dir k) \<in> set kids"
  by (induction p kids rule: leaves.induct) auto

subsection \<open>All directories\<close>

lemma walk_loop_finds:
  assumes "malloc_total malloc"
  shows "walk_ok st \<Longrightarrow> wk_dirs st = map fst ts \<Longrightarrow> \<forall>(p, k)\<in>set ts. 0 \<notin> set p \<and> mounted ls p (Dir k) \<Longrightarrow>
    \<exists>st'. walk_loop malloc ls st = Some (Inr st') \<and> walk_ok st' \<and>
      mset (wk_files st') = mset (wk_files st) + (\<Sum>(p, k)\<leftarrow>ts. mset (files_of p (Dir k)))"
proof (induction "\<Sum>(p, k)\<leftarrow>ts. dirs_in (Dir k)" arbitrary: st ts rule: less_induct)
  case less
  show ?case
  proof (cases ts rule: rev_cases)
    case Nil
    then show ?thesis using less.prems by (subst walk_loop.simps) simp
  next
    case (snoc ts' pk)
    obtain p kids where pk: "pk = (p, kids)" by (cases pk)
    let ?st = "st\<lparr>wk_dirs := butlast (wk_dirs st)\<rparr>"
    have p: "0 \<notin> set p" "mounted ls p (Dir kids)" using less.prems(3) snoc pk by auto
    obtain es where es: "ls p = Some es" "filter (\<lambda>e. \<not> dots e) es = map entry_of kids"
      and kids: "\<And>n t. (n, t) \<in> set kids \<Longrightarrow> 0 \<notin> set n \<and> mounted ls (joined p n) t"
      using p(2) by (elim mounted_Dir) auto
    have dirs: "wk_dirs st = map fst ts' @ [p]" using less.prems(2) snoc pk by simp
    have "walk_ok ?st" using less.prems(1) dirs by (auto simp: walk_ok_def)
    moreover have "\<forall>k\<in>set kids. 0 \<notin> set (fst k)" using kids by auto
    ultimately obtain st1 where
      st1: "walk_entries malloc p es ?st = Some (Inr st1)" "walk_ok st1" "wk_files st1 = wk_files ?st @ leaves p kids"
        "wk_dirs st1 = wk_dirs ?st @ map fst (sub_dirs p kids)"
      using walk_entries_finds [OF assms p(1) _ es(2)] by blast
    have dirs1: "wk_dirs st1 = map fst (ts' @ sub_dirs p kids)" using st1(4) dirs by simp
    have "(\<Sum>(p, k)\<leftarrow>ts' @ sub_dirs p kids. dirs_in (Dir k)) < (\<Sum>(p, k)\<leftarrow>ts. dirs_in (Dir k))"
      using snoc pk dirs_in_sub [of kids p] by simp
    moreover have "\<forall>(q, k)\<in>set (ts' @ sub_dirs p kids). 0 \<notin> set q \<and> mounted ls q (Dir k)"
    proof (rule ballI, rule case_prodI2)
      fix e q k assume "e \<in> set (ts' @ sub_dirs p kids)" "e = (q, k)"
      then consider "(q, k) \<in> set ts" | n where "q = joined p n" "(n, Dir k) \<in> set kids"
        using snoc sub_dirs_mem [of q k p kids] by auto
      then show "0 \<notin> set q \<and> mounted ls q (Dir k)"
        using less.prems(3) kids joined_no_NUL [OF p(1)] by cases auto
    qed
    ultimately obtain st2 where st2: "walk_loop malloc ls st1 = Some (Inr st2)" "walk_ok st2"
      "mset (wk_files st2) = mset (wk_files st1) + (\<Sum>(p, k)\<leftarrow>ts' @ sub_dirs p kids. mset (files_of p (Dir k)))"
      using less.hyps [OF _ st1(2) dirs1] by blast
    have "walk_loop malloc ls st = walk_loop malloc ls st1"
      using dirs es(1) st1(1) by (subst walk_loop.simps) (simp add: Let_def)
    moreover have "mset (wk_files st2) = mset (wk_files st) + (\<Sum>(p, k)\<leftarrow>ts. mset (files_of p (Dir k)))"
      using st2(3) st1(3) snoc pk files_of_dir [of p kids] by (simp del: files_of.simps)
    ultimately show ?thesis using st2 by auto
  qed
qed

text \<open>C17. The walk of a directory whose files form a finite tree terminates and returns every path
  below it that is not a directory exactly once (symbolic links and special files too), followed
  by NULL; the arrays grow before they are overrun, and \<open>fs_path_walk_free()\<close> frees each path.\<close>

theorem fs_path_walk_complete:
  assumes "malloc_total malloc" and "0 \<notin> set root1" and "mounted ls root1 (Dir kids)"
  shows "\<exists>fs. fs_path_walk malloc ls root1 = Some (Inr (map Some fs @ [None])) \<and>
    mset fs = mset (files_of root1 (Dir kids)) \<and> fs_path_walk_free (map Some fs @ [None]) = Some (length fs)"
proof -
  let ?st = "\<lparr> wk_dirs = [root1], wk_dirs_cap = 32, wk_files = [], wk_files_cap = 32 \<rparr>"
  have "walk_ok ?st" by (simp add: walk_ok_def)
  then obtain st where st: "walk_loop malloc ls ?st = Some (Inr st)" "walk_ok st"
    "mset (wk_files st) = mset (files_of root1 (Dir kids))"
    using walk_loop_finds [OF assms(1), of ?st "[(root1, kids)]" ls] assms(2,3) by auto
  have "fs_path_walk_free (map Some fs @ [None]) = Some (length fs)" for fs :: "u8 list list"
    by (induction fs) auto
  then show ?thesis using st by (auto simp: fs_path_walk_def walk_ok_def)
qed

theorem fs_path_walk_complete_witness:
  "\<exists>fs. fs_path_walk (\<lambda>n. Some (replicate n 0)) (\<lambda>p. if p = [0x61] then Some [(True, [0x2e]), (False, [0x62])] else None) [0x61]
      = Some (Inr (map Some fs @ [None])) \<and> mset fs = {#[0x61, 0x2f, 0x62]#}"
proof -
  have "mounted (\<lambda>p. if p = [0x61] then Some [(True, [0x2e]), (False, [0x62])] else None) [0x61] (Dir [([0x62], Leaf)])"
    by (rule mounted.dir) (auto simp: dots_def entry_of_def intro: mounted.leaf)
  from fs_path_walk_complete [OF _ _ this, of "\<lambda>n. Some (replicate n 0)"] show ?thesis
    by (auto simp: malloc_total_def malloc_ok_def joined_def PATH_SEP_def)
qed

end
