(* ===== verification/FdEvent.thy ===== *)
theory FdEvent
  imports CPrelude
begin

text \<open>
  Descriptor helpers (\<open>src/fdutils.c\<close>) and events on pipes (\<open>src/event.c\<close>).  The kernel is a script:
  the answers its successive \<open>read\<close> or \<open>write\<close> calls on the descriptor give.  A call for which the
  script has no answer blocks for ever, which is \<open>None\<close>.
\<close>

datatype errno = EINTR | EAGAIN | EOTHER

datatype sys_result = Done nat | Failed errno

fun read_loop :: "sys_result list \<Rightarrow> (int \<times> sys_result list) option" where
  "read_loop [] = None"
| "read_loop (Done n # ks) = Some (int n, ks)"
| "read_loop (Failed e # ks) =
     (if e = EINTR then read_loop ks
      else if e \<noteq> EAGAIN then Some (- 1, ks)
      else Some (0, ks))"

fun write_loop :: "sys_result list \<Rightarrow> (int \<times> sys_result list) option" where
  "write_loop [] = None"
| "write_loop (Done n # ks) = Some (int n, ks)"
| "write_loop (Failed e # ks) =
     (if e = EINTR then write_loop ks
      else if e \<noteq> EAGAIN then Some (- 1, ks)
      else Some (0, ks))"

text \<open>The buffer of \<open>flush_fd()\<close> has 64 bytes; \<open>ret\<close> accumulates whether anything was read.\<close>

fun flush_loop :: "sys_result list \<Rightarrow> bool \<Rightarrow> (bool \<times> sys_result list) option" where
  "flush_loop [] ret = None"
| "flush_loop (Done n # ks) ret =
     (let ret = (ret \<or> n > 0) in if n = 64 then flush_loop ks ret else Some (ret, ks))"
| "flush_loop (Failed e # ks) ret = (if e = EINTR then flush_loop ks ret else Some (ret, ks))"

definition flush_fd :: "sys_result list \<Rightarrow> (bool \<times> sys_result list) option" where
  "flush_fd ks = flush_loop ks False"

text \<open>\<open>fcntl_setfl()\<close>: the flags the descriptor has, or failure; whether setting them succeeds.\<close>

definition fcntl_setfl :: "int option \<Rightarrow> (int \<Rightarrow> bool) \<Rightarrow> int \<Rightarrow> int \<times> int option" where
  "fcntl_setfl flags setfl_ok flag =
     (case flags of
        None \<Rightarrow> (- 1, None)
      | Some fl \<Rightarrow> if \<not> setfl_ok (or fl flag) then (- 1, Some fl) else (0, Some (or fl flag)))"

subsection \<open>The wrappers\<close>

text \<open>What a call returns once interrupted calls are left out.\<close>

definition not_interrupted :: "sys_result list \<Rightarrow> sys_result list" where
  "not_interrupted ks = filter (\<lambda>k. k \<noteq> Failed EINTR) ks"

lemma read_loop_skips: "map_option fst (read_loop ks) = map_option fst (read_loop (not_interrupted ks))"
  by (induction ks rule: read_loop.induct) (auto simp: not_interrupted_def)

lemma write_is_read_loop: "write_loop ks = read_loop ks"
  by (induction ks rule: read_loop.induct) auto

lemma read_loop_result:
  "not_interrupted ks = k # ks' \<Longrightarrow> map_option fst (read_loop ks)
     = Some (case k of Done n \<Rightarrow> int n | Failed e \<Rightarrow> if e = EAGAIN then 0 else - 1)"
  by (subst read_loop_skips) (cases k; auto simp: not_interrupted_def filter_eq_Cons_iff)

subsection \<open>Pipes and events\<close>

text \<open>
  A pipe with \<open>n\<close> unread bytes answers 64-byte reads with full buffers, then with the remainder if
  there is one; what follows blocks or fails with \<open>EAGAIN\<close>.
\<close>

definition pipe_reads :: "bool \<Rightarrow> nat \<Rightarrow> sys_result list" where
  "pipe_reads blocking n =
     replicate (n div 64) (Done 64) @ (if n mod 64 = 0 then [] else [Done (n mod 64)]) @
     (if blocking then [] else [Failed EAGAIN])"

lemma flush_loop_full: "flush_loop (replicate k (Done 64) @ ks) ret = flush_loop ks (ret \<or> 0 < k)"
  by (induction k arbitrary: ret) auto

lemma flush_pipe:
  "map_option fst (flush_fd (pipe_reads blocking n)) =
     (if blocking \<and> n mod 64 = 0 then None else Some (0 < n))"
proof -
  have "n mod 64 < 64" by simp
  then have "n mod 64 \<noteq> 64" by linarith
  moreover have "0 < n div 64 \<longleftrightarrow> 64 \<le> n" by (simp add: div_greater_zero_iff)
  moreover have "n mod 64 = 0 \<Longrightarrow> 0 < n \<longleftrightarrow> 64 \<le> n" by (cases "n < 64") auto
  ultimately show ?thesis
    by (auto simp: flush_fd_def pipe_reads_def flush_loop_full)
qed

text \<open>\<open>ev_pending\<close> are the bytes in the pipe, \<open>ev_capacity\<close> what it can take: \<open>pipe(7)\<close>, 65536 bytes on Linux.\<close>

record event =
  ev_open :: bool
  ev_blocking :: bool
  ev_capacity :: nat
  ev_pending :: nat
  ev_initialized :: bool

text \<open>
  \<open>event_init()\<close>: whether \<open>pipe\<close> and the two \<open>fcntl_setfl\<close> calls succeed is the kernel's choice.  On
  failure both ends are closed and the event keeps its fields.
\<close>

definition event_write :: "event \<Rightarrow> sys_result list \<Rightarrow> (int \<times> event) option" where
  "event_write e ks = map_option (\<lambda>(r, _). (r, e\<lparr>ev_pending := ev_pending e + nat r\<rparr>)) (write_loop ks)"

definition event_set :: "event \<Rightarrow> sys_result list \<Rightarrow> (bool \<times> event) option" where
  "event_set e ks =
     (if \<not> ev_initialized e then Some (False, e)
      else do {
        (ret, e) \<leftarrow> event_write e ks;
        Some (\<not> ret < 0, e)
      })"

definition event_init :: "event \<Rightarrow> nat \<Rightarrow> bool \<Rightarrow> bool \<Rightarrow> bool \<Rightarrow> sys_result list \<Rightarrow> bool \<Rightarrow> bool \<Rightarrow> (int \<times> event) option" where
  "event_init e capacity pipe_ok setfl0_ok setfl1_ok ks active blocking =
     (if \<not> pipe_ok then Some (- 1, e)
      else if \<not> blocking \<and> \<not> setfl0_ok then Some (- 1, e)
      else if \<not> blocking \<and> \<not> setfl1_ok then Some (- 1, e)
      else
        let e = \<lparr> ev_open = True, ev_blocking = blocking, ev_capacity = capacity, ev_pending = 0, ev_initialized = True \<rparr>
        in if active then do { (_, e) \<leftarrow> event_set e ks; Some (0, e) } else Some (0, e))"

definition event_cleanup :: "event \<Rightarrow> event" where
  "event_cleanup e =
     (if \<not> ev_initialized e then e else e\<lparr>ev_open := False, ev_pending := 0, ev_initialized := False\<rparr>)"

definition event_is_set :: "event \<Rightarrow> (bool \<times> event) option" where
  "event_is_set e =
     (if \<not> ev_initialized e then Some (False, e)
      else do {
        (r, _) \<leftarrow> flush_fd (pipe_reads (ev_blocking e) (ev_pending e));
        Some (r, e\<lparr>ev_pending := 0\<rparr>)
      })"

subsection \<open>Setting and testing\<close>

text \<open>
  What a pipe answers to a write of 8 bytes, which it takes as a whole or not at all: a full pipe
  blocks the writer, or fails with \<open>EAGAIN\<close>.
\<close>

definition pipe_writes :: "event \<Rightarrow> sys_result list" where
  "pipe_writes e =
     (if ev_pending e + 8 \<le> ev_capacity e then [Done 8] else if ev_blocking e then [] else [Failed EAGAIN])"

text \<open>\<open>event_set()\<close> on its pipe.  A signal that a full pipe has refused is reported as a success.\<close>

abbreviation signal :: "event \<Rightarrow> (bool \<times> event) option" where
  "signal e \<equiv> event_set e (pipe_writes e)"

lemma signal_result:
  "ev_initialized e \<Longrightarrow> signal e =
     (if ev_pending e + 8 \<le> ev_capacity e then Some (True, e\<lparr>ev_pending := ev_pending e + 8\<rparr>)
      else if ev_blocking e then None else Some (True, e))"
  by (simp add: event_set_def event_write_def pipe_writes_def)

fun signals :: "nat \<Rightarrow> event \<Rightarrow> event option" where
  "signals 0 e = Some e"
| "signals (Suc k) e = do { (ok, e) \<leftarrow> signal e; if ok then signals k e else None }"

text \<open>As many signals as fit into the pipe, and more than that.\<close>

lemma signals_fit:
  "ev_initialized e \<Longrightarrow> ev_pending e + 8 * k \<le> ev_capacity e \<Longrightarrow> signals k e = Some (e\<lparr>ev_pending := ev_pending e + 8 * k\<rparr>)"
  by (induction k arbitrary: e) (simp_all add: signal_result algebra_simps)

lemma signals_block:
  "ev_initialized e \<Longrightarrow> ev_blocking e \<Longrightarrow> 0 < k \<Longrightarrow> ev_capacity e < ev_pending e + 8 * k \<Longrightarrow> signals k e = None"
proof (induction k arbitrary: e)
  case (Suc k)
  let ?e = "e\<lparr>ev_pending := ev_pending e + 8\<rparr>"
  show ?case
  proof (cases "ev_pending e + 8 \<le> ev_capacity e")
    case True
    then have "0 < k" using Suc.prems(4) by (cases k) simp_all
    then have "signals k ?e = None" using Suc.IH [of ?e] Suc.prems by simp
    with True Suc.prems(1) show ?thesis by (simp add: signal_result)
  qed (use Suc.prems in \<open>simp add: signal_result\<close>)
qed simp

lemma signals_dropped:
  "ev_initialized e \<Longrightarrow> \<not> ev_blocking e \<Longrightarrow> ev_capacity e < ev_pending e + 8 \<Longrightarrow> signals k e = Some e"
  by (induction k) (simp_all add: signal_result)

lemma signals_append: "signals (k + l) e = signals k e \<bind> signals l"
  by (induction k arbitrary: e) (auto split: bind_splits)

lemma signals_non_blocking:
  assumes "ev_initialized e" "\<not> ev_blocking e" "ev_pending e = 0"
  shows "signals k e = Some (e\<lparr>ev_pending := 8 * min k (ev_capacity e div 8)\<rparr>)"
proof (cases "8 * k \<le> ev_capacity e")
  case True
  then have "min k (ev_capacity e div 8) = k" by simp
  with assms True signals_fit [of e k] show ?thesis by simp
next
  case False
  let ?m = "ev_capacity e div 8"
  have k: "k = ?m + (k - ?m)" and m: "min k ?m = ?m" using False by simp_all
  have "8 * ?m \<le> ev_capacity e" "ev_capacity e < 8 * ?m + 8" by presburger+
  then have "signals ?m e \<bind> signals (k - ?m) = Some (e\<lparr>ev_pending := 8 * ?m\<rparr>)"
    using assms signals_fit [of e ?m] signals_dropped [of "e\<lparr>ev_pending := 8 * ?m\<rparr>" "k - ?m"] by simp
  with k m show ?thesis by (metis signals_append)
qed

lemma event_is_set_pending:
  "ev_initialized e \<Longrightarrow> event_is_set e =
     (if ev_blocking e \<and> ev_pending e mod 64 = 0 then None
      else Some (0 < ev_pending e, e\<lparr>ev_pending := 0\<rparr>))"
  using flush_pipe [of "ev_blocking e" "ev_pending e"]
  by (cases "flush_fd (pipe_reads (ev_blocking e) (ev_pending e))") (auto simp: event_is_set_def split: if_splits)

text \<open>
  One read of the loop of \<open>flush_fd()\<close> on a blocking event, for threads that interleave with it: the
  bytes read, at most 64; it waits while there are none.
\<close>

definition event_read :: "event \<Rightarrow> (nat \<times> event) option" where
  "event_read e = (if ev_pending e = 0 then None
     else Some (min 64 (ev_pending e), e\<lparr>ev_pending := ev_pending e - min 64 (ev_pending e)\<rparr>))"

lemma event_read_first:
  "ev_blocking e \<Longrightarrow> pipe_reads (ev_blocking e) (ev_pending e) =
     (case event_read e of None \<Rightarrow> [] | Some (n, e') \<Rightarrow> Done n # pipe_reads (ev_blocking e') (ev_pending e'))"
proof (cases "64 \<le> ev_pending e")
  case True
  assume "ev_blocking e"
  have "ev_pending e div 64 = Suc ((ev_pending e - 64) div 64)" "ev_pending e mod 64 = (ev_pending e - 64) mod 64"
    using True by (simp_all add: le_div_geq le_mod_geq)
  with True \<open>ev_blocking e\<close> show ?thesis by (simp add: event_read_def pipe_reads_def)
qed (auto simp: event_read_def pipe_reads_def)

text \<open>
  C24.  Signals coalesce, as long as the pipe takes them: after \<open>k\<close> signals \<open>event_is_set()\<close> reports
  whether there was one and forgets them all, and a second test on a non-blocking event finds
  nothing.  On a non-blocking event this holds for any \<open>k\<close>, since signals a full pipe refuses are
  dropped.  On a blocking event a signal that finds the pipe full does not return; and the test does
  not return when \<open>k\<close> is a multiple of 8, because the eighth signal fills the 64-byte buffer of
  \<open>flush_fd()\<close>, which then waits for more.
\<close>

theorem event_signals_coalesce:
  assumes "ev_initialized e" and "ev_pending e = 0" and "8 \<le> ev_capacity e"
  shows "signals k e \<bind> event_is_set =
      (if ev_blocking e \<and> (8 dvd k \<or> ev_capacity e < 8 * k) then None else Some (0 < k, e)) \<and>
    (ev_blocking e \<and> ev_capacity e < 8 * k \<longrightarrow> signals k e = None) \<and>
    (\<not> ev_blocking e \<longrightarrow> do { e \<leftarrow> signals k e; (r, e) \<leftarrow> event_is_set e; event_is_set e } = Some (False, e))"
proof (cases "ev_blocking e")
  case True
  have "8 * k mod 64 = 0 \<longleftrightarrow> 8 dvd k" by presburger
  moreover have "e\<lparr>ev_pending := 0\<rparr> = e" using assms(2) by simp
  ultimately show ?thesis
    using True assms signals_block [of e k] signals_fit [of e k]
    by (cases "ev_capacity e < 8 * k") (auto simp: event_is_set_pending)
next
  case False
  moreover have "e\<lparr>ev_pending := 0\<rparr> = e" using assms(2) by simp
  moreover have "0 < min k (ev_capacity e div 8) \<longleftrightarrow> 0 < k" using assms(3) by (simp add: div_greater_zero_iff)
  ultimately show ?thesis
    using assms signals_non_blocking [of e k] by (simp add: event_is_set_pending)
qed

text \<open>Eight signals on a Linux pipe, and one signal more than it takes.\<close>

theorem event_signals_coalesce_witness:
  "let e = \<lparr> ev_open = True, ev_blocking = True, ev_capacity = 65536, ev_pending = 0, ev_initialized = True \<rparr>
   in signals 8 e \<bind> event_is_set = None \<and> signals 9 e \<bind> event_is_set = Some (True, e) \<and> signals 8193 e = None"
proof -
  let ?e = "\<lparr> ev_open = True, ev_blocking = True, ev_capacity = 65536, ev_pending = 0, ev_initialized = True \<rparr>"
  have "\<not> 8 dvd (9 :: nat)" by simp
  with event_signals_coalesce [of ?e 8] event_signals_coalesce [of ?e 9] event_signals_coalesce [of ?e 8193]
  show ?thesis unfolding Let_def by (simp del: signals.simps)
qed

end
