(* ===== verification/WorkQueue.thy ===== *)
theory WorkQueue
  imports FdEvent
begin

text \<open>
  The work queue (\<open>src/workqueue.c\<close>): worker threads that take work items from a shared backlog.
  A work item is an index into the table of items; the backlog is the list of the items in it, as
  the queue of \<open>src/queue.c\<close> keeps it.  Threads interleave: a step of a thread makes one access to
  what others use, or is what it does under the lock.  A work function is its effect here: the step
  that ends it chooses the result.  \<open>wq_log\<close> records, for the statements only, when a work function
  ran to its end, when a worker marked an item as complete, and when it called \<open>complete_fn\<close>.
\<close>

datatype work_status = WQ_WORK_NEW | WQ_WORK_QUEUED | WQ_WORK_IN_PROGRESS | WQ_WORK_COMPLETE

text \<open>\<open>w_complete_fn\<close>: whether the item has a completion callback.\<close>

record work =
  w_slice :: u64
  w_status :: work_status
  w_requests :: u32
  w_complete_fn :: bool

datatype worker_state = WQ_WORKER_STATE_OFFLINE | WQ_WORKER_STATE_IDLE | WQ_WORKER_STATE_RUNNING

text \<open>
  Where a thread is in \<open>wakeup_first_free_worker()\<close>: about to look at a worker's state, or inside
  \<open>event_set()\<close> for the worker it has seen idle.
\<close>

datatype waker = Looking nat | Setting nat

text \<open>
  Where a worker thread is in \<open>workqueue_factory()\<close>.  \<open>complete_work()\<close> has two call sites; after the
  first the item is run, after the second the next item is fetched.
\<close>

datatype after = RunIt | FetchNext

datatype pc =
    Starting
  | Waiting
  | Woken
  | Fetching
  | Fetched nat
  | Completing nat after
  | Reporting nat after
  | Marking nat
  | Working nat
  | Ended nat int
  | Deciding nat int
  | Requeueing nat
  | Waking waker
  | Leaving

record worker =
  wr_state :: worker_state
  wr_event :: event
  wr_pc :: pc

text \<open>Where the client thread is: between calls, or in \<open>put_backlog()\<close> before or after the enqueueing.\<close>

datatype client = Ready | Adding nat | Alerting waker

datatype entry = Ran nat | Completed nat | Called nat

record workqueue =
  wq_works :: "nat \<Rightarrow> work"
  wq_backlog :: "nat list"
  wq_count :: int
  wq_workers :: "worker list"
  wq_client :: client
  wq_log :: "entry list"

text \<open>What a work function may return.\<close>

definition WORK_ERR :: int where "WORK_ERR = - 1"
definition WORK_DONE :: int where "WORK_DONE = 0"
definition WORK_YIELD :: int where "WORK_YIELD = 1"

definition WQ_REQ_CANCEL_WORK :: u32 where
  "WQ_REQ_CANCEL_WORK = 1"

definition cancelled :: "workqueue \<Rightarrow> nat \<Rightarrow> bool" where
  "cancelled wq w \<longleftrightarrow> w_requests (wq_works wq w) AND WQ_REQ_CANCEL_WORK \<noteq> 0"

definition set_status :: "workqueue \<Rightarrow> nat \<Rightarrow> work_status \<Rightarrow> workqueue" where
  "set_status wq w st = wq\<lparr>wq_works := (wq_works wq)(w := (wq_works wq w)\<lparr>w_status := st\<rparr>)\<rparr>"

text \<open>
  \<open>wakeup_first_free_worker()\<close>, one access at a time: the states of the workers are looked at in turn,
  and the first that is idle is signalled.  \<open>None\<close>: the writer waits because the pipe is full.
\<close>

definition wakeup_first_free_worker :: "waker \<Rightarrow> worker list \<Rightarrow> (waker option \<times> worker list) option" where
  "wakeup_first_free_worker k ws = (case k of
       Looking i \<Rightarrow>
         Some (if length ws \<le> i then None
               else if wr_state (ws ! i) = WQ_WORKER_STATE_IDLE then Some (Setting i)
               else Some (Looking (i + 1)), ws)
     | Setting i \<Rightarrow> map_option (\<lambda>(_, e). (None, ws[i := (ws ! i)\<lparr>wr_event := e\<rparr>])) (signal (wr_event (ws ! i))))"

text \<open>\<open>complete_work()\<close> marks the item, then calls its callback if it has one.\<close>

definition complete_work :: "workqueue \<Rightarrow> nat \<Rightarrow> workqueue" where
  "complete_work wq w = (set_status wq w WQ_WORK_COMPLETE)\<lparr>wq_log := wq_log wq @ [Completed w]\<rparr>"

definition call_complete_fn :: "workqueue \<Rightarrow> nat \<Rightarrow> workqueue" where
  "call_complete_fn wq w = (if w_complete_fn (wq_works wq w) then wq\<lparr>wq_log := wq_log wq @ [Called w]\<rparr> else wq)"

text \<open>\<open>do_work()\<close> calls the function, then adds the \<open>ticks\<close> it took.\<close>

definition do_work :: "workqueue \<Rightarrow> nat \<Rightarrow> workqueue" where
  "do_work wq w = wq\<lparr>wq_log := wq_log wq @ [Ran w]\<rparr>"

definition add_slice :: "workqueue \<Rightarrow> nat \<Rightarrow> u64 \<Rightarrow> workqueue" where
  "add_slice wq w ticks =
     wq\<lparr>wq_works := (wq_works wq)(w := (wq_works wq w)\<lparr>w_slice := w_slice (wq_works wq w) + ticks\<rparr>)\<rparr>"

definition get_backlog :: "workqueue \<Rightarrow> nat option \<times> workqueue" where
  "get_backlog wq = (case wq_backlog wq of
       [] \<Rightarrow> (None, wq)
     | w # ws \<Rightarrow> (Some w, wq\<lparr>wq_backlog := ws, wq_count := wq_count wq - 1\<rparr>))"

text \<open>What \<open>put_backlog()\<close> does under the lock.  The waking follows, without it.\<close>

definition put_backlog :: "workqueue \<Rightarrow> nat \<Rightarrow> workqueue" where
  "put_backlog wq w = wq\<lparr>wq_backlog := wq_backlog wq @ [w], wq_count := wq_count wq + 1\<rparr>"

definition flush_backlog :: "workqueue \<Rightarrow> workqueue" where
  "flush_backlog wq = fold (\<lambda>w wq. (set_status wq w WQ_WORK_COMPLETE)\<lparr>wq_count := wq_count wq - 1\<rparr>)
     (wq_backlog wq) (wq\<lparr>wq_backlog := []\<rparr>)"

text \<open>
  \<open>event_init(&w->event, false, true)\<close>: a blocking event, not signalled.  Memory, threads and pipes can
  be had here; \<open>capacity\<close> is that of a pipe.
\<close>

definition workqueue_create :: "nat \<Rightarrow> (nat \<Rightarrow> work) \<Rightarrow> nat \<Rightarrow> workqueue" where
  "workqueue_create capacity works num_workers =
     \<lparr> wq_works = works, wq_backlog = [], wq_count = 0,
       wq_workers = replicate num_workers
         \<lparr> wr_state = WQ_WORKER_STATE_OFFLINE,
           wr_event = \<lparr> ev_open = True, ev_blocking = True, ev_capacity = capacity, ev_pending = 0, ev_initialized = True \<rparr>,
           wr_pc = Starting \<rparr>,
       wq_client = Ready, wq_log = [] \<rparr>"

text \<open>The item is reset and marked as queued; \<open>put_backlog()\<close> is next.\<close>

definition workqueue_add_work :: "workqueue \<Rightarrow> nat \<Rightarrow> workqueue" where
  "workqueue_add_work wq w = wq\<lparr>wq_works := (wq_works wq)(w := (wq_works wq w)
     \<lparr>w_slice := 0, w_requests := 0, w_status := WQ_WORK_QUEUED\<rparr>), wq_client := Adding w\<rparr>"

definition workqueue_backlog_count :: "workqueue \<Rightarrow> int" where
  "workqueue_backlog_count wq = wq_count wq"

definition workqueue_cancel_work :: "workqueue \<Rightarrow> nat \<Rightarrow> workqueue" where
  "workqueue_cancel_work wq w = wq\<lparr>wq_works := (wq_works wq)(w := (wq_works wq w)
     \<lparr>w_requests := w_requests (wq_works wq w) OR WQ_REQ_CANCEL_WORK\<rparr>)\<rparr>"

definition workqueue_work_is_complete :: "workqueue \<Rightarrow> nat \<Rightarrow> bool" where
  "workqueue_work_is_complete wq w \<longleftrightarrow> w_status (wq_works wq w) = WQ_WORK_COMPLETE"

text \<open>
  \<open>workqueue_destroy()\<close> flushes the backlog, cancels each thread wherever it is, releases its event and
  frees the workers without waiting for them.  The second result is where each thread was.
\<close>

definition workqueue_destroy :: "workqueue \<Rightarrow> workqueue \<times> (pc \<times> event) list" where
  "workqueue_destroy wq =
     (let wq = flush_backlog wq
      in (wq\<lparr>wq_workers := []\<rparr>, map (\<lambda>w. (wr_pc w, event_cleanup (wr_event w))) (wq_workers wq)))"

subsection \<open>Threads\<close>

definition set_worker :: "workqueue \<Rightarrow> nat \<Rightarrow> worker \<Rightarrow> workqueue" where
  "set_worker wq i t = wq\<lparr>wq_workers := (wq_workers wq)[i := t]\<rparr>"

definition set_pc :: "workqueue \<Rightarrow> nat \<Rightarrow> pc \<Rightarrow> workqueue" where
  "set_pc wq i p = set_worker wq i ((wq_workers wq ! i)\<lparr>wr_pc := p\<rparr>)"

text \<open>
  What a step does to the backlog and to the nodes that link it, for the statements.  \<open>Cleared\<close>: a user of the
  queue overwrites an item with zeros.
\<close>

datatype backlog_act = Other | Dequeued "nat option" | Enqueued nat | Cleared nat

text \<open>
  The next step of worker \<open>i\<close>; \<open>None\<close> when it has to wait.  \<open>rc\<close> is what a work function that ends
  returns, \<open>ticks\<close> how long it took.  The worker waits inside the loop of \<open>flush_fd()\<close>, which reads on as long
  as it gets 64 bytes.
\<close>

definition workqueue_factory :: "nat \<Rightarrow> int \<Rightarrow> u64 \<Rightarrow> workqueue \<Rightarrow> (backlog_act \<times> workqueue) option" where
  "workqueue_factory i rc ticks wq =
     (let t = wq_workers wq ! i
      in case wr_pc t of
          Starting \<Rightarrow> Some (Other, set_worker wq i (t\<lparr>wr_state := WQ_WORKER_STATE_IDLE, wr_pc := Waiting\<rparr>))
        | Waiting \<Rightarrow>
            map_option (\<lambda>(n, e). (Other, set_worker wq i (t\<lparr>wr_event := e, wr_pc := (if n = 64 then Waiting else Woken)\<rparr>)))
              (event_read (wr_event t))
        | Woken \<Rightarrow> Some (Other, set_worker wq i (t\<lparr>wr_state := WQ_WORKER_STATE_RUNNING, wr_pc := Fetching\<rparr>))
        | Fetching \<Rightarrow> (case get_backlog wq of
              (None, wq) \<Rightarrow> Some (Dequeued None, set_pc wq i Leaving)
            | (Some w, wq) \<Rightarrow> Some (Dequeued (Some w), set_pc wq i (Fetched w)))
        | Fetched w \<Rightarrow> Some (Other, set_pc wq i (if cancelled wq w then Completing w RunIt else Marking w))
        | Completing w a \<Rightarrow> Some (Other, set_pc (complete_work wq w) i (Reporting w a))
        | Reporting w a \<Rightarrow>
            Some (Other, set_pc (call_complete_fn wq w) i (case a of RunIt \<Rightarrow> Marking w | FetchNext \<Rightarrow> Fetching))
        | Marking w \<Rightarrow> Some (Other, set_pc (set_status wq w WQ_WORK_IN_PROGRESS) i (Working w))
        | Working w \<Rightarrow> Some (Other, set_pc (do_work wq w) i (Ended w rc))
        | Ended w r \<Rightarrow> Some (Other, set_pc (add_slice wq w ticks) i (Deciding w r))
        | Deciding w r \<Rightarrow>
            Some (Other, set_pc wq i (if r \<le> 0 \<or> cancelled wq w then Completing w FetchNext else Requeueing w))
        | Requeueing w \<Rightarrow> Some (Enqueued w, set_pc (put_backlog wq w) i (Waking (Looking 0)))
        | Waking k \<Rightarrow>
            map_option (\<lambda>(k, ws). (Other, set_pc (wq\<lparr>wq_workers := ws\<rparr>) i (case k of None \<Rightarrow> Fetching | Some k \<Rightarrow> Waking k)))
              (wakeup_first_free_worker k (wq_workers wq))
        | Leaving \<Rightarrow> Some (Other, set_worker wq i (t\<lparr>wr_state := WQ_WORKER_STATE_IDLE, wr_pc := Waiting\<rparr>)))"

inductive worker_act :: "workqueue \<Rightarrow> backlog_act \<Rightarrow> workqueue \<Rightarrow> bool" where
  act: "i < length (wq_workers wq) \<Longrightarrow> workqueue_factory i rc ticks wq = Some (a, wq') \<Longrightarrow> worker_act wq a wq'"

definition worker_step :: "workqueue \<Rightarrow> workqueue \<Rightarrow> bool" where
  "worker_step wq wq' \<longleftrightarrow> (\<exists>a. worker_act wq a wq')"

text \<open>The next step of the client inside \<open>put_backlog()\<close>.\<close>

definition client_put :: "workqueue \<Rightarrow> (backlog_act \<times> workqueue) option" where
  "client_put wq = (case wq_client wq of
       Ready \<Rightarrow> None
     | Adding w \<Rightarrow> Some (Enqueued w, (put_backlog wq w)\<lparr>wq_client := Alerting (Looking 0)\<rparr>)
     | Alerting k \<Rightarrow>
         map_option (\<lambda>(k, ws). (Other, wq\<lparr>wq_workers := ws, wq_client := (case k of None \<Rightarrow> Ready | Some k \<Rightarrow> Alerting k)\<rparr>))
           (wakeup_first_free_worker k (wq_workers wq)))"

text \<open>A client adds an item that is new or that it has seen complete, or asks for a cancellation.\<close>

inductive client_act :: "bool \<Rightarrow> workqueue \<Rightarrow> backlog_act \<Rightarrow> workqueue \<Rightarrow> bool" for may_cancel where
  add: "wq_client wq = Ready \<Longrightarrow> w_status (wq_works wq w) = WQ_WORK_NEW \<or> workqueue_work_is_complete wq w \<Longrightarrow>
    client_act may_cancel wq Other (workqueue_add_work wq w)"
| put: "client_put wq = Some (a, wq') \<Longrightarrow> client_act may_cancel wq a wq'"
| cancel: "may_cancel \<Longrightarrow> wq_client wq = Ready \<Longrightarrow> client_act may_cancel wq Other (workqueue_cancel_work wq w)"

definition wq_step :: "bool \<Rightarrow> workqueue \<Rightarrow> workqueue \<Rightarrow> bool" where
  "wq_step may_cancel wq wq' \<longleftrightarrow> (\<exists>a. worker_act wq a wq' \<or> client_act may_cancel wq a wq')"

subsection \<open>Where the items are\<close>

text \<open>
  The item a worker has in its hands; the item it has run and not completed or put back yet; the item it has
  marked as complete and not reported yet; and the item whose cancellation it deals with.
\<close>

fun holds :: "pc \<Rightarrow> nat option" where
  "holds (Fetched w) = Some w"
| "holds (Completing w a) = Some w"
| "holds (Reporting w a) = (if a = RunIt then Some w else None)"
| "holds (Marking w) = Some w"
| "holds (Working w) = Some w"
| "holds (Ended w r) = Some w"
| "holds (Deciding w r) = Some w"
| "holds (Requeueing w) = Some w"
| "holds p = None"

fun has_run :: "pc \<Rightarrow> nat option" where
  "has_run (Completing w a) = (if a = FetchNext then Some w else None)"
| "has_run (Ended w r) = Some w"
| "has_run (Deciding w r) = Some w"
| "has_run (Requeueing w) = Some w"
| "has_run p = None"

fun will_report :: "pc \<Rightarrow> nat option" where
  "will_report (Reporting w a) = Some w"
| "will_report p = None"

fun cancelling :: "pc \<Rightarrow> nat option" where
  "cancelling (Completing w a) = (if a = RunIt then Some w else None)"
| "cancelling (Reporting w a) = (if a = RunIt then Some w else None)"
| "cancelling p = None"

text \<open>How many workers hold an item, and so on.\<close>

definition num :: "(pc \<Rightarrow> nat option) \<Rightarrow> nat \<Rightarrow> worker list \<Rightarrow> nat" where
  "num h w ws = length (filter (\<lambda>t. h (wr_pc t) = Some w) ws)"

definition active :: "workqueue \<Rightarrow> nat \<Rightarrow> bool" where
  "active wq w \<longleftrightarrow> w_status (wq_works wq w) \<in> {WQ_WORK_QUEUED, WQ_WORK_IN_PROGRESS}"

text \<open>
  Without cancellations, for each item: it is in exactly one place, the backlog or the hands of one thread,
  while it is queued or in progress, and nowhere otherwise; it is completed at most as often as it
  has run; an item that is complete has been completed by a worker; and what was completed has been
  reported, or the worker that completed it is about to.
\<close>

definition item_ok :: "workqueue \<Rightarrow> nat \<Rightarrow> bool" where
  "item_ok wq w \<longleftrightarrow>
     count_list (wq_backlog wq) w + num holds w (wq_workers wq) + of_bool (wq_client wq = Adding w) = (if active wq w then 1 else 0) \<and>
     \<not> cancelled wq w \<and> num cancelling w (wq_workers wq) = 0 \<and>
     count_list (wq_log wq) (Completed w) + num has_run w (wq_workers wq) \<le> count_list (wq_log wq) (Ran w) \<and>
     (workqueue_work_is_complete wq w \<longrightarrow> Completed w \<in> set (wq_log wq)) \<and>
     (if w_complete_fn (wq_works wq w)
      then count_list (wq_log wq) (Called w) + num will_report w (wq_workers wq) = count_list (wq_log wq) (Completed w)
      else count_list (wq_log wq) (Called w) = 0)"

definition wq_inv :: "workqueue \<Rightarrow> bool" where
  "wq_inv wq \<longleftrightarrow> wq_count wq = int (length (wq_backlog wq)) \<and> (\<forall>w. item_ok wq w)"

lemmas wq_ops = set_status_def complete_work_def call_complete_fn_def do_work_def add_slice_def put_backlog_def
  cancelled_def active_def workqueue_work_is_complete_def workqueue_add_work_def

lemma wq_same [simp]:
  "active (wq\<lparr>wq_backlog := b\<rparr>) w = active wq w" "active (wq\<lparr>wq_count := c\<rparr>) w = active wq w"
  "active (wq\<lparr>wq_workers := ws\<rparr>) w = active wq w" "active (wq\<lparr>wq_client := k\<rparr>) w = active wq w"
  "active (wq\<lparr>wq_log := l\<rparr>) w = active wq w"
  "cancelled (wq\<lparr>wq_backlog := b\<rparr>) w = cancelled wq w" "cancelled (wq\<lparr>wq_count := c\<rparr>) w = cancelled wq w"
  "cancelled (wq\<lparr>wq_workers := ws\<rparr>) w = cancelled wq w" "cancelled (wq\<lparr>wq_client := k\<rparr>) w = cancelled wq w"
  "workqueue_work_is_complete (wq\<lparr>wq_backlog := b\<rparr>) w = workqueue_work_is_complete wq w"
  "workqueue_work_is_complete (wq\<lparr>wq_count := c\<rparr>) w = workqueue_work_is_complete wq w"
  "workqueue_work_is_complete (wq\<lparr>wq_workers := ws\<rparr>) w = workqueue_work_is_complete wq w"
  "workqueue_work_is_complete (wq\<lparr>wq_client := k\<rparr>) w = workqueue_work_is_complete wq w"
  by (simp_all add: active_def cancelled_def workqueue_work_is_complete_def)

lemma wq_invD: "wq_inv wq \<Longrightarrow> item_ok wq w"
  by (simp add: wq_inv_def)

lemma item_place:
  "wq_inv wq \<Longrightarrow>
     count_list (wq_backlog wq) w + num holds w (wq_workers wq) + of_bool (wq_client wq = Adding w) = (if active wq w then 1 else 0)"
  using wq_invD [of wq w] by (simp add: item_ok_def)

lemma wq_inv_uncancelled: "wq_inv wq \<Longrightarrow> w_requests (wq_works wq w) AND WQ_REQ_CANCEL_WORK = 0"
  using wq_invD [of wq w] by (simp add: item_ok_def cancelled_def)

lemma num_update:
  "i < length ws \<Longrightarrow>
     num h w (ws[i := t]) + of_bool (h (wr_pc (ws ! i)) = Some w) = num h w ws + of_bool (h (wr_pc t) = Some w)"
proof (induction ws arbitrary: i)
  case (Cons u ws)
  show ?case
  proof (cases i)
    case (Suc j)
    with Cons.IH [of j] Cons.prems show ?thesis by (simp add: num_def)
  qed (simp add: num_def)
qed simp

lemma num_same: "wr_pc t = wr_pc (ws ! i) \<Longrightarrow> num h w (ws[i := t]) = num h w ws"
  using num_update [of i ws h w t] by (cases "i < length ws") (simp_all add: list_update_beyond)

lemma num_pos: "i < length ws \<Longrightarrow> h (wr_pc (ws ! i)) = Some w \<Longrightarrow> 0 < num h w ws"
  by (auto simp: num_def filter_empty_conv)

text \<open>What a worker holds is active.\<close>

lemma held_active:
  "wq_inv wq \<Longrightarrow> i < length (wq_workers wq) \<Longrightarrow> holds (wr_pc (wq_workers wq ! i)) = Some w \<Longrightarrow> active wq w"
  using num_pos [of i "wq_workers wq" holds w] item_place [of wq w] by (cases "active wq w") simp_all

lemma not_cancelling:
  "wq_inv wq \<Longrightarrow> i < length (wq_workers wq) \<Longrightarrow> cancelling (wr_pc (wq_workers wq ! i)) = None"
  using num_pos [of i "wq_workers wq" cancelling] wq_invD [of wq] by (force simp: item_ok_def)

text \<open>A step of worker \<open>i\<close> takes it from one place to another, whatever it does to events.\<close>

definition moves :: "workqueue \<Rightarrow> nat \<Rightarrow> pc \<Rightarrow> workqueue \<Rightarrow> bool" where
  "moves wq i p wq' \<longleftrightarrow> (\<forall>h w. num h w (wq_workers wq') + of_bool (h (wr_pc (wq_workers wq ! i)) = Some w) =
     num h w (wq_workers wq) + of_bool (h p = Some w))"

lemma moves_num:
  "moves wq i p wq' \<Longrightarrow> num h w (wq_workers wq') + of_bool (h (wr_pc (wq_workers wq ! i)) = Some w) =
     num h w (wq_workers wq) + of_bool (h p = Some w)"
  by (simp add: moves_def)

lemma moves_set_worker: "i < length (wq_workers wq) \<Longrightarrow> wr_pc t = p \<Longrightarrow> moves wq i p (set_worker wq i t)"
  using num_update [of i "wq_workers wq" _ _ t] by (simp add: moves_def set_worker_def)

lemma moves_set_pc: "i < length (wq_workers wq) \<Longrightarrow> moves wq i p (set_pc wq i p)"
  by (simp add: set_pc_def moves_set_worker)

lemma moves_from: "moves wq1 i p wq' \<Longrightarrow> wq_workers wq1 = wq_workers wq \<Longrightarrow> moves wq i p wq'"
  by (simp add: moves_def)

lemma set_pc_same [simp]:
  "wq_works (set_pc wq i p) = wq_works wq" "wq_backlog (set_pc wq i p) = wq_backlog wq"
  "wq_count (set_pc wq i p) = wq_count wq" "wq_log (set_pc wq i p) = wq_log wq" "wq_client (set_pc wq i p) = wq_client wq"
  "wq_works (set_worker wq i t) = wq_works wq" "wq_backlog (set_worker wq i t) = wq_backlog wq"
  "wq_count (set_worker wq i t) = wq_count wq" "wq_log (set_worker wq i t) = wq_log wq"
  "wq_client (set_worker wq i t) = wq_client wq"
  by (simp_all add: set_pc_def set_worker_def)

text \<open>Waking changes the pipe of one worker only.\<close>

lemma wakeup_pcs:
  "wakeup_first_free_worker k ws = Some (k', ws') \<Longrightarrow> map wr_pc ws' = map wr_pc ws"
  by (auto simp: wakeup_first_free_worker_def map_update split: waker.splits)
    (metis list_update_beyond list_update_id length_map not_le nth_map)

lemma num_pcs: "map wr_pc ws' = map wr_pc ws \<Longrightarrow> num h w ws' = num h w ws"
proof -
  have "num h w us = length (filter (\<lambda>p. h p = Some w) (map wr_pc us))" for us
    by (simp add: num_def filter_map comp_def)
  then show "map wr_pc ws' = map wr_pc ws \<Longrightarrow> ?thesis" by metis
qed

lemma moves_pcs:
  "map wr_pc ws = map wr_pc (wq_workers wq) \<Longrightarrow> i < length (wq_workers wq) \<Longrightarrow>
     moves wq i p (set_pc (wq\<lparr>wq_workers := ws\<rparr>) i p)"
proof -
  assume pcs: "map wr_pc ws = map wr_pc (wq_workers wq)" and i: "i < length (wq_workers wq)"
  have len: "length ws = length (wq_workers wq)" using pcs map_eq_imp_length_eq by blast
  with pcs i have "wr_pc (ws ! i) = wr_pc (wq_workers wq ! i)" by (metis nth_map)
  with moves_set_pc [of i "wq\<lparr>wq_workers := ws\<rparr>" p] i len num_pcs [OF pcs] show ?thesis by (simp add: moves_def)
qed

text \<open>
  A step is judged by where the worker goes and by what it does to the backlog, one item and the log.
\<close>

lemma wq_invI:
  assumes "wq_inv wq" and "wq_count wq' = int (length (wq_backlog wq'))" and "\<And>v. item_ok wq v \<Longrightarrow> item_ok wq' v"
  shows "wq_inv wq'"
  using assms by (simp add: wq_inv_def)

lemma item_ok_moved:
  assumes m: "moves wq i p wq'" and q: "wr_pc (wq_workers wq ! i) = q" and ok: "item_ok wq v"
    and place: "count_list (wq_backlog wq') v + of_bool (holds p = Some v) + of_bool (wq_client wq' = Adding v) +
        (if active wq v then 1 else 0) =
      count_list (wq_backlog wq) v + of_bool (holds q = Some v) + of_bool (wq_client wq = Adding v) +
        (if active wq' v then 1 else 0)"
    and cancel: "\<not> cancelled wq' v" "cancelling p = None"
    and runs: "count_list (wq_log wq') (Completed v) + of_bool (has_run p = Some v) + count_list (wq_log wq) (Ran v) \<le>
      count_list (wq_log wq) (Completed v) + of_bool (has_run q = Some v) + count_list (wq_log wq') (Ran v)"
    and complete: "workqueue_work_is_complete wq' v \<Longrightarrow>
      workqueue_work_is_complete wq v \<and> set (wq_log wq) \<subseteq> set (wq_log wq') \<or> Completed v \<in> set (wq_log wq')"
    and same: "w_complete_fn (wq_works wq' v) = w_complete_fn (wq_works wq v)"
    and called: "if w_complete_fn (wq_works wq v)
      then count_list (wq_log wq') (Called v) + of_bool (will_report p = Some v) + count_list (wq_log wq) (Completed v) =
        count_list (wq_log wq) (Called v) + of_bool (will_report q = Some v) + count_list (wq_log wq') (Completed v)
      else count_list (wq_log wq') (Called v) = count_list (wq_log wq) (Called v)"
  shows "item_ok wq' v"
proof -
  note n = moves_num [OF m, unfolded q, of _ v]
  have "count_list (wq_backlog wq') v + num holds v (wq_workers wq') + of_bool (wq_client wq' = Adding v) =
      (if active wq' v then 1 else 0)"
    using n [of holds] place ok unfolding item_ok_def by linarith
  moreover have "num cancelling v (wq_workers wq') = 0" using n [of cancelling] cancel(2) ok by (simp add: item_ok_def)
  moreover have "count_list (wq_log wq') (Completed v) + num has_run v (wq_workers wq') \<le> count_list (wq_log wq') (Ran v)"
    using n [of has_run] runs ok unfolding item_ok_def by linarith
  moreover have "workqueue_work_is_complete wq' v \<longrightarrow> Completed v \<in> set (wq_log wq')"
    using complete ok by (auto simp: item_ok_def)
  moreover have "if w_complete_fn (wq_works wq' v)
      then count_list (wq_log wq') (Called v) + num will_report v (wq_workers wq') = count_list (wq_log wq') (Completed v)
      else count_list (wq_log wq') (Called v) = 0"
    using n [of will_report] called ok same by (auto simp: item_ok_def split: if_splits)
  ultimately show ?thesis using cancel(1) by (simp add: item_ok_def)
qed

lemma workqueue_factory_cases [consumes 1, case_names
    start wait wake none fetch check complete report mark run slice decide requeue waking leave]:
  assumes "workqueue_factory i rc ticks wq = Some (a, wq')"
  obtains "wr_pc (wq_workers wq ! i) = Starting" "a = Other"
      "wq' = set_worker wq i ((wq_workers wq ! i)\<lparr>wr_state := WQ_WORKER_STATE_IDLE, wr_pc := Waiting\<rparr>)"
  | n e where "wr_pc (wq_workers wq ! i) = Waiting" "a = Other" "event_read (wr_event (wq_workers wq ! i)) = Some (n, e)"
      "wq' = set_worker wq i ((wq_workers wq ! i)\<lparr>wr_event := e, wr_pc := (if n = 64 then Waiting else Woken)\<rparr>)"
  | "wr_pc (wq_workers wq ! i) = Woken" "a = Other"
      "wq' = set_worker wq i ((wq_workers wq ! i)\<lparr>wr_state := WQ_WORKER_STATE_RUNNING, wr_pc := Fetching\<rparr>)"
  | "wr_pc (wq_workers wq ! i) = Fetching" "a = Dequeued None" "wq_backlog wq = []" "wq' = set_pc wq i Leaving"
  | w ws where "wr_pc (wq_workers wq ! i) = Fetching" "a = Dequeued (Some w)" "wq_backlog wq = w # ws"
      "wq' = set_pc (wq\<lparr>wq_backlog := ws, wq_count := wq_count wq - 1\<rparr>) i (Fetched w)"
  | w where "wr_pc (wq_workers wq ! i) = Fetched w" "a = Other"
      "wq' = set_pc wq i (if cancelled wq w then Completing w RunIt else Marking w)"
  | w b where "wr_pc (wq_workers wq ! i) = Completing w b" "a = Other" "wq' = set_pc (complete_work wq w) i (Reporting w b)"
  | w b where "wr_pc (wq_workers wq ! i) = Reporting w b" "a = Other"
      "wq' = set_pc (call_complete_fn wq w) i (case b of RunIt \<Rightarrow> Marking w | FetchNext \<Rightarrow> Fetching)"
  | w where "wr_pc (wq_workers wq ! i) = Marking w" "a = Other" "wq' = set_pc (set_status wq w WQ_WORK_IN_PROGRESS) i (Working w)"
  | w where "wr_pc (wq_workers wq ! i) = Working w" "a = Other" "wq' = set_pc (do_work wq w) i (Ended w rc)"
  | w r where "wr_pc (wq_workers wq ! i) = Ended w r" "a = Other" "wq' = set_pc (add_slice wq w ticks) i (Deciding w r)"
  | w r where "wr_pc (wq_workers wq ! i) = Deciding w r" "a = Other"
      "wq' = set_pc wq i (if r \<le> 0 \<or> cancelled wq w then Completing w FetchNext else Requeueing w)"
  | w where "wr_pc (wq_workers wq ! i) = Requeueing w" "a = Enqueued w" "wq' = set_pc (put_backlog wq w) i (Waking (Looking 0))"
  | k k' ws where "wr_pc (wq_workers wq ! i) = Waking k" "a = Other"
      "wakeup_first_free_worker k (wq_workers wq) = Some (k', ws)"
      "wq' = set_pc (wq\<lparr>wq_workers := ws\<rparr>) i (case k' of None \<Rightarrow> Fetching | Some k \<Rightarrow> Waking k)"
  | "wr_pc (wq_workers wq ! i) = Leaving" "a = Other"
      "wq' = set_worker wq i ((wq_workers wq ! i)\<lparr>wr_state := WQ_WORKER_STATE_IDLE, wr_pc := Waiting\<rparr>)"
proof (cases "wr_pc (wq_workers wq ! i)")
  case Starting
  with assms show thesis by (intro that(1)) (simp_all add: workqueue_factory_def)
next
  case Waiting
  with assms show thesis by (cases "event_read (wr_event (wq_workers wq ! i))") (auto simp: workqueue_factory_def intro: that(2))
next
  case Woken
  with assms show thesis by (intro that(3)) (simp_all add: workqueue_factory_def)
next
  case Fetching
  show thesis
  proof (cases "wq_backlog wq")
    case Nil
    with Fetching assms show thesis by (intro that(4)) (simp_all add: workqueue_factory_def get_backlog_def)
  next
    case (Cons w ws)
    with Fetching assms show thesis by (intro that(5) [of w ws]) (simp_all add: workqueue_factory_def get_backlog_def)
  qed
next
  case (Fetched w)
  with assms show thesis by (intro that(6) [of w]) (simp_all add: workqueue_factory_def)
next
  case (Completing w b)
  with assms show thesis by (intro that(7) [of w b]) (simp_all add: workqueue_factory_def)
next
  case (Reporting w b)
  with assms show thesis by (intro that(8) [of w b]) (simp_all add: workqueue_factory_def)
next
  case (Marking w)
  with assms show thesis by (intro that(9) [of w]) (simp_all add: workqueue_factory_def)
next
  case (Working w)
  with assms show thesis by (intro that(10) [of w]) (simp_all add: workqueue_factory_def)
next
  case (Ended w r)
  with assms show thesis by (intro that(11) [of w r]) (simp_all add: workqueue_factory_def)
next
  case (Deciding w r)
  with assms show thesis by (intro that(12) [of w r]) (simp_all add: workqueue_factory_def)
next
  case (Requeueing w)
  with assms show thesis by (intro that(13) [of w]) (simp_all add: workqueue_factory_def)
next
  case (Waking k)
  with assms show thesis
    by (cases "wakeup_first_free_worker k (wq_workers wq)") (auto simp: workqueue_factory_def intro: that(14))
next
  case Leaving
  with assms show thesis by (intro that(15)) (simp_all add: workqueue_factory_def)
qed

lemma count_log [simp]:
  "count_list (xs @ [Ran w]) (Ran v) = count_list xs (Ran v) + of_bool (v = w)"
  "count_list (xs @ [Completed w]) (Completed v) = count_list xs (Completed v) + of_bool (v = w)"
  "count_list (xs @ [Called w]) (Called v) = count_list xs (Called v) + of_bool (v = w)"
  by auto

lemma worker_act_inv:
  assumes "worker_act wq a wq'" and inv: "wq_inv wq"
  shows "wq_inv wq'"
  using assms(1)
proof cases
  case (act i rc ticks)
  note i = act(1) and cnt = inv [unfolded wq_inv_def, THEN conjunct1]
  note nc = not_cancelling [OF inv i] and uncancelled = wq_inv_uncancelled [OF inv]
  from act(2) show ?thesis
  proof (cases rule: workqueue_factory_cases)
    case start
    then have m: "moves wq i Waiting wq'" by (simp add: moves_set_worker i)
    with start cnt show ?thesis
      by (intro wq_invI [OF inv] item_ok_moved [OF m start(1)]) (auto simp: uncancelled wq_ops split: if_splits)
  next
    case (wait n e)
    then have m: "moves wq i (if n = 64 then Waiting else Woken) wq'" by (simp add: moves_set_worker i)
    with wait cnt show ?thesis
      by (intro wq_invI [OF inv] item_ok_moved [OF m wait(1)]) (auto simp: uncancelled wq_ops split: if_splits)
  next
    case wake
    then have m: "moves wq i Fetching wq'" by (simp add: moves_set_worker i)
    with wake cnt show ?thesis
      by (intro wq_invI [OF inv] item_ok_moved [OF m wake(1)]) (auto simp: uncancelled wq_ops split: if_splits)
  next
    case none
    with moves_set_pc [OF i] have m: "moves wq i Leaving wq'" by simp
    with none cnt show ?thesis
      by (intro wq_invI [OF inv] item_ok_moved [OF m none(1)]) (auto simp: uncancelled wq_ops split: if_splits)
  next
    case (fetch w ws)
    have m: "moves wq i (Fetched w) wq'" unfolding fetch(4) by (rule moves_from [OF moves_set_pc]) (simp_all add: i)
    with fetch cnt show ?thesis
      by (intro wq_invI [OF inv] item_ok_moved [OF m fetch(1)]) (auto simp: uncancelled wq_ops split: if_splits)
  next
    case (check w)
    with check uncancelled moves_set_pc [OF i] have m: "moves wq i (Marking w) wq'" by (simp add: cancelled_def)
    with check cnt show ?thesis
      by (intro wq_invI [OF inv] item_ok_moved [OF m check(1)]) (auto simp: uncancelled wq_ops split: if_splits)
  next
    case (complete w b)
    have b: "b = FetchNext" using nc complete(1) by (cases b) simp_all
    have m: "moves wq i (Reporting w b) wq'" unfolding complete(3)
      by (rule moves_from [OF moves_set_pc]) (simp_all add: i wq_ops)
    have "active wq w" using held_active [OF inv i] complete(1) by simp
    with complete cnt b show ?thesis
      by (intro wq_invI [OF inv] item_ok_moved [OF m complete(1)]) (auto simp: uncancelled wq_ops split: if_splits)
  next
    case (report w b)
    have b: "b = FetchNext" using nc report(1) by (cases b) simp_all
    have m: "moves wq i Fetching wq'" unfolding report(3) b
      by simp (rule moves_from [OF moves_set_pc], simp_all add: i wq_ops)
    with report cnt b show ?thesis
      by (intro wq_invI [OF inv] item_ok_moved [OF m report(1)]) (auto simp: uncancelled wq_ops split: if_splits)
  next
    case (mark w)
    have m: "moves wq i (Working w) wq'" unfolding mark(3)
      by (rule moves_from [OF moves_set_pc]) (simp_all add: i wq_ops)
    have "active wq w" using held_active [OF inv i] mark(1) by simp
    with mark cnt show ?thesis
      by (intro wq_invI [OF inv] item_ok_moved [OF m mark(1)]) (auto simp: uncancelled wq_ops split: if_splits)
  next
    case (run w)
    have m: "moves wq i (Ended w rc) wq'" unfolding run(3)
      by (rule moves_from [OF moves_set_pc]) (simp_all add: i wq_ops)
    with run cnt show ?thesis
      by (intro wq_invI [OF inv] item_ok_moved [OF m run(1)]) (auto simp: uncancelled wq_ops split: if_splits)
  next
    case (slice w r)
    have m: "moves wq i (Deciding w r) wq'" unfolding slice(3)
      by (rule moves_from [OF moves_set_pc]) (simp_all add: i wq_ops)
    with slice cnt show ?thesis
      by (intro wq_invI [OF inv] item_ok_moved [OF m slice(1)]) (auto simp: uncancelled wq_ops split: if_splits)
  next
    case (decide w r)
    with moves_set_pc [OF i]
    have m: "moves wq i (if r \<le> 0 \<or> cancelled wq w then Completing w FetchNext else Requeueing w) wq'" by simp
    with decide cnt show ?thesis
      by (intro wq_invI [OF inv] item_ok_moved [OF m decide(1)]) (auto simp: uncancelled wq_ops split: if_splits)
  next
    case (requeue w)
    have m: "moves wq i (Waking (Looking 0)) wq'" unfolding requeue(3)
      by (rule moves_from [OF moves_set_pc]) (simp_all add: i wq_ops)
    with requeue cnt show ?thesis
      by (intro wq_invI [OF inv] item_ok_moved [OF m requeue(1)]) (auto simp: uncancelled wq_ops split: if_splits)
  next
    case (waking k k' ws)
    let ?p = "case k' of None \<Rightarrow> Fetching | Some k \<Rightarrow> Waking k"
    have m: "moves wq i ?p wq'" unfolding waking(4) by (rule moves_pcs [OF wakeup_pcs [OF waking(3)] i])
    have "holds ?p = None" "cancelling ?p = None" "has_run ?p = None" "will_report ?p = None" by (simp_all split: option.splits)
    with waking cnt show ?thesis
      by (intro wq_invI [OF inv] item_ok_moved [OF m waking(1)]) (auto simp: uncancelled wq_ops split: if_splits)
  next
    case leave
    then have m: "moves wq i Waiting wq'" by (simp add: moves_set_worker i)
    with leave cnt show ?thesis
      by (intro wq_invI [OF inv] item_ok_moved [OF m leave(1)]) (auto simp: uncancelled wq_ops split: if_splits)
  qed
qed
text \<open>The client puts an item it may add in the one place where it was not.\<close>

lemma client_act_inv:
  assumes "client_act False wq a wq'" and inv: "wq_inv wq"
  shows "wq_inv wq'"
  using assms(1)
proof cases
  case (add w)
  have "\<not> active wq w" using add(4) by (auto simp: wq_ops)
  then have "count_list (wq_backlog wq) w = 0" "num holds w (wq_workers wq) = 0" using item_place [OF inv, of w] by simp_all
  then show ?thesis using add inv by (intro wq_invI [OF inv]) (auto simp: wq_inv_def item_ok_def wq_ops)
next
  case put
  then show ?thesis
  proof (cases "wq_client wq")
    case (Adding w)
    have "wq_count wq = int (length (wq_backlog wq))" using inv by (simp add: wq_inv_def)
    with Adding put show ?thesis
      by (intro wq_invI [OF inv]) (auto simp: client_put_def item_ok_def put_backlog_def split: if_splits)
  next
    case (Alerting k)
    then obtain k' ws where k: "wakeup_first_free_worker k (wq_workers wq) = Some (k', ws)"
      "wq' = wq\<lparr>wq_workers := ws, wq_client := (case k' of None \<Rightarrow> Ready | Some k \<Rightarrow> Alerting k)\<rparr>"
      using put by (auto simp: client_put_def)
    with num_pcs [OF wakeup_pcs [OF k(1)]] Alerting inv show ?thesis
      by (intro wq_invI [OF inv]) (auto simp: wq_inv_def item_ok_def split: option.splits)
  qed (simp add: client_put_def)
qed simp

lemma create_inv:
  assumes "\<And>w. w_status (works w) = WQ_WORK_NEW \<and> w_requests (works w) = 0"
  shows "wq_inv (workqueue_create capacity works n)"
  using assms by (simp add: wq_inv_def item_ok_def wq_ops workqueue_create_def num_def)

lemma wq_reachable_inv:
  assumes "(wq_step False)\<^sup>*\<^sup>* (workqueue_create capacity works n) wq"
    and "\<And>w. w_status (works w) = WQ_WORK_NEW \<and> w_requests (works w) = 0"
  shows "wq_inv wq"
  using assms(1)
proof (induction rule: rtranclp_induct)
  case base
  then show ?case using create_inv assms(2) by blast
next
  case (step y z)
  then show ?case using worker_act_inv client_act_inv by (auto simp: wq_step_def)
qed

text \<open>
  C15.  Whatever the interleaving of any number of workers and a client that adds new or completed
  items and cancels none: the backlog count is the length of the backlog; an item is in exactly
  one place, the backlog or the hands of one thread, as long as it is queued or in progress, and in
  none otherwise, so that it is never lost and never run by two workers at once; each completion
  has a run of its own before it; an item seen as complete has been completed by a worker; and
  each completion of an item with a callback is reported once, by the worker that marked the item
  as complete, which may not have got to it yet when others see the item complete.
\<close>

theorem wq_items_conserved:
  assumes "(wq_step False)\<^sup>*\<^sup>* (workqueue_create capacity works n) wq"
    and "\<And>w. w_status (works w) = WQ_WORK_NEW \<and> w_requests (works w) = 0"
  shows "workqueue_backlog_count wq = int (length (wq_backlog wq)) \<and>
    count_list (wq_backlog wq) w + num holds w (wq_workers wq) + of_bool (wq_client wq = Adding w) = (if active wq w then 1 else 0) \<and>
    count_list (wq_log wq) (Completed w) + num has_run w (wq_workers wq) \<le> count_list (wq_log wq) (Ran w) \<and>
    (workqueue_work_is_complete wq w \<longrightarrow> Completed w \<in> set (wq_log wq)) \<and>
    (if w_complete_fn (wq_works wq w)
     then count_list (wq_log wq) (Called w) + num will_report w (wq_workers wq) = count_list (wq_log wq) (Completed w)
     else count_list (wq_log wq) (Called w) = 0)"
  using wq_reachable_inv [OF assms] by (simp add: wq_inv_def workqueue_backlog_count_def item_ok_def)

text \<open>Concrete runs: the client adds an item or goes on, or a worker takes its next step with a result.\<close>

datatype choice = A nat | C | W nat int

fun wq_exec :: "choice list \<Rightarrow> workqueue \<Rightarrow> workqueue option" where
  "wq_exec [] wq = Some wq"
| "wq_exec (A w # cs) wq =
     (if wq_client wq = Ready \<and> (w_status (wq_works wq w) = WQ_WORK_NEW \<or> workqueue_work_is_complete wq w)
      then wq_exec cs (workqueue_add_work wq w) else None)"
| "wq_exec (C # cs) wq = do { (_, wq) \<leftarrow> client_put wq; wq_exec cs wq }"
| "wq_exec (W i rc # cs) wq =
     (if i < length (wq_workers wq) then do { (_, wq) \<leftarrow> workqueue_factory i rc 0 wq; wq_exec cs wq } else None)"

lemma wq_exec_steps: "wq_exec cs wq = Some wq' \<Longrightarrow> (wq_step c)\<^sup>*\<^sup>* wq wq'"
proof (induction cs wq rule: wq_exec.induct)
  case (2 w cs wq)
  then have "wq_step c wq (workqueue_add_work wq w)"
    by (auto simp: wq_step_def intro: client_act.add split: if_splits)
  with 2 show ?case by (auto intro: converse_rtranclp_into_rtranclp split: if_splits)
next
  case (3 cs wq)
  then obtain a wq1 where "client_put wq = Some (a, wq1)" "(wq_step c)\<^sup>*\<^sup>* wq1 wq'" by (auto split: bind_splits)
  moreover from this(1) have "wq_step c wq wq1" by (auto simp: wq_step_def intro: client_act.put)
  ultimately show ?case by (simp add: converse_rtranclp_into_rtranclp)
next
  case (4 i rc cs wq)
  then obtain a wq1 where "i < length (wq_workers wq)" "workqueue_factory i rc 0 wq = Some (a, wq1)" "(wq_step c)\<^sup>*\<^sup>* wq1 wq'"
    by (auto split: bind_splits if_splits)
  moreover from this(1,2) have "wq_step c wq wq1" by (auto simp: wq_step_def intro: worker_act.act)
  ultimately show ?case by (simp add: converse_rtranclp_into_rtranclp)
qed simp

lemmas wq_eval = workqueue_create_def workqueue_factory_def client_put_def wakeup_first_free_worker_def signal_result
  event_read_def set_pc_def set_worker_def get_backlog_def wq_ops WQ_REQ_CANCEL_WORK_def

text \<open>An item with a callback runs on one of two workers and is seen complete before it is reported.\<close>

theorem wq_items_conserved_witness:
  "let works = (\<lambda>_. \<lparr> w_slice = 0, w_status = WQ_WORK_NEW, w_requests = 0, w_complete_fn = True \<rparr>)
   in \<exists>wq. (wq_step False)\<^sup>*\<^sup>* (workqueue_create 65536 works 2) wq \<and> workqueue_work_is_complete wq 7 \<and>
     Completed 7 \<in> set (wq_log wq) \<and> count_list (wq_log wq) (Called 7) = 0 \<and> num will_report 7 (wq_workers wq) = 1"
proof -
  let ?works = "\<lambda>_ :: nat. \<lparr> w_slice = 0, w_status = WQ_WORK_NEW, w_requests = 0, w_complete_fn = True \<rparr>"
  let ?cs = "[W 0 0, A 7, C, C, C, W 0 0, W 0 0, W 0 0, W 0 0, W 0 0, W 0 0, W 0 0, W 0 0, W 0 0]"
  have "\<exists>wq. wq_exec ?cs (workqueue_create 65536 ?works 2) = Some wq \<and> workqueue_work_is_complete wq 7 \<and>
      w_complete_fn (wq_works wq 7) \<and> wq_log wq = [Ran 7, Completed 7] \<and> num will_report 7 (wq_workers wq) = 1"
    by (simp add: wq_eval numeral_2_eq_2 num_def)
  then obtain wq where wq: "wq_exec ?cs (workqueue_create 65536 ?works 2) = Some wq" "workqueue_work_is_complete wq 7"
    "w_complete_fn (wq_works wq 7)" "wq_log wq = [Ran 7, Completed 7]" "num will_report 7 (wq_workers wq) = 1" by blast
  from wq_items_conserved [OF wq_exec_steps [OF wq(1)], of 7] wq(2-5) wq_exec_steps [OF wq(1)] show ?thesis
    unfolding Let_def by (intro exI [of _ wq]) simp
qed

text \<open>What follows by the result: an item that failed is completed like one that is done; one that yields waits again.\<close>

lemma finish_by_result:
  assumes "i < length (wq_workers wq)" "wr_pc (wq_workers wq ! i) = Working w" "\<not> cancelled wq w"
    and "rc \<in> {WORK_ERR, WORK_DONE, WORK_YIELD}"
  shows "\<exists>wq'. wq_exec [W i rc, W i 0, W i 0] wq = Some wq' \<and>
    wr_pc (wq_workers wq' ! i) = (if rc = WORK_YIELD then Requeueing w else Completing w FetchNext)"
  using assms by (auto simp: wq_eval WORK_ERR_def WORK_DONE_def WORK_YIELD_def)

subsection \<open>Cancellation and wake-ups\<close>

text \<open>A cancelled item is not dropped when a worker takes it: it is marked complete and reported, then
  marked as in progress and run all the same, and completed and reported a second time.\<close>

theorem cancelled_work_runs:
  assumes "i < length (wq_workers wq)" and "wr_pc (wq_workers wq ! i) = Fetched w" and "cancelled wq w"
    and "w_complete_fn (wq_works wq w)"
  shows "\<exists>wq1 wq2. wq_exec [W i 0, W i 0] wq = Some wq1 \<and> workqueue_work_is_complete wq1 w \<and>
    wq_exec [W i 0, W i 0, W i 0, W i 0, W i 0, W i 0, W i 0] wq1 = Some wq2 \<and>
    wq_log wq2 = wq_log wq @ [Completed w, Called w, Ran w, Completed w, Called w]"
  using assms by (simp add: wq_eval)

theorem cancelled_work_runs_witness:
  "\<exists>wq1 wq2. workqueue_work_is_complete wq1 0 \<and> (wq_step True)\<^sup>*\<^sup>* wq1 wq2 \<and>
    wq_log wq2 = [Completed 0, Called 0, Ran 0, Completed 0, Called 0]"
proof -
  let ?wq = "\<lparr> wq_works = (\<lambda>_. \<lparr> w_slice = 0, w_status = WQ_WORK_QUEUED, w_requests = 1, w_complete_fn = True \<rparr>),
    wq_backlog = [], wq_count = 0, wq_workers = [\<lparr> wr_state = WQ_WORKER_STATE_RUNNING,
      wr_event = \<lparr> ev_open = True, ev_blocking = True, ev_capacity = 65536, ev_pending = 0, ev_initialized = True \<rparr>,
      wr_pc = Fetched 0 \<rparr>], wq_client = Ready, wq_log = [] \<rparr>"
  show ?thesis
    using cancelled_work_runs [of 0 ?wq 0] wq_exec_steps by (fastforce simp: cancelled_def WQ_REQ_CANCEL_WORK_def)
qed

text \<open>Additions while the only worker is idle: each sends a signal.\<close>

lemma signals_pile_up:
  assumes "\<And>w. w_status (works w) = WQ_WORK_NEW \<and> w_requests (works w) = 0" and "8 * k \<le> capacity"
  shows "\<exists>wq. (wq_step False)\<^sup>*\<^sup>* (workqueue_create capacity works 1) wq \<and> length (wq_backlog wq) = k \<and> wq_client wq = Ready \<and>
    wq_workers wq = [\<lparr> wr_state = WQ_WORKER_STATE_IDLE, wr_event =
      \<lparr> ev_open = True, ev_blocking = True, ev_capacity = capacity, ev_pending = 8 * k, ev_initialized = True \<rparr>, wr_pc = Waiting \<rparr>] \<and>
    (\<forall>w. k \<le> w \<longrightarrow> w_status (wq_works wq w) = WQ_WORK_NEW)"
  using assms(2)
proof (induction k)
  case 0
  have "\<exists>wq. wq_exec [W 0 0] (workqueue_create capacity works 1) = Some wq \<and> wq_backlog wq = [] \<and> wq_client wq = Ready \<and>
      wq_workers wq = [\<lparr> wr_state = WQ_WORKER_STATE_IDLE, wr_event =
        \<lparr> ev_open = True, ev_blocking = True, ev_capacity = capacity, ev_pending = 0, ev_initialized = True \<rparr>, wr_pc = Waiting \<rparr>] \<and>
      wq_works wq = works" by (simp add: wq_eval)
  then show ?case using assms(1) wq_exec_steps by fastforce
next
  case (Suc k)
  then obtain wq where wq: "(wq_step False)\<^sup>*\<^sup>* (workqueue_create capacity works 1) wq" "length (wq_backlog wq) = k"
    "wq_client wq = Ready" "wq_workers wq = [\<lparr> wr_state = WQ_WORKER_STATE_IDLE, wr_event =
      \<lparr> ev_open = True, ev_blocking = True, ev_capacity = capacity, ev_pending = 8 * k, ev_initialized = True \<rparr>, wr_pc = Waiting \<rparr>]"
    "\<forall>w. k \<le> w \<longrightarrow> w_status (wq_works wq w) = WQ_WORK_NEW" by auto
  have "\<exists>wq'. wq_exec [A k, C, C, C] wq = Some wq' \<and> length (wq_backlog wq') = Suc k \<and> wq_client wq' = Ready \<and>
      wq_workers wq' = [\<lparr> wr_state = WQ_WORKER_STATE_IDLE, wr_event = \<lparr> ev_open = True, ev_blocking = True,
        ev_capacity = capacity, ev_pending = 8 * Suc k, ev_initialized = True \<rparr>, wr_pc = Waiting \<rparr>] \<and>
      (\<forall>w. Suc k \<le> w \<longrightarrow> w_status (wq_works wq' w) = WQ_WORK_NEW)"
    using wq(2-5) Suc.prems by (simp add: wq_eval)
  then obtain wq' where "wq_exec [A k, C, C, C] wq = Some wq'" and wq': "length (wq_backlog wq') = Suc k" "wq_client wq' = Ready"
    "wq_workers wq' = [\<lparr> wr_state = WQ_WORKER_STATE_IDLE, wr_event = \<lparr> ev_open = True, ev_blocking = True,
      ev_capacity = capacity, ev_pending = 8 * Suc k, ev_initialized = True \<rparr>, wr_pc = Waiting \<rparr>]"
    "\<forall>w. Suc k \<le> w \<longrightarrow> w_status (wq_works wq' w) = WQ_WORK_NEW" by blast
  from wq_exec_steps [OF this(1)] wq(1) have "(wq_step False)\<^sup>*\<^sup>* (workqueue_create capacity works 1) wq'"
    by (rule rtranclp_trans [rotated])
  with wq' show ?case by blast
qed

text \<open>C16. Wake-ups are lost: eight additions before the only worker gets to run leave it blocked in
  \<open>flush_fd()\<close> for ever.  A state is reachable in which eight items are queued, the worker is idle
  and no worker can take a step.\<close>

theorem wakeups_are_lost:
  assumes "\<And>w. w_status (works w) = WQ_WORK_NEW \<and> w_requests (works w) = 0" and "64 \<le> capacity"
  shows "\<exists>wq. (wq_step False)\<^sup>*\<^sup>* (workqueue_create capacity works 1) wq \<and> workqueue_backlog_count wq = 8 \<and>
    (\<forall>wq'. \<not> worker_step wq wq')"
proof -
  let ?ws = "\<lambda>n. [\<lparr> wr_state = WQ_WORKER_STATE_IDLE, wr_event =
    \<lparr> ev_open = True, ev_blocking = True, ev_capacity = capacity, ev_pending = n, ev_initialized = True \<rparr>, wr_pc = Waiting \<rparr>]"
  obtain wq where wq: "(wq_step False)\<^sup>*\<^sup>* (workqueue_create capacity works 1) wq" "length (wq_backlog wq) = 8"
    "wq_workers wq = ?ws 64" using signals_pile_up [of works 8 capacity] assms by auto
  let ?wq = "wq\<lparr>wq_workers := ?ws 0\<rparr>"
  have "wq_exec [W 0 0] wq = Some ?wq" using wq(3) by (simp add: wq_eval)
  from wq_exec_steps [OF this] wq(1) have r: "(wq_step False)\<^sup>*\<^sup>* (workqueue_create capacity works 1) ?wq"
    by (rule rtranclp_trans [rotated])
  have "\<not> worker_step ?wq wq'" for wq'
    by (auto simp: worker_step_def wq_eval elim!: worker_act.cases)
  moreover have "workqueue_backlog_count ?wq = 8"
    using wq_reachable_inv [OF r assms(1)] wq(2) by (simp add: wq_inv_def workqueue_backlog_count_def)
  ultimately show ?thesis using r by blast
qed

theorem wakeups_are_lost_witness:
  "\<exists>wq. (wq_step False)\<^sup>*\<^sup>*
      (workqueue_create 65536 (\<lambda>_. \<lparr> w_slice = 0, w_status = WQ_WORK_NEW, w_requests = 0, w_complete_fn = False \<rparr>) 1) wq \<and>
    workqueue_backlog_count wq = 8 \<and> (\<forall>wq'. \<not> worker_step wq wq')"
  by (rule wakeups_are_lost) simp_all

subsection \<open>Destruction\<close>

text \<open>
  After \<open>workqueue_destroy()\<close> what waited is complete, although it never ran and nobody was told, and
  what a thread had in its hands stays as it was.
\<close>

lemma flush_fold:
  "wq_works (fold (\<lambda>w wq. (set_status wq w WQ_WORK_COMPLETE)\<lparr>wq_count := wq_count wq - 1\<rparr>) ws wq) v =
     (if v \<in> set ws then (wq_works wq v)\<lparr>w_status := WQ_WORK_COMPLETE\<rparr> else wq_works wq v) \<and>
   wq_backlog (fold (\<lambda>w wq. (set_status wq w WQ_WORK_COMPLETE)\<lparr>wq_count := wq_count wq - 1\<rparr>) ws wq) = wq_backlog wq \<and>
   wq_workers (fold (\<lambda>w wq. (set_status wq w WQ_WORK_COMPLETE)\<lparr>wq_count := wq_count wq - 1\<rparr>) ws wq) = wq_workers wq \<and>
   wq_log (fold (\<lambda>w wq. (set_status wq w WQ_WORK_COMPLETE)\<lparr>wq_count := wq_count wq - 1\<rparr>) ws wq) = wq_log wq \<and>
   wq_count (fold (\<lambda>w wq. (set_status wq w WQ_WORK_COMPLETE)\<lparr>wq_count := wq_count wq - 1\<rparr>) ws wq) = wq_count wq - int (length ws)"
  by (induction ws arbitrary: wq) (auto simp: set_status_def)

lemmas flush_same = flush_fold [of "wq_backlog wq" "wq\<lparr>wq_backlog := []\<rparr>", folded flush_backlog_def, simplified] for wq

lemma workqueue_destroy_items:
  assumes inv: "wq_inv wq" and d: "workqueue_destroy wq = (wq', stopped)"
  shows "wq_count wq' = 0" and "wq_backlog wq' = []" and "wq_log wq' = wq_log wq"
    and "w \<in> set (wq_backlog wq) \<Longrightarrow> workqueue_work_is_complete wq' w"
    and "(p, e) \<in> set stopped \<Longrightarrow> holds p = Some w \<Longrightarrow> active wq' w"
proof -
  have wq': "wq' = (flush_backlog wq)\<lparr>wq_workers := []\<rparr>"
    and st: "stopped = map (\<lambda>w. (wr_pc w, event_cleanup (wr_event w))) (wq_workers wq)"
    using d flush_same [of wq] by (auto simp: workqueue_destroy_def Let_def)
  show "wq_count wq' = 0" "wq_backlog wq' = []" "wq_log wq' = wq_log wq"
    using inv flush_same [of wq] by (simp_all add: wq' wq_inv_def)
  show "workqueue_work_is_complete wq' w" if "w \<in> set (wq_backlog wq)"
    using that flush_same [of wq w] by (simp add: wq' workqueue_work_is_complete_def)
  show "active wq' w" if "(p, e) \<in> set stopped" "holds p = Some w"
  proof -
    from that st obtain i where i: "i < length (wq_workers wq)" "wr_pc (wq_workers wq ! i) = p" by (auto simp: in_set_conv_nth)
    with that(2) have act: "active wq w" "0 < num holds w (wq_workers wq)"
      using held_active [OF inv i(1)] num_pos [OF i(1)] by simp_all
    then have "count_list (wq_backlog wq) w = 0" using item_place [OF inv, of w] by simp
    then have "w \<notin> set (wq_backlog wq)" by (simp add: count_list_0_iff)
    with act(1) show ?thesis using flush_same [of wq w] by (simp add: wq' active_def)
  qed
qed

end
