(* ===== verification/WorkBacklog.thy ===== *)
theory WorkBacklog
  imports WorkQueue SList
begin

text \<open>
  The backlog of the work queue (\<open>src/workqueue.c\<close>) as it lies in memory: the queue of \<open>src/queue.c\<close>, which
  links the nodes inside the work items.  The items are the elements of an array, as
  \<open>src/bus_server.c\<close> allocates them; the node is the first member of an item, and an item has 56
  bytes.  The operations of \<open>WorkQueue\<close> on a list of items are shown to be these.
\<close>

definition item_addr :: "addr \<Rightarrow> nat \<Rightarrow> addr" where
  "item_addr base w = base + 56 * w"

text \<open>\<open>CONTAINER_OF(node, work_t, node)\<close>, as an index.\<close>

definition item_of :: "addr \<Rightarrow> addr \<Rightarrow> nat" where
  "item_of base node = (node - base) div 56"

record backlog =
  bl_heap :: "node heap"
  bl_queue :: queue_t
  bl_count :: int

definition get_backlog_node :: "addr \<Rightarrow> backlog \<Rightarrow> (nat option \<times> backlog) option" where
  "get_backlog_node base b = do {
     (rc, node, h, q) \<leftarrow> queue_dequeue (bl_heap b) (bl_queue b);
     let b = b\<lparr>bl_heap := h, bl_queue := q\<rparr>;
     let b = (if rc = 0 then b\<lparr>bl_count := bl_count b - 1\<rparr> else b);
     if rc \<noteq> 0 then Some (None, b) else do { node \<leftarrow> node; Some (Some (item_of base node), b) }
   }"

definition put_backlog_node :: "addr \<Rightarrow> backlog \<Rightarrow> nat \<Rightarrow> backlog option" where
  "put_backlog_node base b w = do {
     (h, q) \<leftarrow> queue_enqueue (bl_heap b) (bl_queue b) (item_addr base w);
     Some (b\<lparr>bl_heap := h, bl_queue := q, bl_count := bl_count b + 1\<rparr>)
   }"

partial_function (option) flush_backlog_node ::
    "addr \<Rightarrow> backlog \<Rightarrow> (nat \<Rightarrow> work) \<Rightarrow> (backlog \<times> (nat \<Rightarrow> work)) option" where
  "flush_backlog_node base b works = do {
     (rc, node, h, q) \<leftarrow> queue_dequeue (bl_heap b) (bl_queue b);
     if rc \<noteq> 0 then Some (b\<lparr>bl_heap := h, bl_queue := q\<rparr>, works)
     else do {
       node \<leftarrow> node;
       let w = item_of base node;
       flush_backlog_node base (b\<lparr>bl_heap := h, bl_queue := q, bl_count := bl_count b - 1\<rparr>)
         (works(w := (works w)\<lparr>w_status := WQ_WORK_COMPLETE\<rparr>))
     }
   }"

lemma item_of_addr [simp]: "item_of base (item_addr base w) = w"
  by (simp add: item_of_def item_addr_def)

lemma item_addr_inj: "item_addr base v = item_addr base w \<longleftrightarrow> v = w"
  by (simp add: item_addr_def)

text \<open>The array of \<open>n\<close> items is allocated, and the queue links the nodes of the items in the list.\<close>

definition backlog_rel :: "addr \<Rightarrow> nat \<Rightarrow> backlog \<Rightarrow> nat list \<Rightarrow> int \<Rightarrow> bool" where
  "backlog_rel base n b ws c \<longleftrightarrow> base \<noteq> NULL \<and> (\<forall>w < n. item_addr base w \<in> dom (bl_heap b)) \<and>
     queue_repr (bl_heap b) (bl_queue b) (map (item_addr base) ws) \<and> bl_count b = c"

lemma dequeue_item:
  assumes "backlog_rel base n b (w # ws) c"
  shows "\<exists>h q. queue_dequeue (bl_heap b) (bl_queue b) = Some (0, Some (item_addr base w), h, q) \<and>
    backlog_rel base n (b\<lparr>bl_heap := h, bl_queue := q, bl_count := c'\<rparr>) ws c'"
proof -
  have "list_repr (bl_heap b) (queue_list (bl_queue b)) (item_addr base w # map (item_addr base) ws)"
    using assms by (simp add: backlog_rel_def queue_repr_def)
  from list_popleft_correct [OF this] obtain h l where
    "list_popleft (bl_heap b) (queue_list (bl_queue b)) = Some (0, Some (item_addr base w), h, l)"
    "list_repr h l (map (item_addr base) ws)" "dom h = dom (bl_heap b)" by (auto simp: only_touches_def)
  with assms show ?thesis by (auto simp: queue_dequeue_def backlog_rel_def queue_repr_def)
qed

lemma dequeue_empty:
  assumes "backlog_rel base n b [] c"
  shows "queue_dequeue (bl_heap b) (bl_queue b) = Some (- 1, None, bl_heap b, bl_queue b)"
  using assms list_popleft_empty [of "bl_heap b" "queue_list (bl_queue b)"]
  by (simp add: backlog_rel_def queue_repr_def queue_dequeue_def)

text \<open>Each operation, and the loop that empties the backlog.\<close>

lemma get_backlog_sim:
  assumes "backlog_rel base n b (wq_backlog wq) (wq_count wq)" and "get_backlog wq = (r, wq')"
  shows "\<exists>b'. get_backlog_node base b = Some (r, b') \<and> backlog_rel base n b' (wq_backlog wq') (wq_count wq')"
proof (cases "wq_backlog wq")
  case Nil
  with assms dequeue_empty [of base n b "wq_count wq"] show ?thesis
    by (auto simp: get_backlog_def get_backlog_node_def)
next
  case (Cons w ws)
  with assms obtain h q where "queue_dequeue (bl_heap b) (bl_queue b) = Some (0, Some (item_addr base w), h, q)"
    "backlog_rel base n (b\<lparr>bl_heap := h, bl_queue := q, bl_count := wq_count wq - 1\<rparr>) ws (wq_count wq - 1)"
    using dequeue_item [of base n b w ws "wq_count wq" "wq_count wq - 1"] by auto
  moreover have "bl_count b = wq_count wq" using assms(1) by (simp add: backlog_rel_def)
  ultimately show ?thesis using assms(2) Cons by (auto simp: get_backlog_def get_backlog_node_def)
qed

lemma put_backlog_sim:
  assumes "backlog_rel base n b ws c" and "w < n" and "w \<notin> set ws"
  shows "\<exists>b'. put_backlog_node base b w = Some b' \<and> backlog_rel base n b' (ws @ [w]) (c + 1)"
proof -
  have "fresh_node (bl_heap b) (map (item_addr base) ws) (item_addr base w)"
    using assms by (auto simp: fresh_node_def backlog_rel_def item_addr_inj) (simp add: item_addr_def)
  moreover have "list_repr (bl_heap b) (queue_list (bl_queue b)) (map (item_addr base) ws)"
    using assms(1) by (simp add: backlog_rel_def queue_repr_def)
  ultimately obtain h l where "list_append (bl_heap b) (queue_list (bl_queue b)) (item_addr base w) = Some (h, l)"
    "list_repr h l (map (item_addr base) ws @ [item_addr base w])" "dom h = dom (bl_heap b)"
    using list_append_correct by (meson only_touches_def)
  with assms(1) show ?thesis by (auto simp: put_backlog_node_def queue_enqueue_def backlog_rel_def queue_repr_def)
qed

lemma flush_backlog_sim:
  assumes "backlog_rel base n b ws c"
  shows "\<exists>b'. flush_backlog_node base b works =
      Some (b', \<lambda>w. if w \<in> set ws then (works w)\<lparr>w_status := WQ_WORK_COMPLETE\<rparr> else works w) \<and>
    backlog_rel base n b' [] (c - int (length ws))"
  using assms
proof (induction ws arbitrary: b c works)
  case Nil
  with dequeue_empty [OF Nil] show ?case by (simp add: flush_backlog_node.simps [of base b])
next
  case (Cons w ws)
  let ?works = "works(w := (works w)\<lparr>w_status := WQ_WORK_COMPLETE\<rparr>)"
  obtain h q where dq: "queue_dequeue (bl_heap b) (bl_queue b) = Some (0, Some (item_addr base w), h, q)"
    "backlog_rel base n (b\<lparr>bl_heap := h, bl_queue := q, bl_count := c - 1\<rparr>) ws (c - 1)"
    using dequeue_item [OF Cons.prems, of "c - 1"] by auto
  have "bl_count b = c" using Cons.prems by (simp add: backlog_rel_def)
  with dq(1) have run: "flush_backlog_node base b works =
      flush_backlog_node base (b\<lparr>bl_heap := h, bl_queue := q, bl_count := c - 1\<rparr>) ?works"
    by (subst flush_backlog_node.simps) (simp add: Let_def)
  have upd: "(\<lambda>v. if v \<in> set ws then (?works v)\<lparr>w_status := WQ_WORK_COMPLETE\<rparr> else ?works v) =
      (\<lambda>v. if v \<in> set (w # ws) then (works v)\<lparr>w_status := WQ_WORK_COMPLETE\<rparr> else works v)" by auto
  from Cons.IH [OF dq(2), of ?works] show ?case unfolding run upd by (simp add: algebra_simps del: fun_upd_apply)
qed

subsection \<open>The work queue over the queue in memory\<close>

text \<open>
  What a step of the work queue does in memory.  An addition or a removal is the operation of the queue; it
  must not fault, and what is removed must be what the work queue was given.  An item that is
  cleared loses the links of its node.
\<close>

definition backlog_does :: "addr \<Rightarrow> backlog_act \<Rightarrow> backlog \<Rightarrow> backlog option" where
  "backlog_does base a b = (case a of
       Other \<Rightarrow> Some b
     | Enqueued w \<Rightarrow> put_backlog_node base b w
     | Dequeued r \<Rightarrow> do { (r', b) \<leftarrow> get_backlog_node base b; if r' = r then Some b else None }
     | Cleared w \<Rightarrow>
         if item_addr base w \<in> dom (bl_heap b) then Some (b\<lparr>bl_heap := (bl_heap b)(item_addr base w \<mapsto> mk_node 0 0)\<rparr>)
         else None)"

fun backlog_run :: "addr \<Rightarrow> backlog_act list \<Rightarrow> backlog \<Rightarrow> backlog option" where
  "backlog_run base [] b = Some b"
| "backlog_run base (a # as) b = backlog_does base a b \<bind> backlog_run base as"

lemma backlog_run_append: "backlog_run base (as @ cs) b = backlog_run base as b \<bind> backlog_run base cs"
  by (induction as arbitrary: b) (auto split: bind_splits)

lemma clear_backlog_sim:
  assumes "backlog_rel base n b ws c" and "w < n" and "w \<notin> set ws"
  shows "\<exists>b'. backlog_does base (Cleared w) b = Some b' \<and> backlog_rel base n b' ws c"
proof -
  have "item_addr base w \<notin> set (map (item_addr base) ws)" using assms(3) by (auto simp: item_addr_inj)
  with assms show ?thesis by (auto simp: backlog_does_def backlog_rel_def queue_repr_def list_repr_def)
qed

text \<open>The node of an item that a thread puts into the backlog is not in it already.\<close>

lemma held_not_in_backlog:
  assumes "wq_inv wq" and "i < length (wq_workers wq)" and "holds (wr_pc (wq_workers wq ! i)) = Some w"
  shows "w \<notin> set (wq_backlog wq)"
  using item_place [OF assms(1), of w] num_pos [OF assms(2), of holds w] assms(3) held_active [OF assms]
  by (simp add: count_list_0_iff [symmetric])

lemma inactive_not_in_backlog: "wq_inv wq \<Longrightarrow> \<not> active wq w \<Longrightarrow> w \<notin> set (wq_backlog wq)"
  using item_place [of wq w] by (simp add: count_list_0_iff [symmetric])

text \<open>
  The work queue whose backlog is a list is what the code does with nodes linked in memory: as long as
  the items in use are those of the array, every step of a worker or client can be followed by the
  queue in memory, whose operations do not fault, give the worker the item it takes, and link the
  nodes of the items of the backlog in order.
\<close>

lemma backlog_follows:
  assumes inv: "wq_inv wq" and rel: "backlog_rel base n b (wq_backlog wq) (wq_count wq)"
    and step: "worker_act wq a wq' \<or> client_act False wq a wq'" and array: "\<And>w. active wq w \<Longrightarrow> w < n"
  shows "\<exists>b'. backlog_does base a b = Some b' \<and> backlog_rel base n b' (wq_backlog wq') (wq_count wq')"
proof -
  have same: ?thesis if "a = Other" "wq_backlog wq' = wq_backlog wq" "wq_count wq' = wq_count wq"
    using that rel by (simp add: backlog_does_def)
  have put: ?thesis if "a = Enqueued w" "w \<notin> set (wq_backlog wq)" "active wq w" "wq_backlog wq' = wq_backlog wq @ [w]"
      "wq_count wq' = wq_count wq + 1" for w
    using that put_backlog_sim [OF rel array [OF that(3)] that(2)] by (auto simp: backlog_does_def)
  from step show ?thesis
  proof
    assume "worker_act wq a wq'"
    then show ?thesis
    proof cases
      case (act i rc ticks)
      from act(2) show ?thesis
      proof (cases rule: workqueue_factory_cases)
        case none
        with get_backlog_sim [OF rel, of None wq] show ?thesis by (auto simp: backlog_does_def get_backlog_def)
      next
        case (fetch w ws)
        with get_backlog_sim [OF rel, of "Some w" "wq\<lparr>wq_backlog := ws, wq_count := wq_count wq - 1\<rparr>"] show ?thesis
          by (auto simp: backlog_does_def get_backlog_def)
      next
        case (requeue w)
        with held_not_in_backlog [OF inv act(1)] held_active [OF inv act(1)] show ?thesis
          by (intro put [of w]) (simp_all add: put_backlog_def)
      qed (intro same; simp add: wq_ops)+
    qed
  next
    assume "client_act False wq a wq'"
    then show ?thesis
    proof cases
      case go: put
      show ?thesis
      proof (cases "wq_client wq")
        case (Adding w)
        have act: "active wq w" using item_place [OF inv, of w] Adding by (cases "active wq w") simp_all
        then have "count_list (wq_backlog wq) w = 0" using item_place [OF inv, of w] Adding by simp
        then have "w \<notin> set (wq_backlog wq)" by (simp add: count_list_0_iff)
        with Adding act go show ?thesis by (intro put [of w]) (auto simp: client_put_def put_backlog_def)
      qed (intro same; use go in \<open>auto simp: client_put_def\<close>)+
    qed (intro same; simp add: workqueue_add_work_def)+
  qed
qed

end
