(* ===== verification/ChannelMgr.thy ===== *)
theory ChannelMgr
  imports HashMap CString
begin

text \<open>
  The channel manager (\<open>src/channel.c\<close>): open channels in the hash table of \<open>src/hashmap.c\<close>, by
  device name.  The table maps a name to the address of a \<open>struct channel\<close> in a heap of its own.
  The drivers (serial port, message queue, FIFO, bus) are behind a table of functions; what the
  \<open>setup\<close> function of a type does is a parameter, \<open>None\<close> for failure, and the calls of driver
  functions are logged.
\<close>

datatype channel_error =
    CHANNEL_ERR_NONE
  | CHANNEL_ERR_ALREADY_OPEN
  | CHANNEL_ERR_OPEN_FAILED
  | CHANNEL_ERR_UNKNOWN_TYPE
  | CHANNEL_ERR_NOT_OPEN
  | CHANNEL_ERR_OOM

datatype channel_type =
    CHANNEL_TYPE_ERR
  | CHANNEL_TYPE_UART
  | CHANNEL_TYPE_MSGQ
  | CHANNEL_TYPE_FIFO
  | CHANNEL_TYPE_UNIX_BUS
  | CHANNEL_TYPE_SENTINEL

record channel =
  ch_id :: int
  ch_speed :: int
  ch_device :: "u8 list"
  ch_is_server :: int
  ch_type :: channel_type
  ch_data :: addr

text \<open>The driver functions, by name.\<close>

record channel_ops =
  op_send :: string
  op_receive :: string
  op_flush :: string
  op_setup :: string
  op_teardown :: string

fun g_channel_ops :: "channel_type \<Rightarrow> channel_ops option" where
  "g_channel_ops CHANNEL_TYPE_UART = Some
     \<lparr> op_send = ''channel_uart_send'', op_receive = ''channel_uart_recv'', op_flush = ''channel_uart_flush'',
       op_setup = ''channel_uart_setup'', op_teardown = ''channel_uart_teardown'' \<rparr>"
| "g_channel_ops CHANNEL_TYPE_MSGQ = Some
     \<lparr> op_send = ''channel_msgq_send'', op_receive = ''channel_msgq_recv'', op_flush = ''channel_msgq_flush'',
       op_setup = ''channel_msgq_setup'', op_teardown = ''channel_msgq_teardown'' \<rparr>"
| "g_channel_ops CHANNEL_TYPE_FIFO = Some
     \<lparr> op_send = ''channel_fifo_send'', op_receive = ''channel_fifo_recv'', op_flush = ''channel_fifo_flush'',
       op_setup = ''channel_fifo_setup'', op_teardown = ''channel_fifo_teardown'' \<rparr>"
| "g_channel_ops CHANNEL_TYPE_UNIX_BUS = Some
     \<lparr> op_send = ''channel_unix_bus_send'', op_receive = ''channel_unix_bus_recv'', op_flush = ''channel_unix_bus_flush'',
       op_setup = ''channel_unix_bus_setup'', op_teardown = ''channel_unix_bus_teardown'' \<rparr>"
| "g_channel_ops _ = None"

datatype driver_call = Call string addr

record channel_manager =
  cm_open_channels :: int
  cm_items :: "item heap"
  cm_map :: hash_map
  cm_chans :: "channel heap"
  cm_calls :: "driver_call list"

text \<open>The counter keeps the value it has.\<close>

definition channel_manager_init :: "channel_manager \<Rightarrow> channel_manager" where
  "channel_manager_init ctx = ctx\<lparr>cm_map := hash_map_init\<rparr>"

definition channel_guess_type :: "u8 list \<Rightarrow> channel_type option" where
  "channel_guess_type desc = do {
     s \<leftarrow> c_string desc 0;
     Some (if s = ascii ''uart'' \<or> s = ascii ''usart'' \<or> s = ascii ''serial'' then CHANNEL_TYPE_UART
       else if s = ascii ''msgq'' \<or> s = ascii ''message_queue'' then CHANNEL_TYPE_MSGQ
       else if s = ascii ''fifo'' \<or> s = ascii ''pipe'' then CHANNEL_TYPE_FIFO
       else if s = ascii ''unix_bus'' then CHANNEL_TYPE_UNIX_BUS
       else CHANNEL_TYPE_ERR)
   }"

definition call_driver :: "channel_manager \<Rightarrow> string \<Rightarrow> addr \<Rightarrow> channel_manager" where
  "call_driver ctx f data = ctx\<lparr>cm_calls := cm_calls ctx @ [Call f data]\<rparr>"

text \<open>\<open>calloc\<close> yields an unused address or NULL.  The names are strings without their terminators.\<close>

definition channel_open ::
    "(item heap \<Rightarrow> addr) \<Rightarrow> (channel heap \<Rightarrow> addr) \<Rightarrow> (channel \<Rightarrow> addr option) \<Rightarrow> channel_manager \<Rightarrow>
       channel_type \<Rightarrow> u8 list option \<Rightarrow> int \<Rightarrow> int \<Rightarrow> (channel_error \<times> channel_manager) option" where
  "channel_open malloc calloc setup ctx type device speed is_server =
     (if type = CHANNEL_TYPE_ERR \<or> type = CHANNEL_TYPE_SENTINEL then Some (CHANNEL_ERR_UNKNOWN_TYPE, ctx)
      else case device of
          None \<Rightarrow> Some (CHANNEL_ERR_OPEN_FAILED, ctx)
        | Some dev \<Rightarrow> do {
            found \<leftarrow> hash_map_get (cm_items ctx) (cm_map ctx) (Some dev) 0;
            if found \<noteq> NULL then Some (CHANNEL_ERR_ALREADY_OPEN, ctx)
            else
              let c = calloc (cm_chans ctx)
              in if c = NULL then Some (CHANNEL_ERR_OOM, ctx)
                 else do {
                   let ch = \<lparr> ch_id = 0, ch_speed = speed, ch_device = dev, ch_is_server = is_server,
                              ch_type = type, ch_data = NULL \<rparr>;
                   ops \<leftarrow> g_channel_ops type;
                   case setup ch of
                     None \<Rightarrow> Some (CHANNEL_ERR_OPEN_FAILED, call_driver ctx (op_setup ops) NULL)
                   | Some data \<Rightarrow> do {
                       let ctx = call_driver (call_driver ctx (op_setup ops) NULL) (op_flush ops) data;
                       let ctx = ctx\<lparr>cm_open_channels := cm_open_channels ctx + 1\<rparr>;
                       let ch = ch\<lparr>ch_data := data, ch_id := cm_open_channels ctx\<rparr>;
                       (_, items, m) \<leftarrow> hash_map_insert malloc (cm_items ctx) (cm_map ctx) dev c;
                       Some (CHANNEL_ERR_NONE,
                         ctx\<lparr>cm_items := items, cm_map := m, cm_chans := (cm_chans ctx)(c \<mapsto> ch)\<rparr>)
                     }
                 }
          })"

text \<open>All five out-parameters: the identifier, the driver's data and its three functions.\<close>

definition channel_get ::
    "channel_manager \<Rightarrow> u8 list \<Rightarrow> (channel_error \<times> (int \<times> addr \<times> string \<times> string \<times> string) option) option" where
  "channel_get ctx device = do {
     c \<leftarrow> hash_map_get (cm_items ctx) (cm_map ctx) (Some device) 0;
     if c = NULL then Some (CHANNEL_ERR_NOT_OPEN, None)
     else do {
       ch \<leftarrow> deref (cm_chans ctx) c;
       ops \<leftarrow> g_channel_ops (ch_type ch);
       Some (CHANNEL_ERR_NONE, Some (ch_id ch, ch_data ch, op_send ops, op_receive ops, op_flush ops))
     }
   }"

definition channel_close :: "channel_manager \<Rightarrow> u8 list \<Rightarrow> (channel_error \<times> channel_manager) option" where
  "channel_close ctx device = do {
     c \<leftarrow> hash_map_get (cm_items ctx) (cm_map ctx) (Some device) 0;
     if c = NULL then Some (CHANNEL_ERR_NOT_OPEN, ctx)
     else do {
       ch \<leftarrow> deref (cm_chans ctx) c;
       ops \<leftarrow> g_channel_ops (ch_type ch);
       let ctx = call_driver ctx (op_teardown ops) (ch_data ch);
       (_, items, m) \<leftarrow> hash_map_delete (cm_items ctx) (cm_map ctx) (Some device) 0;
       Some (CHANNEL_ERR_NONE,
         ctx\<lparr>cm_items := items, cm_map := m, cm_open_channels := cm_open_channels ctx - 1,
             cm_chans := (cm_chans ctx)(c := None)\<rparr>)
     }
   }"

text \<open>Closing every channel while iterating, then freeing the table.\<close>

partial_function (option) teardown_loop :: "channel_manager \<Rightarrow> hash_map_iterator \<Rightarrow> channel_manager option" where
  "teardown_loop ctx it = do {
     (out, it) \<leftarrow> hash_map_it_next (cm_items ctx) (cm_map ctx) it;
     (case out of
        None \<Rightarrow> Some ctx
      | Some (device, c) \<Rightarrow> do {
          (rc, ctx) \<leftarrow> channel_close ctx device;
          teardown_loop ctx it
        })
   }"

definition channel_hash_map_callback :: "channel heap \<Rightarrow> u8 list \<times> addr \<Rightarrow> channel heap option" where
  "channel_hash_map_callback chans kv = do {
     ch \<leftarrow> deref chans (snd kv);
     Some (chans(snd kv := None))
   }"

definition channel_manager_teardown :: "channel_manager \<Rightarrow> channel_manager option" where
  "channel_manager_teardown ctx = do {
     ctx \<leftarrow> teardown_loop ctx hash_map_it_init;
     (items, m, kvs) \<leftarrow> hash_map_free (cm_items ctx) (cm_map ctx);
     chans \<leftarrow> fold (\<lambda>kv h. h \<bind> (\<lambda>h. channel_hash_map_callback h kv)) kvs (Some (cm_chans ctx));
     Some (ctx\<lparr>cm_items := items, cm_map := m, cm_chans := chans\<rparr>)
   }"

subsection \<open>The registry of open channels\<close>

text \<open>A client's calls, and what they do to a map from names to channels and a counter.\<close>

datatype cm_op = Open channel_type "u8 list option" int int | Get "u8 list" | Close "u8 list"

type_synonym registry = "(u8 list \<rightharpoonup> channel) \<times> int"
type_synonym cm_out = "channel_error \<times> (int \<times> addr \<times> string \<times> string \<times> string) option"

definition view :: "channel \<Rightarrow> int \<times> addr \<times> string \<times> string \<times> string" where
  "view ch = (case g_channel_ops (ch_type ch) of
       None \<Rightarrow> (ch_id ch, ch_data ch, [], [], [])
     | Some ops \<Rightarrow> (ch_id ch, ch_data ch, op_send ops, op_receive ops, op_flush ops))"

fun reg_step :: "(channel \<Rightarrow> addr option) \<Rightarrow> registry \<Rightarrow> cm_op \<Rightarrow> cm_out \<times> registry" where
  "reg_step setup (M, n) (Open ty dev speed server) =
     (if ty = CHANNEL_TYPE_ERR \<or> ty = CHANNEL_TYPE_SENTINEL then ((CHANNEL_ERR_UNKNOWN_TYPE, None), (M, n))
      else case dev of
          None \<Rightarrow> ((CHANNEL_ERR_OPEN_FAILED, None), (M, n))
        | Some d \<Rightarrow>
            if M d \<noteq> None then ((CHANNEL_ERR_ALREADY_OPEN, None), (M, n))
            else
              let ch = \<lparr> ch_id = 0, ch_speed = speed, ch_device = d, ch_is_server = server, ch_type = ty, ch_data = NULL \<rparr>
              in case setup ch of
                  None \<Rightarrow> ((CHANNEL_ERR_OPEN_FAILED, None), (M, n))
                | Some data \<Rightarrow> ((CHANNEL_ERR_NONE, None), (M(d \<mapsto> ch\<lparr>ch_data := data, ch_id := n + 1\<rparr>), n + 1)))"
| "reg_step setup (M, n) (Get d) = (case M d of
       None \<Rightarrow> ((CHANNEL_ERR_NOT_OPEN, None), (M, n))
     | Some ch \<Rightarrow> ((CHANNEL_ERR_NONE, Some (view ch)), (M, n)))"
| "reg_step setup (M, n) (Close d) = (case M d of
       None \<Rightarrow> ((CHANNEL_ERR_NOT_OPEN, None), (M, n))
     | Some ch \<Rightarrow> ((CHANNEL_ERR_NONE, None), (M(d := None), n - 1)))"

fun reg_run :: "(channel \<Rightarrow> addr option) \<Rightarrow> registry \<Rightarrow> cm_op list \<Rightarrow> cm_out list" where
  "reg_run setup r [] = []"
| "reg_run setup r (p # ps) = (let (out, r) = reg_step setup r p in out # reg_run setup r ps)"

fun cm_run :: "('s \<Rightarrow> cm_op \<Rightarrow> (cm_out \<times> 's) option) \<Rightarrow> 's \<Rightarrow> cm_op list \<Rightarrow> (cm_out list \<times> 's) option" where
  "cm_run step s [] = Some ([], s)"
| "cm_run step s (p # ps) = do {
     (out, s) \<leftarrow> step s p;
     (outs, s) \<leftarrow> cm_run step s ps;
     Some (out # outs, s)
   }"

fun cm_step ::
    "(item heap \<Rightarrow> addr) \<Rightarrow> (channel heap \<Rightarrow> addr) \<Rightarrow> (channel \<Rightarrow> addr option) \<Rightarrow> channel_manager \<Rightarrow> cm_op \<Rightarrow>
       (cm_out \<times> channel_manager) option" where
  "cm_step malloc calloc setup ctx (Open ty dev speed server) =
     do { (rc, ctx) \<leftarrow> channel_open malloc calloc setup ctx ty dev speed server; Some ((rc, None), ctx) }"
| "cm_step malloc calloc setup ctx (Get d) = do { out \<leftarrow> channel_get ctx d; Some (out, ctx) }"
| "cm_step malloc calloc setup ctx (Close d) = do { (rc, ctx) \<leftarrow> channel_close ctx d; Some ((rc, None), ctx) }"

text \<open>The contract of a channel registry: every call does what the map and the counter say.\<close>

locale channel_registry =
  fixes R :: "'s \<Rightarrow> registry \<Rightarrow> bool"
    and step :: "'s \<Rightarrow> cm_op \<Rightarrow> (cm_out \<times> 's) option"
    and su :: "channel \<Rightarrow> addr option"
  assumes simulates: "R s r \<Longrightarrow> \<exists>s'. step s p = Some (fst (reg_step su r p), s') \<and> R s' (snd (reg_step su r p))"
begin

lemma run_simulates: "R s r \<Longrightarrow> \<exists>s'. cm_run step s ps = Some (reg_run su r ps, s')"
proof (induction ps arbitrary: s r)
  case Nil
  then show ?case by simp
next
  case (Cons p ps)
  from simulates [OF Cons.prems, of p] obtain s' where
    "step s p = Some (fst (reg_step su r p), s')" "R s' (snd (reg_step su r p))" by blast
  with Cons.IH show ?case by (fastforce simp: case_prod_beta)
qed

end

definition good_calloc :: "(channel heap \<Rightarrow> addr) \<Rightarrow> bool" where
  "good_calloc calloc \<longleftrightarrow> (\<forall>h. finite (dom h) \<longrightarrow> calloc h \<noteq> NULL \<and> h (calloc h) = None)"

text \<open>
  The registry a manager stands for: the table sends each open name to its own live channel, of a
  type that has a driver.
\<close>

definition holds :: "channel heap \<Rightarrow> (u8 list \<rightharpoonup> addr) \<Rightarrow> (u8 list \<rightharpoonup> channel) \<Rightarrow> bool" where
  "holds chans d M \<longleftrightarrow> inj_on d (dom d) \<and> (\<forall>k. M k = None \<longleftrightarrow> d k = None) \<and>
     (\<forall>k a. d k = Some a \<longrightarrow> a \<noteq> NULL \<and> (\<exists>ch. chans a = Some ch \<and> M k = Some ch \<and> g_channel_ops (ch_type ch) \<noteq> None))"

definition cm_rel ::
    "(item heap \<Rightarrow> addr) \<Rightarrow> (channel heap \<Rightarrow> addr) \<Rightarrow> channel_manager \<Rightarrow> registry \<Rightarrow> bool" where
  "cm_rel malloc calloc ctx r \<longleftrightarrow> good_calloc calloc \<and> finite (dom (cm_chans ctx)) \<and> cm_open_channels ctx = snd r \<and>
     (\<exists>d. hm_rel malloc (cm_items ctx, cm_map ctx) d \<and> holds (cm_chans ctx) d (fst r))"

lemma hm_rel_get: "hm_rel malloc (h, m) d \<Longrightarrow> hash_map_get h m (Some k) 0 = Some (or_null (d k))"
  by (auto simp: hm_rel_def hash_map_get_correct)

lemma hm_rel_insert:
  assumes "hm_rel malloc (h, m) d"
  shows "\<exists>rc h' m'. hash_map_insert malloc h m k v = Some (rc, h', m') \<and> hm_rel malloc (h', m') (d(k \<mapsto> v))"
  using hm.simulates [OF assms, of "MInsert k v"] by (auto split: Option.bind_splits)

lemma hm_rel_delete:
  assumes "hm_rel malloc (h, m) d"
  shows "\<exists>h' m'. hash_map_delete h m (Some k) 0 = Some (or_null (d k), h', m') \<and> hm_rel malloc (h', m') (d(k := None))"
  using hm.simulates [OF assms, of "MDelete k"] by auto

lemma holds_found:
  assumes "holds chans d M" and "M k = Some ch"
  shows "\<exists>a ops. d k = Some a \<and> or_null (d k) = a \<and> a \<noteq> NULL \<and> chans a = Some ch \<and>
    g_channel_ops (ch_type ch) = Some ops"
proof -
  from assms have "d k \<noteq> None" by (metis holds_def option.distinct(1))
  with assms show ?thesis by (fastforce simp: holds_def or_null_def)
qed

lemma holds_missing: "holds chans d M \<Longrightarrow> M k = None \<Longrightarrow> d k = None \<and> or_null (d k) = NULL"
  by (simp add: holds_def or_null_def)

lemma holds_new:
  assumes "holds chans d M" and "chans c = None" and "c \<noteq> NULL" and "g_channel_ops (ch_type ch) \<noteq> None"
  shows "holds (chans(c \<mapsto> ch)) (d(k \<mapsto> c)) (M(k \<mapsto> ch))"
  using assms by (fastforce simp: holds_def inj_on_def)

lemma holds_delete:
  assumes "holds chans d M" and "d k = Some a"
  shows "holds (chans(a := None)) (d(k := None)) (M(k := None))"
  using assms by (fastforce simp: holds_def inj_on_def dom_def)

lemma g_channel_ops_some:
  "\<not> (ty = CHANNEL_TYPE_ERR \<or> ty = CHANNEL_TYPE_SENTINEL) \<Longrightarrow> \<exists>ops. g_channel_ops ty = Some ops"
  by (cases ty) auto

lemma channel_open_simulates:
  assumes "cm_rel malloc calloc ctx (M, n)"
  shows "\<exists>s'. cm_step malloc calloc su ctx (Open ty dev speed server) =
      Some (fst (reg_step su (M, n) (Open ty dev speed server)), s') \<and>
    cm_rel malloc calloc s' (snd (reg_step su (M, n) (Open ty dev speed server)))"
proof (cases "ty = CHANNEL_TYPE_ERR \<or> ty = CHANNEL_TYPE_SENTINEL \<or> dev = None")
  case True
  with assms show ?thesis by (auto simp: channel_open_def)
next
  case False
  then obtain k where k: "dev = Some k" and ty: "\<not> (ty = CHANNEL_TYPE_ERR \<or> ty = CHANNEL_TYPE_SENTINEL)" by auto
  from g_channel_ops_some [OF ty] obtain ops where ops: "g_channel_ops ty = Some ops" by blast
  from assms obtain d where cal: "good_calloc calloc" "finite (dom (cm_chans ctx))" "cm_open_channels ctx = n"
    and hm: "hm_rel malloc (cm_items ctx, cm_map ctx) d" and h: "holds (cm_chans ctx) d M"
    by (auto simp: cm_rel_def)
  from hm_rel_get [OF hm, of k] have get: "hash_map_get (cm_items ctx) (cm_map ctx) (Some k) 0 = Some (or_null (d k))" .
  show ?thesis
  proof (cases "M k")
    case (Some ch)
    from holds_found [OF h Some] obtain a where "or_null (d k) = a" "a \<noteq> NULL" by blast
    with get have "hash_map_get (cm_items ctx) (cm_map ctx) (Some k) 0 = Some a" by simp
    with \<open>a \<noteq> NULL\<close> Some k ty assms show ?thesis by (auto simp: channel_open_def)
  next
    case None
    let ?c = "calloc (cm_chans ctx)"
    let ?ch = "\<lparr> ch_id = 0, ch_speed = speed, ch_device = k, ch_is_server = server, ch_type = ty, ch_data = NULL \<rparr>"
    have c: "?c \<noteq> NULL" "cm_chans ctx ?c = None" using cal by (auto simp: good_calloc_def)
    note d = holds_missing [OF h None, THEN conjunct2]
    show ?thesis
    proof (cases "su ?ch")
      case su: None
      then show ?thesis using None get d c k ty ops assms
        by (auto simp: channel_open_def Let_def call_driver_def cm_rel_def)
    next
      case su: (Some data)
      let ?ch' = "?ch\<lparr>ch_data := data, ch_id := n + 1\<rparr>"
      from hm_rel_insert [OF hm, of k ?c] obtain rc h' m' where
        ins: "hash_map_insert malloc (cm_items ctx) (cm_map ctx) k ?c = Some (rc, h', m')"
        "hm_rel malloc (h', m') (d(k \<mapsto> ?c))" by blast
      have "holds ((cm_chans ctx)(?c \<mapsto> ?ch')) (d(k \<mapsto> ?c)) (M(k \<mapsto> ?ch'))"
        by (rule holds_new [OF h c(2,1)]) (simp add: ops)
      with ins su None get d c k ty ops cal show ?thesis
        by (auto simp: channel_open_def Let_def call_driver_def cm_rel_def)
    qed
  qed
qed

lemma cm_step_simulates:
  assumes "cm_rel malloc calloc ctx r"
  shows "\<exists>s'. cm_step malloc calloc su ctx p = Some (fst (reg_step su r p), s') \<and>
    cm_rel malloc calloc s' (snd (reg_step su r p))"
proof -
  obtain M n where r: "r = (M, n)" by (cases r)
  from assms obtain d where cal: "good_calloc calloc" "finite (dom (cm_chans ctx))" "cm_open_channels ctx = n"
    and hm: "hm_rel malloc (cm_items ctx, cm_map ctx) d" and h: "holds (cm_chans ctx) d M"
    by (auto simp: cm_rel_def r)
  note get = hm_rel_get [OF hm]
  show ?thesis
  proof (cases p)
    case (Open ty dev speed server)
    with channel_open_simulates [OF assms [unfolded r]] show ?thesis by (simp add: r)
  next
    case (Get k)
    show ?thesis
    proof (cases "M k")
      case None
      with holds_missing [OF h None] get [of k] assms show ?thesis
        by (simp add: r Get channel_get_def or_null_def)
    next
      case (Some ch)
      from holds_found [OF h Some] obtain a ops where a: "or_null (d k) = a" "a \<noteq> NULL"
        "cm_chans ctx a = Some ch" "g_channel_ops (ch_type ch) = Some ops" by blast
      from get [of k] have "hash_map_get (cm_items ctx) (cm_map ctx) (Some k) 0 = Some a" by (simp add: a(1))
      with a(2-4) Some assms show ?thesis by (simp add: r Get channel_get_def view_def)
    qed
  next
    case (Close k)
    show ?thesis
    proof (cases "M k")
      case None
      with holds_missing [OF h None] get [of k] assms show ?thesis
        by (simp add: r Close channel_close_def or_null_def)
    next
      case (Some ch)
      from holds_found [OF h Some] obtain a ops where a: "d k = Some a" "or_null (d k) = a" "a \<noteq> NULL"
        "cm_chans ctx a = Some ch" "g_channel_ops (ch_type ch) = Some ops" by blast
      from hm_rel_delete [OF hm, of k] obtain h' m' where
        del: "hash_map_delete (cm_items ctx) (cm_map ctx) (Some k) 0 = Some (or_null (d k), h', m')"
        "hm_rel malloc (h', m') (d(k := None))" by blast
      from holds_delete [OF h a(1)] del a Some get [of k] cal show ?thesis
        by (auto simp: r Close channel_close_def deref_def call_driver_def cm_rel_def Let_def)
    qed
  qed
qed

interpretation cm: channel_registry "cm_rel malloc calloc" "cm_step malloc calloc su" su for malloc calloc su
  by unfold_locales (rule cm_step_simulates)

lemma cm_rel_init:
  assumes "good_malloc malloc" and "good_calloc calloc" and "finite (dom (cm_items ctx))" and "finite (dom (cm_chans ctx))"
  shows "cm_rel malloc calloc (channel_manager_init ctx) (Map.empty, cm_open_channels ctx)"
  using assms hm_rel_init [OF assms(1,3)]
  by (auto simp: cm_rel_def channel_manager_init_def holds_def intro!: exI [of _ Map.empty])


definition bump_calloc :: "channel heap \<Rightarrow> addr" where
  "bump_calloc h = Suc (Max (insert 0 (dom h)))"

lemma bump_calloc_good: "good_calloc bump_calloc"
proof -
  have "h (bump_calloc h) = None" if "finite (dom h)" for h :: "channel heap"
  proof (rule ccontr)
    assume "h (bump_calloc h) \<noteq> None"
    then have "bump_calloc h \<le> Max (insert 0 (dom h))" using that by (intro Max_ge) (auto simp: domI)
    then show False by (simp add: bump_calloc_def)
  qed
  then show ?thesis by (simp add: good_calloc_def bump_calloc_def)
qed

text \<open>A manager in fresh memory, and a driver whose set-up fails for the serial port only.\<close>

definition fresh_cm :: channel_manager where
  "fresh_cm = \<lparr> cm_open_channels = 0, cm_items = Map.empty, cm_map = hash_map_init, cm_chans = Map.empty, cm_calls = [] \<rparr>"

definition some_setup :: "channel \<Rightarrow> addr option" where
  "some_setup ch = (if ch_type ch = CHANNEL_TYPE_UART then None else Some 9)"


text \<open>
  An identifier is the number of channels open just after, so it is not unique: with two channels
  open, closing the first and opening another gives the second's identifier again.
\<close>

lemma channel_ids_collide:
  "\<exists>s. cm_run (cm_step bump_malloc bump_calloc some_setup) (channel_manager_init fresh_cm)
     [Open CHANNEL_TYPE_FIFO (Some [97]) 0 0, Open CHANNEL_TYPE_FIFO (Some [98]) 0 0, Close [97],
      Open CHANNEL_TYPE_FIFO (Some [99]) 0 0, Get [98], Get [99]] =
   Some ([(CHANNEL_ERR_NONE, None), (CHANNEL_ERR_NONE, None), (CHANNEL_ERR_NONE, None), (CHANNEL_ERR_NONE, None),
      (CHANNEL_ERR_NONE, Some (2, 9, ''channel_fifo_send'', ''channel_fifo_recv'', ''channel_fifo_flush'')), (CHANNEL_ERR_NONE, Some (2, 9, ''channel_fifo_send'', ''channel_fifo_recv'', ''channel_fifo_flush''))], s)"
  using cm.run_simulates
    [OF cm_rel_init [OF bump_malloc_good bump_calloc_good, of fresh_cm], of some_setup
      "[Open CHANNEL_TYPE_FIFO (Some [97]) 0 0, Open CHANNEL_TYPE_FIFO (Some [98]) 0 0, Close [97],
        Open CHANNEL_TYPE_FIFO (Some [99]) 0 0, Get [98], Get [99]]"]
  by (simp add: fresh_cm_def some_setup_def view_def del: cm_run.simps cm_step.simps)

end
