(* ===== verification/ChannelTeardown.thy ===== *)
theory ChannelTeardown
  imports ChannelMgr
begin

text \<open>
  Tearing the channel manager down: the loop of \<open>channel_manager_teardown\<close> deletes the item it is
  visiting from the table.  The iterator has read the item's successor before, and everything
  already visited is gone, so the item visited is always the first of its bucket.
\<close>

subsection \<open>The iterator in front of the first item\<close>

lemma skip_empty_to:
  "pos \<le> i \<Longrightarrow> i < pos + n \<Longrightarrow> i < length pool \<Longrightarrow> pool ! i \<noteq> NULL \<Longrightarrow> \<forall>j. pos \<le> j \<and> j < i \<longrightarrow> pool ! j = NULL \<Longrightarrow>
     skip_empty pool pos n = Some i"
proof (induction n arbitrary: pos)
  case (Suc n)
  then show ?case by (cases "pos = i") (auto simp: Suc_le_eq)
qed simp

lemma skip_empty_all:
  "pos + n \<le> length pool \<Longrightarrow> \<forall>j. pos \<le> j \<and> j < pos + n \<longrightarrow> pool ! j = NULL \<Longrightarrow> skip_empty pool pos n = Some (pos + n)"
  by (induction n arbitrary: pos) auto

text \<open>The buckets before the iterator's are empty, and it points to the head of its own.\<close>

definition it_front :: "hash_map \<Rightarrow> (nat \<Rightarrow> addr list) \<Rightarrow> hash_map_iterator \<Rightarrow> bool" where
  "it_front m bs it \<longleftrightarrow> iter_pos it \<le> hm_capacity m \<and> (\<forall>j < iter_pos it - 1. bs j = []) \<and>
     iter_item it = (if iter_pos it = 0 then NULL else hm_pool m ! (iter_pos it - 1))"

lemma hm_repr_chain:
  assumes "hm_repr h m bs" and "i < hm_capacity m"
  shows "chain it_next h (hm_pool m ! i) (bs i)" and "i < length (hm_pool m)"
  using assms by (auto simp: hm_repr_def bucket_def)

lemma hm_repr_NULL: "hm_repr h m bs \<Longrightarrow> i < hm_capacity m \<Longrightarrow> hm_pool m ! i = NULL \<longleftrightarrow> bs i = []"
  using hm_repr_chain(1) [of h m bs i] by (cases "bs i") auto

lemma it_next_done:
  assumes r: "hm_repr h m bs" and f: "it_front m bs it" and e: "\<forall>i < hm_capacity m. bs i = []"
  shows "\<exists>it'. hash_map_it_next h m it = Some (None, it')"
proof -
  have n: "hm_pool m ! i = NULL" if "i < hm_capacity m" for i using hm_repr_NULL [OF r that] e that by simp
  have "length (hm_pool m) = hm_capacity m" using r by (simp add: hm_repr_def)
  moreover have "iter_item it = NULL" using f n by (auto simp: it_front_def)
  moreover have "iter_pos it \<le> hm_capacity m" using f by (simp add: it_front_def)
  ultimately show ?thesis
    using skip_empty_all [of "iter_pos it" "hm_capacity m - iter_pos it" "hm_pool m"] n
    by (simp add: hash_map_it_next_def)
qed

lemma it_next_first:
  assumes r: "hm_repr h m bs" and f: "it_front m bs it" and i: "i < hm_capacity m" "bs i = a # ys" "\<forall>j < i. bs j = []"
    and n: "h a = Some n"
  shows "hash_map_it_next h m it = Some (Some (it_key n, it_val n), \<lparr>iter_pos = Suc i, iter_item = it_next n\<rparr>)"
proof -
  have a: "hm_pool m ! i = a" "a \<noteq> NULL" using hm_repr_chain(1) [OF r i(1)] i(2) by auto
  have nul: "hm_pool m ! j = NULL" if "j < i" for j using hm_repr_NULL [OF r, of j] i that by simp
  show ?thesis
  proof (cases "iter_item it = NULL")
    case True
    have pos: "iter_pos it \<le> i"
    proof (rule ccontr)
      assume "\<not> iter_pos it \<le> i"
      then have "i < iter_pos it - 1 \<or> i = iter_pos it - 1 \<and> iter_pos it \<noteq> 0" by linarith
      then show False
      proof
        assume "i < iter_pos it - 1"
        with f i(2) show False by (simp add: it_front_def)
      next
        assume "i = iter_pos it - 1 \<and> iter_pos it \<noteq> 0"
        with f True a show False by (simp add: it_front_def)
      qed
    qed
    have "skip_empty (hm_pool m) (iter_pos it) (hm_capacity m - iter_pos it) = Some i"
      by (rule skip_empty_to) (use pos i(1) a nul hm_repr_chain(2) [OF r i(1)] in auto)
    with True a n i(1) hm_repr_chain(2) [OF r i(1)] show ?thesis by (simp add: hash_map_it_next_def)
  next
    case False
    with f have p: "0 < iter_pos it" "iter_item it = hm_pool m ! (iter_pos it - 1)" "iter_pos it - 1 < hm_capacity m"
      "\<forall>j < iter_pos it - 1. bs j = []" by (auto simp: it_front_def split: if_splits)
    have "\<not> iter_pos it - 1 < i" using nul [of "iter_pos it - 1"] False p(2) by auto
    moreover have "\<not> i < iter_pos it - 1" using p(4) i(2) by auto
    ultimately have "iter_pos it = Suc i" using p(1) by linarith
    with p a n False show ?thesis by (cases it) (simp add: hash_map_it_next_def)
  qed
qed

text \<open>Deleting the first item of a bucket.\<close>

lemma delete_head:
  assumes r: "hm_repr h m bs" and i: "i < hm_capacity m" "bs i = a # ys" and n: "h a = Some n"
  shows "hash_map_delete h m (Some (it_key n)) kh =
      Some (it_val n, h(a := None), m\<lparr>hm_pool := (hm_pool m)[i := it_next n], hm_count := hm_count m - 1\<rparr>)" (is ?del)
    and "hm_repr (h(a := None)) (m\<lparr>hm_pool := (hm_pool m)[i := it_next n], hm_count := hm_count m - 1\<rparr>) (bs(i := ys))" (is ?repr)
proof -
  have b: "bucket h (hm_capacity m) i (hm_pool m ! i) (a # ys)"
    using r i unfolding hm_repr_def by metis
  note len = hm_repr_chain(2) [OF r i(1)]
  have a: "hm_pool m ! i = a" "a \<noteq> NULL" "chain it_next h (it_next n) ys" "it_hash n = hash_fn (it_key n)"
    "pool_pos (hm_capacity m) (hash_fn (it_key n)) = i" using b n by (auto simp: bucket_def)
  have d: "a \<notin> set ys" using chain_distinct [of it_next h "hm_pool m ! i" "a # ys"] b by (auto simp: bucket_def)
  have "hm_find h NULL a (Some (it_key n)) (hash_fn (it_key n)) = Some (NULL, a)"
    using a n by (subst hm_find.simps) simp
  with a n len show ?del by (simp add: hash_map_delete_def)
  have "length (bs i) \<le> hm_count m" using r i(1) by (auto simp: hm_repr_def intro: member_le_sum)
  with i(2) have count: "hm_count m - 1 + length (bs i) = hm_count m + length ys" by simp
  have "bucket (h(a := None)) (hm_capacity m) i ((hm_pool m)[i := it_next n] ! i) ys"
  proof -
    have "bucket h (hm_capacity m) i (it_next n) ys" using b a(3) by (auto simp: bucket_def)
    moreover have "\<And>c. c \<in> set ys \<Longrightarrow> (h(a := None)) c = h c" using d by auto
    ultimately show ?thesis using len bucket_frame [of ys "h(a := None)" h] by simp
  qed
  moreover have "(h(a := None)) c = h c" if "j < hm_capacity m" "j \<noteq> i" "c \<in> set (bs j)" for j c
    using hm_repr_disjoint [OF r that(1) i(1) that(2)] that(3) i(2) by auto
  ultimately show ?repr by (intro hm_repr_replace(1) [OF r i(1)]) (use count in auto)
qed

lemma concat_front:
  assumes "i < c" and "\<forall>j < i. f j = []"
  shows "concat (map f [0..<c]) = f i @ concat (map f [Suc i..<c])"
proof -
  have "[0..<c] = [0..<i] @ i # [Suc i..<c]"
    using assms(1) upt_add_eq_append [of 0 i "c - i"] by (simp add: upt_conv_Cons)
  with assms(2) show ?thesis by simp
qed

lemma delete_head_entries:
  assumes r: "hm_repr h m bs" and i: "i < hm_capacity m" "bs i = a # ys" "\<forall>j < i. bs j = []" and n: "h a = Some n"
  shows "all_entries h m bs =
      (it_key n, it_val n) # all_entries (h(a := None)) (m\<lparr>hm_pool := pool', hm_count := c'\<rparr>) (bs(i := ys))"
    and "items m bs = insert a (items (m\<lparr>hm_pool := pool', hm_count := c'\<rparr>) (bs(i := ys)))"
proof -
  have d: "a \<notin> set ys" using hm_repr_chain(1) [OF r i(1)] i(2) chain_distinct by fastforce
  have same: "entries (h(a := None)) as = entries h as" if "a \<notin> set as" for as
    using that by (intro entries_payload) (auto simp: payload_def)
  have "a \<notin> set (bs j)" if "j < hm_capacity m" "j \<noteq> i" for j
    using hm_repr_disjoint [OF r that(1) i(1) that(2)] i(2) by auto
  then have "entries (h(a := None)) ((bs(i := ys)) j) = entries h (bs j)" if "j \<in> set [Suc i..<hm_capacity m]" for j
    using same [of "bs j"] that by simp
  then have "concat (map (\<lambda>j. entries (h(a := None)) ((bs(i := ys)) j)) [Suc i..<hm_capacity m]) =
      concat (map (\<lambda>j. entries h (bs j)) [Suc i..<hm_capacity m])"
    by (intro arg_cong [where f = concat] map_cong refl)
  moreover have "entries h (bs i) = (it_key n, it_val n) # entries h ys" using i(2) n by (simp add: entries_def)
  moreover have "concat (map (\<lambda>j. entries h (bs j)) [0..<hm_capacity m]) =
      entries h (bs i) @ concat (map (\<lambda>j. entries h (bs j)) [Suc i..<hm_capacity m])"
    by (rule concat_front) (use i in \<open>auto simp: entries_def\<close>)
  moreover have "concat (map (\<lambda>j. entries (h(a := None)) ((bs(i := ys)) j)) [0..<hm_capacity m]) =
      entries (h(a := None)) ((bs(i := ys)) i) @
      concat (map (\<lambda>j. entries (h(a := None)) ((bs(i := ys)) j)) [Suc i..<hm_capacity m])"
    by (rule concat_front) (use i in \<open>auto simp: entries_def\<close>)
  ultimately show "all_entries h m bs =
      (it_key n, it_val n) # all_entries (h(a := None)) (m\<lparr>hm_pool := pool', hm_count := c'\<rparr>) (bs(i := ys))"
    using same [OF d] by (simp add: all_entries_def del: fun_upd_apply) (simp only: fun_upd_same)
  show "items m bs = insert a (items (m\<lparr>hm_pool := pool', hm_count := c'\<rparr>) (bs(i := ys)))"
    using i d by (auto simp: items_def split: if_splits) (metis lessThan_iff set_ConsD)
qed

subsection \<open>The loop\<close>

definition live :: "channel heap \<Rightarrow> u8 list \<times> addr \<Rightarrow> bool" where
  "live chans kv \<longleftrightarrow> snd kv \<noteq> NULL \<and> (\<exists>ch. chans (snd kv) = Some ch \<and> g_channel_ops (ch_type ch) \<noteq> None)"

text \<open>The driver call that ends a channel.\<close>

definition teardown_call :: "channel heap \<Rightarrow> u8 list \<times> addr \<Rightarrow> driver_call" where
  "teardown_call chans kv =
     Call (op_teardown (the (g_channel_ops (ch_type (the (chans (snd kv))))))) (ch_data (the (chans (snd kv))))"

lemma close_first:
  assumes r: "hm_repr (cm_items ctx) (cm_map ctx) bs"
    and i: "i < hm_capacity (cm_map ctx)" "bs i = a # ys" "\<forall>j < i. bs j = []" and n: "cm_items ctx a = Some n"
    and l: "live (cm_chans ctx) (it_key n, it_val n)"
  shows "channel_close ctx (it_key n) = Some (CHANNEL_ERR_NONE,
    ctx\<lparr>cm_calls := cm_calls ctx @ [teardown_call (cm_chans ctx) (it_key n, it_val n)],
        cm_items := (cm_items ctx)(a := None),
        cm_map := (cm_map ctx)\<lparr>hm_pool := (hm_pool (cm_map ctx))[i := it_next n], hm_count := hm_count (cm_map ctx) - 1\<rparr>,
        cm_open_channels := cm_open_channels ctx - 1,
        cm_chans := (cm_chans ctx)(it_val n := None)\<rparr>)"
proof -
  have "hm_abs (cm_items ctx) (cm_map ctx) bs (it_key n) = Some (it_val n)"
    unfolding all_entries_map(2) [OF r, symmetric] by (simp add: delete_head_entries(1) [OF r i n, where pool' = "[]" and c' = 0])
  with hash_map_get_correct [OF r, of "it_key n" 0] have
    "hash_map_get (cm_items ctx) (cm_map ctx) (Some (it_key n)) 0 = Some (it_val n)" by (simp add: or_null_def)
  with delete_head(1) [OF r i(1,2) n] l show ?thesis
    by (auto simp: channel_close_def live_def teardown_call_def call_driver_def Let_def)
qed

lemma freed_insert: "freed (h(a := None)) S = freed h (insert a S)"
  by (auto simp: freed_def)

text \<open>From the iterator's position on, every entry is closed, in order, and nothing else changes.\<close>

lemma teardown_loop_closes:
  assumes "hm_repr (cm_items ctx) (cm_map ctx) bs" and "it_front (cm_map ctx) bs it"
    and "all_entries (cm_items ctx) (cm_map ctx) bs = kvs" and "distinct (map snd kvs)"
    and "\<forall>kv \<in> set kvs. live (cm_chans ctx) kv"
  shows "\<exists>m' bs'. teardown_loop ctx it = Some
      (ctx\<lparr>cm_calls := cm_calls ctx @ map (teardown_call (cm_chans ctx)) kvs,
           cm_items := freed (cm_items ctx) (items (cm_map ctx) bs), cm_map := m',
           cm_open_channels := cm_open_channels ctx - int (length kvs),
           cm_chans := cm_chans ctx |` (- set (map snd kvs))\<rparr>) \<and>
    hm_repr (freed (cm_items ctx) (items (cm_map ctx) bs)) m' bs' \<and> (\<forall>i < hm_capacity m'. bs' i = [])"
  using assms
proof (induction kvs arbitrary: ctx bs it)
  case Nil
  let ?m = "cm_map ctx"
  have e: "\<forall>i < hm_capacity ?m. bs i = []"
    using Nil.prems(3) by (auto simp: all_entries_def entries_def)
  then have none: "items ?m bs = {}" by (simp add: items_def)
  from it_next_done [OF Nil.prems(1,2) e] have "teardown_loop ctx it = Some ctx"
    by (subst teardown_loop.simps) auto
  with Nil.prems(1) e none show ?case
    by (intro exI [of _ ?m] exI [of _ bs]) (simp add: freed_def)
next
  case (Cons kv kvs)
  let ?h = "cm_items ctx" and ?m = "cm_map ctx"
  note r = Cons.prems(1)
  have "\<exists>i < hm_capacity ?m. bs i \<noteq> []"
  proof (rule ccontr)
    assume "\<not> (\<exists>i < hm_capacity ?m. bs i \<noteq> [])"
    then have "all_entries ?h ?m bs = []" by (auto simp: all_entries_def entries_def)
    with Cons.prems(3) show False by simp
  qed
  then obtain i where i: "i < hm_capacity ?m" "bs i \<noteq> []" "\<forall>j < i. bs j = []"
    using exists_least_iff [of "\<lambda>i. i < hm_capacity ?m \<and> bs i \<noteq> []"] by (meson less_trans)
  then obtain a ys where ys: "bs i = a # ys" by (cases "bs i") auto
  from hm_repr_chain(1) [OF r i(1)] ys obtain n where n: "?h a = Some n" "chain it_next ?h (it_next n) ys"
    by (auto split: option.splits)
  let ?m' = "?m\<lparr>hm_pool := (hm_pool ?m)[i := it_next n], hm_count := hm_count ?m - 1\<rparr>"
  note ent = delete_head_entries [OF r i(1) ys i(3) n(1), where pool' = "(hm_pool ?m)[i := it_next n]" and c' = "hm_count ?m - 1"]
  from ent(1) Cons.prems(3) have kv: "kv = (it_key n, it_val n)"
    and kvs: "all_entries (?h(a := None)) ?m' (bs(i := ys)) = kvs" by simp_all
  let ?ctx = "ctx\<lparr>cm_calls := cm_calls ctx @ [teardown_call (cm_chans ctx) kv], cm_items := ?h(a := None), cm_map := ?m',
        cm_open_channels := cm_open_channels ctx - 1, cm_chans := (cm_chans ctx)(snd kv := None)\<rparr>"
  have close: "channel_close ctx (it_key n) = Some (CHANNEL_ERR_NONE, ?ctx)"
    using close_first [OF r i(1) ys i(3) n(1)] Cons.prems(5) by (simp add: kv)
  have step: "teardown_loop ctx it = teardown_loop ?ctx \<lparr>iter_pos = Suc i, iter_item = it_next n\<rparr>"
    using it_next_first [OF r Cons.prems(2) i(1) ys i(3) n(1)] close
    by (subst teardown_loop.simps) simp
  have front: "it_front ?m' (bs(i := ys)) \<lparr>iter_pos = Suc i, iter_item = it_next n\<rparr>"
    using i hm_repr_chain(2) [OF r i(1)] by (simp add: it_front_def)
  have others: "live ((cm_chans ctx)(snd kv := None)) x" "teardown_call ((cm_chans ctx)(snd kv := None)) x = teardown_call (cm_chans ctx) x"
    if "x \<in> set kvs" for x
  proof -
    have "snd x \<noteq> snd kv" using Cons.prems(4) that by (metis distinct.simps(2) image_eqI list.set_map list.simps(9))
    with Cons.prems(5) that show "live ((cm_chans ctx)(snd kv := None)) x"
      "teardown_call ((cm_chans ctx)(snd kv := None)) x = teardown_call (cm_chans ctx) x"
      by (auto simp: live_def teardown_call_def)
  qed
  then have calls: "map (teardown_call ((cm_chans ctx)(snd kv := None))) kvs = map (teardown_call (cm_chans ctx)) kvs"
    by simp
  have rest: "((cm_chans ctx)(snd kv := None)) |` (- set (map snd kvs)) = cm_chans ctx |` (- set (map snd (kv # kvs)))"
    by (auto simp: restrict_map_def)
  have "\<exists>m' bs'. teardown_loop ?ctx \<lparr>iter_pos = Suc i, iter_item = it_next n\<rparr> = Some
      (?ctx\<lparr>cm_calls := cm_calls ?ctx @ map (teardown_call (cm_chans ?ctx)) kvs,
           cm_items := freed (cm_items ?ctx) (items (cm_map ?ctx) (bs(i := ys))), cm_map := m',
           cm_open_channels := cm_open_channels ?ctx - int (length kvs),
           cm_chans := cm_chans ?ctx |` (- set (map snd kvs))\<rparr>) \<and>
    hm_repr (freed (cm_items ?ctx) (items (cm_map ?ctx) (bs(i := ys)))) m' bs' \<and> (\<forall>i < hm_capacity m'. bs' i = [])"
    by (rule Cons.IH) (use delete_head(2) [OF r i(1) ys n(1)] front kvs Cons.prems(4) others in \<open>simp_all del: fun_upd_apply\<close>)
  then show ?case
    unfolding step using ent(2) calls rest by (simp add: freed_insert diff_diff_eq del: fun_upd_apply)
qed

text \<open>
  C10.  \<open>channel_manager_teardown\<close> ends, although it deletes from the table it iterates over: it calls
  the teardown function of the driver of every open channel exactly once, frees every channel
  and leaves no item and no pool; other objects stay as they were.
\<close>

theorem channel_manager_teardown_closes_all:
  assumes hm: "hm_rel malloc (cm_items ctx, cm_map ctx) d" and h: "holds (cm_chans ctx) d M"
  shows "\<exists>ctx' kvs. channel_manager_teardown ctx = Some ctx' \<and> distinct (map fst kvs) \<and> map_of kvs = d \<and>
    cm_calls ctx' = cm_calls ctx @ map (teardown_call (cm_chans ctx)) kvs \<and>
    cm_chans ctx' = cm_chans ctx |` (- ran d) \<and> cm_open_channels ctx' = cm_open_channels ctx - int (length kvs) \<and>
    hm_pool (cm_map ctx') = [] \<and>
    (\<exists>bs. hm_repr (cm_items ctx) (cm_map ctx) bs \<and> cm_items ctx' = freed (cm_items ctx) (items (cm_map ctx) bs))"
proof -
  from hm obtain bs where r: "hm_repr (cm_items ctx) (cm_map ctx) bs" and d: "hm_abs (cm_items ctx) (cm_map ctx) bs = d"
    by (auto simp: hm_rel_def)
  let ?kvs = "all_entries (cm_items ctx) (cm_map ctx) bs"
  have k: "distinct (map fst ?kvs)" "map_of ?kvs = d" using all_entries_map [OF r] d by simp_all
  then have mem: "kv \<in> set ?kvs \<longleftrightarrow> d (fst kv) = Some (snd kv)" for kv
    by (cases kv) (auto simp: map_of_eq_Some_iff)
  have s: "distinct (map snd ?kvs)"
  proof -
    have "inj_on snd (set ?kvs)"
    proof (rule inj_onI)
      fix x y assume "x \<in> set ?kvs" "y \<in> set ?kvs" "snd x = snd y"
      then have "d (fst x) = Some (snd x)" "d (fst y) = Some (snd x)" by (simp_all add: mem)
      moreover have "inj_on d (dom d)" using h by (simp add: holds_def)
      ultimately have "fst x = fst y" by (metis domI inj_onD)
      with \<open>snd x = snd y\<close> show "x = y" by (simp add: prod_eq_iff)
    qed
    then show ?thesis using k(1) by (simp add: distinct_map)
  qed
  have l: "\<forall>kv \<in> set ?kvs. live (cm_chans ctx) kv" using h mem by (fastforce simp: holds_def live_def)
  have front: "it_front (cm_map ctx) bs hash_map_it_init" by (simp add: it_front_def hash_map_it_init_def)
  have ran: "ran d = set (map snd ?kvs)" using ran_distinct [OF k(1)] k(2) by simp
  let ?h = "freed (cm_items ctx) (items (cm_map ctx) bs)"
  from teardown_loop_closes [OF r front refl s l] obtain m' bs' where loop:
    "teardown_loop ctx hash_map_it_init = Some
      (ctx\<lparr>cm_calls := cm_calls ctx @ map (teardown_call (cm_chans ctx)) ?kvs, cm_items := ?h, cm_map := m',
           cm_open_channels := cm_open_channels ctx - int (length ?kvs), cm_chans := cm_chans ctx |` (- ran d)\<rparr>)"
    "hm_repr ?h m' bs'" "\<forall>i < hm_capacity m'. bs' i = []" unfolding ran by blast
  have none: "items m' bs' = {}" using loop(3) by (simp add: items_def)
  from hash_map_free_correct [OF loop(2)] obtain h' kvs' where
    free: "hash_map_free ?h m' = Some (h', \<lparr>hm_pool = [], hm_capacity = 0, hm_count = hm_count m'\<rparr>, kvs')"
    "map_of kvs' = hm_abs ?h m' bs'" "h' = freed ?h {}" unfolding none by blast
  have "all_entries ?h m' bs' = []" using loop(3) by (auto simp: all_entries_def entries_def)
  with all_entries_map(2) [OF loop(2)] free(2) have "map_of kvs' = Map.empty" by simp
  then have "kvs' = []" by (cases kvs') (auto dest: fun_cong)
  with free have "channel_manager_teardown ctx = Some
      (ctx\<lparr>cm_calls := cm_calls ctx @ map (teardown_call (cm_chans ctx)) ?kvs, cm_items := ?h,
           cm_map := \<lparr>hm_pool = [], hm_capacity = 0, hm_count = hm_count m'\<rparr>,
           cm_open_channels := cm_open_channels ctx - int (length ?kvs), cm_chans := cm_chans ctx |` (- ran d)\<rparr>)"
    by (simp add: channel_manager_teardown_def loop(1) freed_def)
  with k r show ?thesis by (intro exI conjI) (assumption | simp | auto simp: freed_def)+
qed

text \<open>A manager with one open FIFO.\<close>

definition one_cm :: channel_manager where
  "one_cm = \<lparr> cm_open_channels = 1, cm_items = one_item, cm_map = one_map,
     cm_chans = [9 \<mapsto> \<lparr> ch_id = 1, ch_speed = 0, ch_device = [97], ch_is_server = 0, ch_type = CHANNEL_TYPE_FIFO, ch_data = 3 \<rparr>],
     cm_calls = [] \<rparr>"

lemma one_abs: "hm_abs one_item one_map (\<lambda>_. [5]) = [[97] \<mapsto> 9]"
  by (rule ext) (simp add: hm_abs_def entries_def one_item_def payload_def)

theorem channel_manager_teardown_closes_all_witness:
  "\<exists>ctx'. channel_manager_teardown one_cm = Some ctx' \<and>
     cm_calls ctx' = [Call ''channel_fifo_teardown'' 3] \<and> cm_chans ctx' = Map.empty \<and> cm_open_channels ctx' = 0"
proof -
  have fin: "finite (dom one_item)" by (simp add: one_item_def)
  have hm: "hm_rel bump_malloc (cm_items one_cm, cm_map one_cm) [[97] \<mapsto> 9]"
    using one_repr one_abs bump_malloc_good fin by (auto simp: hm_rel_def one_cm_def)
  have h: "holds (cm_chans one_cm) [[97] \<mapsto> 9] [[97] \<mapsto> the (cm_chans one_cm 9)]"
    by (simp add: holds_def one_cm_def)
  from channel_manager_teardown_closes_all [OF hm h] obtain ctx' kvs where
    t: "channel_manager_teardown one_cm = Some ctx'" "distinct (map fst kvs)" "map_of kvs = [[97] \<mapsto> 9]"
    "cm_calls ctx' = cm_calls one_cm @ map (teardown_call (cm_chans one_cm)) kvs"
    "cm_chans ctx' = cm_chans one_cm |` (- ran [[97 :: u8] \<mapsto> 9 :: addr])"
    "cm_open_channels ctx' = cm_open_channels one_cm - int (length kvs)" by blast
  have "(k, v) \<in> set kvs \<longleftrightarrow> k = [97] \<and> v = 9" for k v
    using map_of_eq_Some_iff [OF t(2), of k v] by (auto simp: t(3) split: if_splits)
  then have "set kvs = {([97], 9)}" by auto
  moreover from t(2) have "distinct kvs" by (simp add: distinct_map)
  ultimately have "kvs = [([97], 9)]" by (cases kvs; cases "tl kvs") auto
  with t show ?thesis by (auto simp: one_cm_def teardown_call_def restrict_map_def)
qed

end
