(* ===== verification/Serial.thy ===== *)
theory Serial
  imports FdEvent CString
begin

unbundle bit_operations_syntax

text \<open>
  Serial ports (\<open>src/serial.c\<close>).  The flag values are those of Linux, and \<open>cfsetispeed\<close> and
  \<open>cfsetospeed\<close> are those of its C library.  What the kernel answers is a record of parameters; what the
  functions do to the device is a list of events.
\<close>

record termios =
  c_iflag :: u32
  c_oflag :: u32
  c_cflag :: u32
  c_lflag :: u32
  c_vmin :: u8
  c_vtime :: u8
  c_ispeed :: u32
  c_ospeed :: u32

definition CS5 :: u32 where "CS5 = 0"
definition CS6 :: u32 where "CS6 = 0x10"
definition CS7 :: u32 where "CS7 = 0x20"
definition CS8 :: u32 where "CS8 = 0x30"
definition CSTOPB :: u32 where "CSTOPB = 0x40"
definition CREAD :: u32 where "CREAD = 0x80"
definition PARENB :: u32 where "PARENB = 0x100"
definition PARODD :: u32 where "PARODD = 0x200"
definition CLOCAL :: u32 where "CLOCAL = 0x800"
definition CRTSCTS :: u32 where "CRTSCTS = 0x80000000"
definition IGNPAR :: u32 where "IGNPAR = 0x4"
definition INPCK :: u32 where "INPCK = 0x10"
definition CBAUD :: u32 where "CBAUD = 0x100f"
definition IBAUD0 :: u32 where "IBAUD0 = 0x80000000"
definition TIOCM_DTR :: u32 where "TIOCM_DTR = 0x2"
definition TIOCM_RTS :: u32 where "TIOCM_RTS = 0x4"
definition TIOCM_CTS :: u32 where "TIOCM_CTS = 0x20"
definition TIOCM_CAR :: u32 where "TIOCM_CAR = 0x40"
definition TIOCM_RNG :: u32 where "TIOCM_RNG = 0x80"
definition TIOCM_DSR :: u32 where "TIOCM_DSR = 0x100"

lemmas flag_defs = CS5_def CS6_def CS7_def CS8_def CSTOPB_def CREAD_def PARENB_def PARODD_def CLOCAL_def
  CRTSCTS_def IGNPAR_def INPCK_def CBAUD_def IBAUD0_def

lemmas modem_defs = TIOCM_DTR_def TIOCM_RTS_def TIOCM_CTS_def TIOCM_CAR_def TIOCM_RNG_def TIOCM_DSR_def

definition cfsetospeed :: "termios \<Rightarrow> u32 \<Rightarrow> termios" where
  "cfsetospeed t speed = t\<lparr>c_ospeed := speed, c_cflag := (c_cflag t AND NOT CBAUD) OR speed\<rparr>"

definition cfsetispeed :: "termios \<Rightarrow> u32 \<Rightarrow> termios" where
  "cfsetispeed t speed =
     (if speed = 0 then t\<lparr>c_ispeed := speed, c_iflag := c_iflag t OR IBAUD0\<rparr>
      else t\<lparr>c_ispeed := speed, c_iflag := c_iflag t AND NOT IBAUD0, c_cflag := (c_cflag t AND NOT CBAUD) OR speed\<rparr>)"

text \<open>The rates the code accepts, with the constants \<open>B50\<close> to \<open>B230400\<close>.\<close>

definition baud_codes :: "(int \<times> u32) list" where
  "baud_codes =
     [(50, 1), (75, 2), (110, 3), (134, 4), (150, 5), (200, 6), (300, 7), (600, 8), (1200, 9), (1800, 10),
      (2400, 11), (4800, 12), (9600, 13), (19200, 14), (38400, 15), (57600, 0x1001), (115200, 0x1002), (230400, 0x1003)]"

record serial =
  sr_fd :: int
  sr_new :: termios
  sr_old :: termios

text \<open>
  The kernel: the descriptor \<open>open\<close> returns, whether the lock is free, the settings of the port if
  it is a terminal, whether it takes new ones, its modem lines, and whether they can be set.
\<close>

record port =
  pt_open :: int
  pt_lock :: bool
  pt_termios :: "termios option"
  pt_set :: "termios \<Rightarrow> bool"
  pt_modem :: "u32 option"
  pt_set_modem :: bool

datatype port_event = POpened int | PClosed int | PLocked int | PUnlocked int | PAttr int termios | PModem int u32

definition zero_termios :: termios where
  "zero_termios = \<lparr> c_iflag = 0, c_oflag = 0, c_cflag = 0, c_lflag = 0, c_vmin = 0, c_vtime = 0, c_ispeed = 0, c_ospeed = 0 \<rparr>"

text \<open>
  The first half of \<open>serial_open()\<close>: the settings a rate and a mode stand for, \<open>None\<close> when they are
  refused.  Nothing has been opened then.  \<open>IGNPAR\<close>, a flag for input modes, is put among the
  control modes.
\<close>

definition serial_config :: "int \<Rightarrow> u8 list \<Rightarrow> termios option" where
  "serial_config baud mode = do {
     speed \<leftarrow> map_of baud_codes baud;
     if length mode < 3 \<or> length mode > 4 then None
     else do {
       let flow_control = (length mode = 4 \<and> (mode ! 3 = 70 \<or> mode ! 3 = 102));
       bits \<leftarrow> (if mode ! 0 = 56 then Some CS8 else if mode ! 0 = 55 then Some CS7
                else if mode ! 0 = 54 then Some CS6 else if mode ! 0 = 53 then Some CS5 else None);
       let cflags = 0 OR bits;
       let (cflags, ignore_parity) =
         (if mode ! 1 = 78 \<or> mode ! 1 = 110 then (cflags OR IGNPAR, True)
          else (let cflags = cflags OR PARENB
                in (if mode ! 1 = 79 \<or> mode ! 1 = 111 then cflags OR PARODD else cflags, False)));
       let cflags = (if mode ! 2 = 50 then cflags OR CSTOPB else cflags);
       let c_cflag = cflags OR CLOCAL OR CREAD;
       let c_cflag = (if flow_control then c_cflag OR CRTSCTS else c_cflag);
       let t = zero_termios\<lparr>c_cflag := c_cflag, c_iflag := if ignore_parity then IGNPAR else INPCK\<rparr>;
       Some (cfsetospeed (cfsetispeed t speed) speed)
     }
   }"

text \<open>The label \<open>error\<close> releases the lock, after the descriptor may have been closed.\<close>

definition serial_error :: "int \<Rightarrow> port_event list \<Rightarrow> serial option \<times> port_event list" where
  "serial_error fd es = (None, es @ (if fd \<noteq> 0 \<and> fd \<noteq> - 1 then [PUnlocked fd] else []))"

definition serial_open :: "port \<Rightarrow> int \<Rightarrow> u8 list \<Rightarrow> serial option \<times> port_event list" where
  "serial_open pt baud mode =
     (case serial_config baud mode of
        None \<Rightarrow> (None, [])
      | Some new \<Rightarrow>
          let fd = pt_open pt
          in if fd = - 1 then serial_error fd []
          else if \<not> pt_lock pt then serial_error fd [POpened fd, PClosed fd]
          else (case pt_termios pt of
              None \<Rightarrow> serial_error fd [POpened fd, PLocked fd, PClosed fd]
            | Some old \<Rightarrow>
                if \<not> pt_set pt new then serial_error fd [POpened fd, PLocked fd, PAttr fd old, PClosed fd]
                else (case pt_modem pt of
                    None \<Rightarrow> serial_error fd [POpened fd, PLocked fd, PAttr fd new, PAttr fd old]
                  | Some status \<Rightarrow>
                      if \<not> pt_set_modem pt then serial_error fd [POpened fd, PLocked fd, PAttr fd new, PAttr fd old]
                      else (Some \<lparr> sr_fd = fd, sr_new = new, sr_old = old \<rparr>,
                            [POpened fd, PLocked fd, PAttr fd new, PModem fd (status OR TIOCM_DTR OR TIOCM_RTS)]))))"

text \<open>When the lines cannot be read, \<open>status\<close> is not initialised: \<open>junk\<close>.\<close>

definition serial_close :: "port \<Rightarrow> u32 \<Rightarrow> serial option \<Rightarrow> port_event list" where
  "serial_close pt junk ctx =
     (case ctx of
        None \<Rightarrow> []
      | Some c \<Rightarrow>
          let status = (case pt_modem pt of None \<Rightarrow> junk | Some s \<Rightarrow> s);
              status = status AND NOT TIOCM_DTR;
              status = status AND NOT TIOCM_RTS
          in (if pt_set_modem pt then [PModem (sr_fd c) status] else []) @
             [PAttr (sr_fd c) (sr_old c), PClosed (sr_fd c), PUnlocked (sr_fd c)])"

text \<open>
  \<open>status\<close> is the modem lines read, or what the variable held when they could not be read; the
  result of the last two is the value set.
\<close>

definition serial_get_dcd :: "u32 \<Rightarrow> int" where
  "serial_get_dcd status = (if status AND TIOCM_CAR \<noteq> 0 then 1 else 0)"

definition serial_get_rng :: "u32 \<Rightarrow> int" where
  "serial_get_rng status = (if status AND TIOCM_RNG \<noteq> 0 then 1 else 0)"

definition serial_get_cts :: "u32 \<Rightarrow> int" where
  "serial_get_cts status = (if status AND TIOCM_CTS \<noteq> 0 then 1 else 0)"

definition serial_get_dsr :: "u32 \<Rightarrow> int" where
  "serial_get_dsr status = (if status AND TIOCM_DSR \<noteq> 0 then 1 else 0)"

definition serial_assert_dtr :: "u32 \<Rightarrow> int \<Rightarrow> u32" where
  "serial_assert_dtr status state = (if state \<noteq> 0 then status OR TIOCM_DTR else status AND NOT TIOCM_DTR)"

definition serial_assert_rts :: "u32 \<Rightarrow> int \<Rightarrow> u32" where
  "serial_assert_rts status state = (if state \<noteq> 0 then status OR TIOCM_RTS else status AND NOT TIOCM_RTS)"

text \<open>The answer of the one \<open>read\<close> or \<open>write\<close>.\<close>

fun serial_read :: "sys_result \<Rightarrow> int" where
  "serial_read (Done n) = int n"
| "serial_read (Failed e) = (if e = EAGAIN then 0 else - 1)"

fun serial_write :: "sys_result \<Rightarrow> int" where
  "serial_write (Done n) = int n"
| "serial_write (Failed e) = (if e = EAGAIN then 0 else - 1)"

text \<open>
  The queues of the driver: what has arrived and not been read, and what has been written and not been
  sent.  \<open>tcflush\<close> discards one or both.
\<close>

record tty_queues =
  tq_in :: "u8 list"
  tq_out :: "u8 list"

datatype tcflush_queue = TCIFLUSH | TCOFLUSH | TCIOFLUSH

definition tcflush :: "(int \<Rightarrow> tty_queues) \<Rightarrow> int \<Rightarrow> tcflush_queue \<Rightarrow> int \<Rightarrow> tty_queues" where
  "tcflush ts fd q = ts(fd := (case q of
       TCIFLUSH \<Rightarrow> (ts fd)\<lparr>tq_in := []\<rparr>
     | TCOFLUSH \<Rightarrow> (ts fd)\<lparr>tq_out := []\<rparr>
     | TCIOFLUSH \<Rightarrow> \<lparr> tq_in = [], tq_out = [] \<rparr>))"

definition serial_flush_rx :: "(int \<Rightarrow> tty_queues) \<Rightarrow> serial \<Rightarrow> int \<Rightarrow> tty_queues" where
  "serial_flush_rx ts ctx = tcflush ts (sr_fd ctx) TCIFLUSH"

definition serial_flush_tx :: "(int \<Rightarrow> tty_queues) \<Rightarrow> serial \<Rightarrow> int \<Rightarrow> tty_queues" where
  "serial_flush_tx ts ctx = tcflush ts (sr_fd ctx) TCOFLUSH"

definition serial_flush :: "(int \<Rightarrow> tty_queues) \<Rightarrow> serial \<Rightarrow> int \<Rightarrow> tty_queues" where
  "serial_flush ts ctx = tcflush ts (sr_fd ctx) TCIOFLUSH"

lemma serial_flush_both: "serial_flush ts ctx = serial_flush_tx (serial_flush_rx ts ctx) ctx"
  by (simp add: serial_flush_def serial_flush_rx_def serial_flush_tx_def tcflush_def fun_eq_iff)

subsection \<open>What a port is set to\<close>

datatype parity = NoParity | Even | Odd

text \<open>Rate, data bits, parity, two stop bits, hardware flow control.\<close>

type_synonym line_mode = "int \<times> nat \<times> parity \<times> bool \<times> bool"

definition line_mode_of :: "termios \<Rightarrow> line_mode option" where
  "line_mode_of t = do {
     rate \<leftarrow> map_of (map (\<lambda>(r, c). (c, r)) baud_codes) (c_cflag t AND CBAUD);
     Some (rate,
       (if c_cflag t AND CS8 = CS5 then 5 else if c_cflag t AND CS8 = CS6 then 6 else if c_cflag t AND CS8 = CS7 then 7 else 8),
       (if c_cflag t AND PARENB = 0 then NoParity else if c_cflag t AND PARODD = 0 then Even else Odd),
       c_cflag t AND CSTOPB \<noteq> 0, c_cflag t AND CRTSCTS \<noteq> 0)
   }"

text \<open>The mode string: data bits, parity, stop bits, flow control.\<close>

definition parse_mode :: "int \<Rightarrow> u8 list \<Rightarrow> line_mode option" where
  "parse_mode baud mode =
     (if baud \<in> fst ` set baud_codes \<and> length mode \<in> {3, 4} \<and> mode ! 0 \<in> set (ascii ''5678'')
      then Some (baud, unat (mode ! 0 - 48),
         (if mode ! 1 \<in> set (ascii ''Nn'') then NoParity else if mode ! 1 \<in> set (ascii ''Oo'') then Odd else Even),
         mode ! 2 = of_char (CHR ''2''), length mode = 4 \<and> mode ! 3 \<in> set (ascii ''Ff''))
      else None)"

lemma speed_field:
  fixes x :: u32
  assumes "speed AND NOT CBAUD = 0"
  shows "(x AND NOT CBAUD OR speed) AND CBAUD = speed"
    and "m AND CBAUD = 0 \<Longrightarrow> (x AND NOT CBAUD OR speed) AND m = x AND m"
    and "(x AND NOT CBAUD OR speed) AND NOT CBAUD = x AND NOT CBAUD"
proof -
  have s: "bit speed n \<Longrightarrow> bit CBAUD n" for n
    using arg_cong [OF assms, of "\<lambda>w. bit w n"] by (auto simp: bit_simps dest: bit_imp_le_length)
  show "(x AND NOT CBAUD OR speed) AND CBAUD = speed"
    by (rule bit_eqI) (use s in \<open>auto simp: bit_simps\<close>)
  show "(x AND NOT CBAUD OR speed) AND NOT CBAUD = x AND NOT CBAUD"
    by (rule bit_eqI) (use s in \<open>auto simp: bit_simps\<close>)
  assume "m AND CBAUD = 0"
  then have "\<not> (bit m n \<and> bit CBAUD n)" for n
    by (metis bit_0_eq bit_and_iff bot_apply bot_bool_def)
  then show "(x AND NOT CBAUD OR speed) AND m = x AND m"
    by (intro bit_eqI) (use s in \<open>auto simp: bit_simps\<close>)
qed

lemma baud_code_range: "(r, c) \<in> set baud_codes \<Longrightarrow> c AND NOT CBAUD = 0 \<and> c \<noteq> 0"
  by (auto simp: baud_codes_def CBAUD_def)

lemma baud_code_inverse: "map_of baud_codes r = Some c \<Longrightarrow> map_of (map (\<lambda>(r, c). (c, r)) baud_codes) c = Some r"
  by (auto simp: baud_codes_def split: if_splits)

text \<open>The control modes with a rate, and what can be read back from them.\<close>

lemma line_mode_of_config:
  assumes r: "map_of baud_codes baud = Some speed"
  shows "line_mode_of (cfsetospeed (cfsetispeed (zero_termios\<lparr>c_cflag := x, c_iflag := i\<rparr>) speed) speed) =
    Some (baud,
       (if x AND CS8 = CS5 then 5 else if x AND CS8 = CS6 then 6 else if x AND CS8 = CS7 then 7 else 8),
       (if x AND PARENB = 0 then NoParity else if x AND PARODD = 0 then Even else Odd),
       x AND CSTOPB \<noteq> 0, x AND CRTSCTS \<noteq> 0)"
proof -
  have c: "speed AND NOT CBAUD = 0" "speed \<noteq> 0" using baud_code_range [OF map_of_SomeD [OF r]] by auto
  have m: "CS8 AND CBAUD = 0" "PARENB AND CBAUD = 0" "PARODD AND CBAUD = 0" "CSTOPB AND CBAUD = 0" "CRTSCTS AND CBAUD = 0"
    by (simp_all add: flag_defs)
  show ?thesis
    by (simp add: line_mode_of_def cfsetospeed_def cfsetispeed_def zero_termios_def c(2) speed_field [OF c(1)] m
        baud_code_inverse [OF r])
qed

text \<open>The four groups of control modes do not overlap.\<close>

lemma control_flags:
  assumes "b \<in> {CS5, CS6, CS7, CS8}" and "p \<in> {IGNPAR, PARENB, PARENB OR PARODD}"
    and "s \<in> {0, CSTOPB}" and "f \<in> {0, CRTSCTS}"
  defines "x \<equiv> b OR p OR s OR CLOCAL OR CREAD OR f"
  shows "x AND CS8 = b" and "x AND PARENB = p AND PARENB" and "x AND PARODD = p AND PARODD"
    and "x AND CSTOPB = s" and "x AND CRTSCTS = f"
proof -
  have "b AND CS8 = b" "b AND (PARENB OR PARODD OR CSTOPB OR CRTSCTS) = 0"
    using assms(1) by (auto simp: flag_defs)
  moreover have "p AND (CS8 OR CSTOPB OR CRTSCTS) = 0" using assms(2) by (auto simp: flag_defs)
  moreover have "s AND CSTOPB = s" "s AND (CS8 OR PARENB OR PARODD OR CRTSCTS) = 0" using assms(3) by (auto simp: flag_defs)
  moreover have "f AND CRTSCTS = f" "f AND (CS8 OR PARENB OR PARODD OR CSTOPB) = 0" using assms(4) by (auto simp: flag_defs)
  moreover have "(CLOCAL OR CREAD) AND (CS8 OR PARENB OR PARODD OR CSTOPB OR CRTSCTS) = 0" by (simp add: flag_defs)
  ultimately show "x AND CS8 = b" "x AND PARENB = p AND PARENB" "x AND PARODD = p AND PARODD"
    "x AND CSTOPB = s" "x AND CRTSCTS = f"
    by (simp_all add: x_def bit.conj_disj_distrib bit.conj_disj_distrib2 or_eq_0_iff)
qed

text \<open>The flag of each character of the mode.\<close>

definition bits_flag :: "u8 \<Rightarrow> u32 option" where
  "bits_flag c = (if c = 56 then Some CS8 else if c = 55 then Some CS7
     else if c = 54 then Some CS6 else if c = 53 then Some CS5 else None)"

definition parity_flag :: "u8 \<Rightarrow> u32" where
  "parity_flag c = (if c = 78 \<or> c = 110 then IGNPAR else if c = 79 \<or> c = 111 then PARENB OR PARODD else PARENB)"

lemma serial_config_flags:
  assumes "map_of baud_codes baud = Some speed"
  shows "\<exists>i. serial_config baud mode =
    (if length mode < 3 \<or> length mode > 4 then None
     else map_option (\<lambda>b. cfsetospeed (cfsetispeed (zero_termios\<lparr>c_cflag :=
         b OR parity_flag (mode ! 1) OR (if mode ! 2 = 50 then CSTOPB else 0) OR CLOCAL OR CREAD OR
         (if length mode = 4 \<and> (mode ! 3 = 70 \<or> mode ! 3 = 102) then CRTSCTS else 0), c_iflag := i\<rparr>) speed) speed)
       (bits_flag (mode ! 0)))"
proof -
  show ?thesis
  proof (rule exI [of _ "if mode ! 1 = 78 \<or> mode ! 1 = 110 then IGNPAR else INPCK"])
    show "serial_config baud mode =
      (if length mode < 3 \<or> length mode > 4 then None
       else map_option (\<lambda>b. cfsetospeed (cfsetispeed (zero_termios\<lparr>c_cflag :=
           b OR parity_flag (mode ! 1) OR (if mode ! 2 = 50 then CSTOPB else 0) OR CLOCAL OR CREAD OR
           (if length mode = 4 \<and> (mode ! 3 = 70 \<or> mode ! 3 = 102) then CRTSCTS else 0),
           c_iflag := if mode ! 1 = 78 \<or> mode ! 1 = 110 then IGNPAR else INPCK\<rparr>) speed) speed)
         (bits_flag (mode ! 0)))"
      unfolding serial_config_def bits_flag_def [symmetric]
      by (cases "bits_flag (mode ! 0)"; cases "length mode = 4 \<and> (mode ! 3 = 70 \<or> mode ! 3 = 102)")
        (auto simp: assms parity_flag_def Let_def or.assoc)
  qed
qed


subsection \<open>Descriptors\<close>

fun port_fds :: "port_event list \<Rightarrow> int set \<Rightarrow> int set" where
  "port_fds [] F = F"
| "port_fds (POpened fd # es) F = port_fds es (insert fd F)"
| "port_fds (PClosed fd # es) F = port_fds es (F - {fd})"
| "port_fds (_ # es) F = port_fds es F"

text \<open>Every call but the first names an open descriptor.\<close>

fun uses_open :: "port_event list \<Rightarrow> int set \<Rightarrow> bool" where
  "uses_open [] F = True"
| "uses_open (POpened fd # es) F = uses_open es (insert fd F)"
| "uses_open (PClosed fd # es) F = (fd \<in> F \<and> uses_open es (F - {fd}))"
| "uses_open (PLocked fd # es) F = (fd \<in> F \<and> uses_open es F)"
| "uses_open (PUnlocked fd # es) F = (fd \<in> F \<and> uses_open es F)"
| "uses_open (PAttr fd t # es) F = (fd \<in> F \<and> uses_open es F)"
| "uses_open (PModem fd s # es) F = (fd \<in> F \<and> uses_open es F)"

text \<open>
  C14.  Descriptors of \<open>serial_open()\<close> and \<open>serial_close()\<close>, for a new positive descriptor.  A success leaves
  exactly the descriptor of the port open.  A failure closes it, unless the modem lines could not
  be read or set: then the port stays open, and there is no context to close it with.  Otherwise
  the lock is released on the descriptor just closed, as \<open>serial_close()\<close> does too.
\<close>

theorem serial_descriptors:
  assumes "pt_open pt = - 1 \<or> 0 < pt_open pt \<and> pt_open pt \<notin> F" and o: "serial_open pt baud mode = (r, es)"
  shows "(case r of
      Some ctx \<Rightarrow> port_fds es F = insert (sr_fd ctx) F \<and> sr_fd ctx \<notin> F \<and> uses_open es F \<and>
        port_fds (es @ serial_close pt junk (Some ctx)) F = F \<and> \<not> uses_open (es @ serial_close pt junk (Some ctx)) F
    | None \<Rightarrow>
        let new = serial_config baud mode;
            set_up = (new \<noteq> None \<and> pt_open pt \<noteq> - 1 \<and> pt_lock pt \<and> pt_termios pt \<noteq> None \<and> pt_set pt (the new))
        in port_fds es F = (if set_up then insert (pt_open pt) F else F) \<and>
           (uses_open es F \<longleftrightarrow> set_up \<or> new = None \<or> pt_open pt = - 1))"
proof -
  have "insert fd F - {fd} = F" if "fd \<notin> F" for fd using that by blast
  then show ?thesis
    using assms by (auto simp: serial_open_def serial_close_def serial_error_def Let_def split: option.splits if_splits)
qed

text \<open>A port whose modem lines cannot be read, such as a pseudo terminal: it stays open and locked.\<close>

definition some_port :: port where
  "some_port = \<lparr> pt_open = 3, pt_lock = True, pt_termios = Some zero_termios, pt_set = (\<lambda>_. True),
     pt_modem = None, pt_set_modem = True \<rparr>"

theorem serial_descriptors_witness:
  "\<exists>es. serial_open some_port 9600 (ascii ''8N1'') = (None, es) \<and> port_fds es {0} = {3, 0}"
proof -
  obtain r es where o: "serial_open some_port 9600 (ascii ''8N1'') = (r, es)" by fastforce
  have c: "\<exists>t. serial_config 9600 (ascii ''8N1'') = Some t"
    by (simp add: serial_config_def ascii_def baud_codes_def Let_def)
  with o have "r = None" by (auto simp: serial_open_def some_port_def serial_error_def Let_def)
  with serial_descriptors [of some_port "{0}", OF _ o] o c show ?thesis
    by (auto simp: some_port_def)
qed

end
