(* ===== verification/ChannelDrivers.thy ===== *)
theory ChannelDrivers
  imports Serial
begin

unbundle bit_operations_syntax

text \<open>
  The drivers behind the channel manager (\<open>src/channel.c\<close>): serial ports, named pipes and System V message
  queues.
  What the kernel answers is a record of parameters; what a driver does to descriptors and to the
  file system is the list of events it causes, in order.
\<close>

subsection \<open>Serial ports\<close>

definition channel_uart_setup :: "port \<Rightarrow> int \<Rightarrow> int \<times> serial option \<times> port_event list" where
  "channel_uart_setup pt speed =
     (case serial_open pt speed (ascii ''8N1'') of
        (None, es) \<Rightarrow> (- 1, None, es)
      | (Some ctx, es) \<Rightarrow> (0, Some ctx, es))"

definition channel_uart_teardown :: "port \<Rightarrow> u32 \<Rightarrow> serial option \<Rightarrow> port_event list" where
  "channel_uart_teardown pt junk data = serial_close pt junk data"

definition channel_uart_send :: "sys_result \<Rightarrow> int" where
  "channel_uart_send r = serial_write r"

definition channel_uart_recv :: "sys_result \<Rightarrow> int" where
  "channel_uart_recv r = serial_read r"

definition channel_uart_flush :: "(int \<Rightarrow> tty_queues) \<Rightarrow> serial \<Rightarrow> int \<Rightarrow> tty_queues" where
  "channel_uart_flush ts data = serial_flush ts data"

subsection \<open>Named pipes\<close>

datatype os_event = Unlinked "u8 list" | Made "u8 list" | Opened int | Closed int

record channel_fifo =
  ff_fifo0 :: "u8 list option"
  ff_fifo1 :: "u8 list option"
  ff_is_server :: bool
  ff_rfd :: int
  ff_wfd :: int

text \<open>Does \<open>mkfifo\<close> succeed; the descriptor \<open>open\<close> returns; the two answers of \<open>fcntl\<close>.\<close>

record fifo_kernel =
  fk_calloc :: bool
  fk_mkfifo :: "u8 list \<Rightarrow> bool"
  fk_open :: "u8 list \<Rightarrow> int"
  fk_getfl :: "int \<Rightarrow> int option"
  fk_setfl :: "int \<Rightarrow> int \<Rightarrow> bool"

definition O_NONBLOCK :: int where
  "O_NONBLOCK = 2048"

definition set_nonblock :: "fifo_kernel \<Rightarrow> int \<Rightarrow> int" where
  "set_nonblock k fd = fst (fcntl_setfl (fk_getfl k fd) (fk_setfl k fd) O_NONBLOCK)"

definition make_fifo :: "fifo_kernel \<Rightarrow> bool \<Rightarrow> u8 list \<Rightarrow> bool \<times> os_event list" where
  "make_fifo k server path =
     (if \<not> server then (True, [])
      else if fk_mkfifo k path then (True, [Unlinked path, Made path])
      else (False, [Unlinked path]))"

definition open_fifo :: "fifo_kernel \<Rightarrow> u8 list \<Rightarrow> int \<times> os_event list" where
  "open_fifo k path = (let fd = fk_open k path in (fd, if fd < 0 then [] else [Opened fd]))"

text \<open>The code at the label \<open>error\<close>: the second \<open>close\<close> is given the reading end again.\<close>

definition channel_fifo_error :: "channel_fifo \<Rightarrow> int \<times> channel_fifo option \<times> os_event list" where
  "channel_fifo_error ctx =
     (- 1, None,
      (if ff_rfd ctx > 0 then [Closed (ff_rfd ctx)] else []) @
      (if ff_wfd ctx > 0 then [Closed (ff_rfd ctx)] else []) @
      (case ff_fifo0 ctx of None \<Rightarrow> [] | Some p \<Rightarrow> [Unlinked p]) @
      (case ff_fifo1 ctx of None \<Rightarrow> [] | Some p \<Rightarrow> [Unlinked p]))"

text \<open>Prefixing the events so far.\<close>

definition after :: "os_event list \<Rightarrow> int \<times> channel_fifo option \<times> os_event list \<Rightarrow> int \<times> channel_fifo option \<times> os_event list" where
  "after es r = (case r of (rc, ctx, es') \<Rightarrow> (rc, ctx, es @ es'))"

definition channel_fifo_setup ::
    "fifo_kernel \<Rightarrow> u8 list \<Rightarrow> bool \<Rightarrow> int \<times> channel_fifo option \<times> os_event list" where
  "channel_fifo_setup k device server =
     (if length device > 120 then (- 1, None, [])
      else if \<not> fk_calloc k then (- 1, None, [])
      else
        let ctx = \<lparr> ff_fifo0 = None, ff_fifo1 = None, ff_is_server = server, ff_rfd = 0, ff_wfd = 0 \<rparr>;
            path = device @ ascii ''-0'';
            (ok, es) = make_fifo k server path
        in after es (if \<not> ok then channel_fifo_error ctx else
        let ctx = ctx\<lparr>ff_fifo0 := Some path\<rparr>;
            path0 = path;
            path = device @ ascii ''-1'';
            (ok, es) = make_fifo k server path
        in after es (if \<not> ok then channel_fifo_error ctx else
        let ctx = ctx\<lparr>ff_fifo1 := Some path\<rparr>;
            (fd, es) = open_fifo k (if server then path0 else path);
            ctx = ctx\<lparr>ff_rfd := fd\<rparr>
        in after es (if fd < 0 then channel_fifo_error ctx else
        let (fd, es) = open_fifo k (if server then path else path0);
            ctx = ctx\<lparr>ff_wfd := fd\<rparr>
        in after es (if fd < 0 then channel_fifo_error ctx
           else if set_nonblock k (ff_rfd ctx) < 0 then channel_fifo_error ctx
           else if set_nonblock k (ff_wfd ctx) < 0 then channel_fifo_error ctx
           else (0, Some ctx, []))))))"

text \<open>Both names are set once the set-up has succeeded.\<close>

definition channel_fifo_teardown :: "channel_fifo \<Rightarrow> os_event list" where
  "channel_fifo_teardown ctx =
     [Closed (ff_rfd ctx), Closed (ff_wfd ctx)] @
     (if ff_is_server ctx then [Unlinked (the (ff_fifo0 ctx)), Unlinked (the (ff_fifo1 ctx))] else [])"

text \<open>Sending and receiving go through the wrappers of \<open>fdutils.c\<close>; a script per descriptor.\<close>

definition channel_fifo_send :: "channel_fifo \<Rightarrow> (int \<Rightarrow> sys_result list) \<Rightarrow> int option" where
  "channel_fifo_send ctx ks = map_option fst (write_loop (ks (ff_wfd ctx)))"

definition channel_fifo_recv :: "channel_fifo \<Rightarrow> (int \<Rightarrow> sys_result list) \<Rightarrow> int option" where
  "channel_fifo_recv ctx ks = map_option fst (read_loop (ks (ff_rfd ctx)))"

definition channel_fifo_flush :: "channel_fifo \<Rightarrow> (int \<Rightarrow> sys_result list) \<Rightarrow> unit option" where
  "channel_fifo_flush ctx ks = map_option (\<lambda>_. ()) (flush_fd (ks (ff_rfd ctx)))"

text \<open>
  The descriptors open after some events, and whether every descriptor closed was open.  Closing a
  descriptor that is not open does nothing here; by then another thread may have been given it.
\<close>

fun open_fds :: "os_event list \<Rightarrow> int set \<Rightarrow> int set" where
  "open_fds [] F = F"
| "open_fds (Opened fd # es) F = open_fds es (insert fd F)"
| "open_fds (Closed fd # es) F = open_fds es (F - {fd})"
| "open_fds (_ # es) F = open_fds es F"

fun closes_open :: "os_event list \<Rightarrow> int set \<Rightarrow> bool" where
  "closes_open [] F = True"
| "closes_open (Opened fd # es) F = closes_open es (insert fd F)"
| "closes_open (Closed fd # es) F = (fd \<in> F \<and> closes_open es (F - {fd}))"
| "closes_open (_ # es) F = closes_open es F"

text \<open>\<open>open\<close> fails or returns a positive descriptor that is not in use.\<close>

definition fresh_opens :: "fifo_kernel \<Rightarrow> u8 list \<Rightarrow> int set \<Rightarrow> bool" where
  "fresh_opens k device F \<longleftrightarrow>
     (let p = fk_open k (device @ ascii ''-0''); q = fk_open k (device @ ascii ''-1'')
      in (p < 0 \<or> 0 < p \<and> p \<notin> F) \<and> (q < 0 \<or> 0 < q \<and> q \<notin> F) \<and> (p < 0 \<or> p \<noteq> q))"

lemmas fifo_defs = channel_fifo_setup_def channel_fifo_error_def channel_fifo_teardown_def make_fifo_def
  open_fifo_def after_def fresh_opens_def Let_def

text \<open>A set-up that succeeds has opened exactly the two descriptors of its context, and tearing the
  context down closes them again, each once, without touching any other descriptor.
\<close>

theorem channel_fifo_setup_teardown:
  assumes "channel_fifo_setup k device server = (rc, Some ctx, es)" and "fresh_opens k device F"
  shows "rc = 0 \<and> open_fds es F = F \<union> {ff_rfd ctx, ff_wfd ctx} \<and> ff_rfd ctx \<noteq> ff_wfd ctx \<and>
    open_fds (es @ channel_fifo_teardown ctx) F = F \<and> closes_open (es @ channel_fifo_teardown ctx) F"
  using assms by (auto simp: fifo_defs split: if_splits)

text \<open>
  C12.  A set-up that fails leaves exactly the writing end open, and only when both pipes were opened,
  that is when one could not be made non-blocking; then the reading end is closed twice.  Every
  other failure closes what was opened.
\<close>

theorem channel_fifo_setup_failure:
  assumes "channel_fifo_setup k device server = (rc, None, es)" and "fresh_opens k device F"
  shows "rc = - 1 \<and>
    (if length (filter (\<lambda>e. case e of Opened _ \<Rightarrow> True | _ \<Rightarrow> False) es) = 2
     then let wfd = fk_open k (device @ ascii (if server then ''-1'' else ''-0''))
          in open_fds es F = insert wfd F \<and> wfd \<notin> F \<and> \<not> closes_open es F
     else open_fds es F = F \<and> closes_open es F)"
  using assms by (auto simp: fifo_defs split: if_splits)

text \<open>
  A client that cannot open the pipes, or make them non-blocking, removes the names the server
  made: the error path does not look at \<open>is_server\<close>, as the teardown does.
\<close>

lemma channel_fifo_client_unlinks:
  assumes "channel_fifo_setup k device False = (rc, None, es)" and "length device \<le> 120" and "fk_calloc k"
  shows "Unlinked (device @ ascii ''-0'') \<in> set es \<and> Unlinked (device @ ascii ''-1'') \<in> set es"
  using assms by (auto simp: fifo_defs split: if_splits)

text \<open>A kernel that hands out 3 and 4, and accepts or refuses the flags.\<close>

definition some_kernel :: "bool \<Rightarrow> fifo_kernel" where
  "some_kernel ok = \<lparr> fk_calloc = True, fk_mkfifo = (\<lambda>_. True),
     fk_open = (\<lambda>p. if last p = 48 then 3 else 4), fk_getfl = (\<lambda>_. Some 0), fk_setfl = (\<lambda>_ _. ok) \<rparr>"

theorem channel_fifo_setup_teardown_witness:
  "\<exists>ctx es. channel_fifo_setup (some_kernel True) [97] True = (0, Some ctx, es) \<and>
     open_fds (es @ channel_fifo_teardown ctx) {0} = {0} \<and> closes_open (es @ channel_fifo_teardown ctx) {0}"
proof -
  have f: "fresh_opens (some_kernel True) [97] {0}" by (simp add: fresh_opens_def some_kernel_def ascii_def)
  obtain ctx es where s: "channel_fifo_setup (some_kernel True) [97] True = (0, Some ctx, es)"
    by (simp add: channel_fifo_setup_def make_fifo_def open_fifo_def after_def some_kernel_def ascii_def
        set_nonblock_def fcntl_setfl_def Let_def)
  from channel_fifo_setup_teardown [OF s f] s show ?thesis by blast
qed

theorem channel_fifo_setup_failure_witness:
  "\<exists>es. channel_fifo_setup (some_kernel False) [97] True = (- 1, None, es) \<and>
     open_fds es {0} = {4, 0} \<and> \<not> closes_open es {0}"
proof -
  have f: "fresh_opens (some_kernel False) [97] {0}" by (simp add: fresh_opens_def some_kernel_def ascii_def)
  let ?p = "ascii ''a-0''" and ?q = "ascii ''a-1''"
  have s: "channel_fifo_setup (some_kernel False) [97] True = (- 1, None,
      [Unlinked ?p, Made ?p, Unlinked ?q, Made ?q, Opened 3, Opened 4, Closed 3, Closed 3, Unlinked ?p, Unlinked ?q])"
    by (simp add: channel_fifo_setup_def channel_fifo_error_def make_fifo_def open_fifo_def after_def some_kernel_def
        ascii_def set_nonblock_def fcntl_setfl_def Let_def)
  from channel_fifo_setup_failure [OF s f] s show ?thesis by (simp add: some_kernel_def ascii_def)
qed

subsection \<open>Message queues\<close>

text \<open>
  The queues of the system by identifier, each a list of typed messages.  \<open>ftok\<close> and \<open>msgget\<close> give the
  identifier of the queue of a device name and a project number, negative for failure.
\<close>

type_synonym message = "int \<times> u8 list"
type_synonym queues = "int \<Rightarrow> message list option"

record channel_msgq =
  mq_send_id :: int
  mq_send_msgid :: int
  mq_is_server :: bool
  mq_recv_id :: int
  mq_recv_msgid :: int

definition msgget :: "(u8 list \<Rightarrow> int \<Rightarrow> int) \<Rightarrow> queues \<Rightarrow> u8 list \<Rightarrow> int \<Rightarrow> int \<times> queues" where
  "msgget key Q device i =
     (let q = key device i
      in if q < 0 then (- 1, Q) else (q, if Q q = None then Q(q \<mapsto> []) else Q))"

definition channel_msgq_setup ::
    "bool \<Rightarrow> (u8 list \<Rightarrow> int \<Rightarrow> int) \<Rightarrow> queues \<Rightarrow> u8 list \<Rightarrow> bool \<Rightarrow> int \<times> channel_msgq option \<times> queues" where
  "channel_msgq_setup malloc_ok key Q device server =
     (if \<not> malloc_ok then (- 1, None, Q)
      else
        let send_id = (if server then 13 else 17);
            (send_msgid, Q) = msgget key Q device send_id
        in if send_msgid < 0 then (- 1, None, Q)
        else
          let recv_id = (if server then 17 else 13);
              (recv_msgid, Q) = msgget key Q device recv_id
          in if recv_msgid < 0 then (- 1, None, Q)
          else (0, Some \<lparr> mq_send_id = send_id, mq_send_msgid = send_msgid, mq_is_server = server,
                          mq_recv_id = recv_id, mq_recv_msgid = recv_msgid \<rparr>, Q))"

text \<open>
  The message is copied to a buffer of 512 bytes.  What \<open>msgsnd\<close> fails with on a queue that does not exist is the
  system's choice: \<open>EIDRM\<close> (\<open>eidrm\<close>), which ends the program (\<open>Inl\<close>), or \<open>EINVAL\<close>.  \<open>room\<close> is what it
  answers otherwise, and nothing looks at a failure.
\<close>

definition channel_msgq_send ::
    "bool \<Rightarrow> (queues \<Rightarrow> bool) \<Rightarrow> channel_msgq \<Rightarrow> queues \<Rightarrow> u8 list \<Rightarrow> (int + int \<times> queues) option" where
  "channel_msgq_send eidrm room ctx Q buf =
     (if length buf > 512 then None
      else case Q (mq_send_msgid ctx) of
          None \<Rightarrow> Some (if eidrm then Inl (- 1) else Inr (int (length buf), Q))
        | Some q \<Rightarrow> Some (Inr (int (length buf),
            if room Q then Q(mq_send_msgid ctx \<mapsto> q @ [(mq_send_id ctx, buf)]) else Q)))"

text \<open>
  All channels and threads share one global buffer for messages to be sent; its text has 512 bytes.  A
  send fills it, then submits it.
\<close>

record channel_msgbuf =
  mtype :: int
  mtext :: "u8 list"

definition msgq_fill :: "channel_msgq \<Rightarrow> channel_msgbuf \<Rightarrow> u8 list \<Rightarrow> channel_msgbuf option" where
  "msgq_fill ctx send_buf buf =
     map_option (\<lambda>t. \<lparr> mtype = mq_send_id ctx, mtext = t \<rparr>) (buf_write (mtext send_buf) 0 buf)"

definition msgq_submit ::
    "bool \<Rightarrow> (queues \<Rightarrow> bool) \<Rightarrow> channel_msgq \<Rightarrow> channel_msgbuf \<Rightarrow> nat \<Rightarrow> queues \<Rightarrow> int + int \<times> queues" where
  "msgq_submit eidrm room ctx send_buf len Q = (case Q (mq_send_msgid ctx) of
       None \<Rightarrow> if eidrm then Inl (- 1) else Inr (int len, Q)
     | Some q \<Rightarrow> Inr (int len,
         if room Q then Q(mq_send_msgid ctx \<mapsto> q @ [(mtype send_buf, take len (mtext send_buf))]) else Q))"

text \<open>Undisturbed, the two are a send whatever the buffer held before.\<close>

lemma channel_msgq_send_steps:
  "length (mtext send_buf) = 512 \<Longrightarrow> channel_msgq_send eidrm room ctx Q buf =
     map_option (\<lambda>send_buf. msgq_submit eidrm room ctx send_buf (length buf) Q) (msgq_fill ctx send_buf buf)"
  by (auto simp: channel_msgq_send_def msgq_fill_def msgq_submit_def buf_write_def split: option.splits)

text \<open>Two threads that fill before either submits: the second message is sent twice, and to both queues.\<close>

lemma channel_msgq_send_race:
  assumes "length (mtext sb) = 512" "length x \<le> 512" "length y = length x"
    and "Q (mq_send_msgid a) = Some []" "Q (mq_send_msgid b) = Some []" "mq_send_msgid a \<noteq> mq_send_msgid b"
  shows "\<exists>sb1 sb2 Q1 Q2. msgq_fill a sb x = Some sb1 \<and> msgq_fill b sb1 y = Some sb2 \<and>
    msgq_submit True (\<lambda>_. True) a sb2 (length x) Q = Inr (int (length x), Q1) \<and>
    msgq_submit True (\<lambda>_. True) b sb2 (length y) Q1 = Inr (int (length y), Q2) \<and>
    Q2 (mq_send_msgid a) = Some [(mq_send_id b, y)] \<and> Q2 (mq_send_msgid b) = Some [(mq_send_id b, y)]"
  using assms by (simp add: msgq_fill_def msgq_submit_def buf_write_def)

text \<open>\<open>msgrcv\<close> without waiting: the first message of a type leaves the queue, cut to the size asked for.\<close>

fun msg_take :: "int \<Rightarrow> message list \<Rightarrow> (u8 list \<times> message list) option" where
  "msg_take t [] = None"
| "msg_take t (m # ms) =
     (if fst m = t then Some (snd m, ms) else map_option (\<lambda>(b, ms). (b, m # ms)) (msg_take t ms))"

text \<open>
  The return code, the bytes copied to \<open>buf\<close> and the queues.  When no message of the type waits \<open>msgrcv\<close> fails with
  \<open>ENOMSG\<close>, not with the \<open>EAGAIN\<close> the code looks for, and the result is \<open>-1\<close>; it is 0 for a message without bytes.
\<close>

definition channel_msgq_recv ::
    "bool \<Rightarrow> channel_msgq \<Rightarrow> queues \<Rightarrow> nat \<Rightarrow> (int + int \<times> u8 list \<times> queues) option" where
  "channel_msgq_recv eidrm ctx Q max_len =
     (case Q (mq_recv_msgid ctx) of
        None \<Rightarrow> Some (if eidrm then Inl (- 1) else Inr (- 1, [], Q))
      | Some q \<Rightarrow> (case msg_take (mq_recv_id ctx) q of
          None \<Rightarrow> Some (Inr (- 1, [], Q))
        | Some (m, ms) \<Rightarrow>
            let text = take max_len m
            in if length text > 512 then None
               else Some (Inr (int (length text), text, Q(mq_recv_msgid ctx \<mapsto> ms)))))"

partial_function (option) channel_msgq_flush :: "bool \<Rightarrow> channel_msgq \<Rightarrow> queues \<Rightarrow> (int + queues) option" where
  "channel_msgq_flush eidrm ctx Q = do {
     r \<leftarrow> channel_msgq_recv eidrm ctx Q 128;
     (case r of
        Inl e \<Rightarrow> Some (Inl e)
      | Inr (ret, _, Q) \<Rightarrow> if ret \<le> 0 then Some (Inr Q) else channel_msgq_flush eidrm ctx Q)
   }"

definition channel_msgq_teardown :: "channel_msgq option \<Rightarrow> queues \<Rightarrow> queues" where
  "channel_msgq_teardown data Q =
     (case data of
        None \<Rightarrow> Q
      | Some ctx \<Rightarrow> if mq_is_server ctx then Q(mq_send_msgid ctx := None, mq_recv_msgid ctx := None) else Q)"

text \<open>Several calls of one end; there is room for what is sent, and something to receive.\<close>

fun send_all :: "channel_msgq \<Rightarrow> queues \<Rightarrow> u8 list list \<Rightarrow> (int + queues) option" where
  "send_all ctx Q [] = Some (Inr Q)"
| "send_all ctx Q (b # bs) = do {
     r \<leftarrow> channel_msgq_send True (\<lambda>_. True) ctx Q b;
     (case r of Inl e \<Rightarrow> Some (Inl e) | Inr (_, Q) \<Rightarrow> send_all ctx Q bs)
   }"

fun recv_all :: "channel_msgq \<Rightarrow> queues \<Rightarrow> nat \<Rightarrow> (int + u8 list list \<times> queues) option" where
  "recv_all ctx Q 0 = Some (Inr ([], Q))"
| "recv_all ctx Q (Suc n) = do {
     r \<leftarrow> channel_msgq_recv True ctx Q 512;
     (case r of
        Inl e \<Rightarrow> Some (Inl e)
      | Inr (ret, b, Q) \<Rightarrow> if ret < 0 then None else do {
          r \<leftarrow> recv_all ctx Q n;
          (case r of Inl e \<Rightarrow> Some (Inl e) | Inr (bs, Q) \<Rightarrow> Some (Inr (b # bs, Q)))
        })
   }"

lemma send_all_appends:
  assumes "Q (mq_send_msgid ctx) = Some q" and "\<forall>b \<in> set bs. length b \<le> 512"
  shows "send_all ctx Q bs = Some (Inr (Q(mq_send_msgid ctx \<mapsto> q @ map (Pair (mq_send_id ctx)) bs)))"
  using assms
proof (induction bs arbitrary: Q q)
  case Nil
  then show ?case by (simp add: fun_upd_idem)
next
  case (Cons b bs)
  let ?Q = "Q(mq_send_msgid ctx \<mapsto> q @ [(mq_send_id ctx, b)])"
  have "send_all ctx Q (b # bs) = send_all ctx ?Q bs"
    using Cons.prems by (simp add: channel_msgq_send_def)
  also have "\<dots> = Some (Inr (?Q(mq_send_msgid ctx \<mapsto> (q @ [(mq_send_id ctx, b)]) @ map (Pair (mq_send_id ctx)) bs)))"
    by (rule Cons.IH) (use Cons.prems in simp_all)
  finally show ?case by (simp del: fun_upd_apply send_all.simps)
qed

lemma recv_all_takes:
  assumes "Q (mq_recv_msgid ctx) = Some (map (Pair (mq_recv_id ctx)) bs @ q)" and "\<forall>b \<in> set bs. length b \<le> 512"
  shows "recv_all ctx Q (length bs) = Some (Inr (bs, Q(mq_recv_msgid ctx \<mapsto> q)))"
  using assms
proof (induction bs arbitrary: Q)
  case Nil
  then show ?case by (simp add: fun_upd_idem)
next
  case (Cons b bs)
  let ?Q = "Q(mq_recv_msgid ctx \<mapsto> map (Pair (mq_recv_id ctx)) bs @ q)"
  have "recv_all ctx ?Q (length bs) = Some (Inr (bs, ?Q(mq_recv_msgid ctx \<mapsto> q)))"
    by (rule Cons.IH) (use Cons.prems in simp_all)
  with Cons.prems show ?case by (simp add: channel_msgq_recv_def Let_def del: fun_upd_apply)
qed

text \<open>The two ends of a message queue channel meet: when both set-ups of a device succeed, in either
  order, messages of at most 512 bytes sent by one end are received by the other end, unchanged
  and in order, whichever end is the server.
\<close>

theorem channel_msgq_delivers:
  assumes s: "channel_msgq_setup True key Q device server = (0, Some a, Q1)"
    and c: "channel_msgq_setup True key Q1 device (\<not> server) = (0, Some b, Q2)"
    and new: "Q (key device 13) = None" "Q (key device 17) = None"
    and len: "\<forall>m \<in> set ms. length m \<le> 512"
  shows "\<exists>Q3 Q4. send_all a Q2 ms = Some (Inr Q3) \<and> recv_all b Q3 (length ms) = Some (Inr (ms, Q4)) \<and> Q4 = Q2"
proof -
  have ids: "mq_send_msgid a = mq_recv_msgid b" "mq_send_id a = mq_recv_id b" "Q2 (mq_send_msgid a) = Some []"
    using s c new by (auto simp: channel_msgq_setup_def msgget_def Let_def split: if_splits)
  let ?Q3 = "Q2(mq_send_msgid a \<mapsto> [] @ map (Pair (mq_send_id a)) ms)"
  have "send_all a Q2 ms = Some (Inr ?Q3)" by (rule send_all_appends) (use ids(3) len in simp_all)
  moreover have "recv_all b ?Q3 (length ms) = Some (Inr (ms, ?Q3(mq_recv_msgid b \<mapsto> [])))"
    by (rule recv_all_takes) (use ids len in simp_all)
  moreover have "?Q3(mq_recv_msgid b \<mapsto> []) = Q2" using ids by (auto simp: fun_upd_idem)
  ultimately show ?thesis by blast
qed

text \<open>
  Flushing ends at the first message without bytes, which looks like an empty queue; what is behind
  it stays.
\<close>

lemma channel_msgq_flush_stops_early:
  assumes "Q (mq_recv_msgid ctx) = Some ((mq_recv_id ctx, []) # q)"
  shows "channel_msgq_flush eidrm ctx Q = Some (Inr (Q(mq_recv_msgid ctx \<mapsto> q)))"
  using assms by (subst channel_msgq_flush.simps) (simp add: channel_msgq_recv_def Let_def del: fun_upd_apply)

text \<open>An end that has nothing to receive reports an error.\<close>

lemma channel_msgq_recv_empty:
  "Q (mq_recv_msgid ctx) = Some [] \<Longrightarrow> channel_msgq_recv eidrm ctx Q n = Some (Inr (- 1, [], Q))"
  by (simp add: channel_msgq_recv_def)

text \<open>Without such messages nothing of the type is left.\<close>

lemma channel_msgq_flush_empties:
  assumes "Q (mq_recv_msgid ctx) = Some (map (Pair (mq_recv_id ctx)) bs)" and "\<forall>b \<in> set bs. b \<noteq> []"
  shows "channel_msgq_flush eidrm ctx Q = Some (Inr (Q(mq_recv_msgid ctx \<mapsto> [])))"
  using assms
proof (induction bs arbitrary: Q)
  case Nil
  then have "Q(mq_recv_msgid ctx \<mapsto> []) = Q" by (simp add: fun_upd_idem)
  with Nil show ?case by (subst channel_msgq_flush.simps) (simp add: channel_msgq_recv_def)
next
  case (Cons b bs)
  let ?Q = "Q(mq_recv_msgid ctx \<mapsto> map (Pair (mq_recv_id ctx)) bs)"
  have "channel_msgq_flush eidrm ctx ?Q = Some (Inr (?Q(mq_recv_msgid ctx \<mapsto> [])))"
    by (rule Cons.IH) (use Cons.prems in simp_all)
  with Cons.prems show ?case
    by (subst channel_msgq_flush.simps) (simp add: channel_msgq_recv_def Let_def min_def del: fun_upd_apply)
qed

theorem channel_msgq_delivers_witness:
  "\<exists>a b Q1 Q2. channel_msgq_setup True (\<lambda>_ i. i) Map.empty [97] True = (0, Some a, Q1) \<and>
     channel_msgq_setup True (\<lambda>_ i. i) Q1 [97] False = (0, Some b, Q2) \<and>
     (\<exists>Q3 Q4. send_all a Q2 [[1, 2], [3]] = Some (Inr Q3) \<and> recv_all b Q3 2 = Some (Inr ([[1, 2], [3]], Q4)) \<and> Q4 = Q2)"
proof -
  obtain a Q1 where a: "channel_msgq_setup True (\<lambda>_ i. i) Map.empty [97] True = (0, Some a, Q1)"
    by (simp add: channel_msgq_setup_def msgget_def Let_def)
  then have Q1: "Q1 = [13 \<mapsto> [], 17 \<mapsto> []]" by (auto simp: channel_msgq_setup_def msgget_def Let_def)
  obtain b Q2 where b: "channel_msgq_setup True (\<lambda>_ i. i) Q1 [97] False = (0, Some b, Q2)"
    by (simp add: Q1 channel_msgq_setup_def msgget_def Let_def)
  have "length [[1 :: u8, 2], [3]] = 2" by simp
  with channel_msgq_delivers [OF a, of b Q2 "[[1, 2], [3]]"] a b show ?thesis
    by (auto simp: numeral_2_eq_2 simp del: send_all.simps recv_all.simps)
qed

end
