(* ===== verification/ChannelLink.thy ===== *)
theory ChannelLink
  imports ChannelTeardown ChannelDrivers
begin

text \<open>
  The channel manager with a driver behind it (\<open>src/channel.c\<close>): processes that open message queue
  channels and use what \<open>channel_get\<close> returns.  A process has a manager and the driver's contexts by
  address; the queues belong to the system.
\<close>

record process =
  pr_mgr :: channel_manager
  pr_msgq :: "addr \<rightharpoonup> channel_msgq"

text \<open>
  \<open>channel_open\<close> of a message queue, with the driver's own set-up, which puts its context at the address
  \<open>new\<close> gives, and its own flush.  Neither is called when the manager refuses the name first.
\<close>

definition process_open ::
    "(item heap \<Rightarrow> addr) \<Rightarrow> (channel heap \<Rightarrow> addr) \<Rightarrow> ((addr \<rightharpoonup> channel_msgq) \<Rightarrow> addr) \<Rightarrow> (u8 list \<Rightarrow> int \<Rightarrow> int) \<Rightarrow>
       process \<Rightarrow> queues \<Rightarrow> u8 list \<Rightarrow> bool \<Rightarrow> (int + channel_error \<times> process \<times> queues) option" where
  "process_open malloc calloc new key p Q device server =
     (let a = new (pr_msgq p);
          setup = (\<lambda>ch. case channel_msgq_setup True key Q (ch_device ch) (ch_is_server ch \<noteq> 0) of
            (rc, _, _) \<Rightarrow> if rc \<noteq> 0 then None else Some a);
          (_, c, Q') = channel_msgq_setup True key Q device server
      in do {
        (err, mgr) \<leftarrow> channel_open malloc calloc setup (pr_mgr p) CHANNEL_TYPE_MSGQ (Some device) 0 (of_bool server);
        if err = CHANNEL_ERR_NONE then do {
          c \<leftarrow> c;
          r \<leftarrow> channel_msgq_flush True c Q';
          (case r of
             Inl e \<Rightarrow> Some (Inl e)
           | Inr Q \<Rightarrow> Some (Inr (err, \<lparr> pr_mgr = mgr, pr_msgq = (pr_msgq p)(a \<mapsto> c) \<rparr>, Q)))
        }
        else Some (Inr (err, p\<lparr>pr_mgr := mgr\<rparr>, if err = CHANNEL_ERR_OPEN_FAILED then Q' else Q))
      })"

text \<open>Messages sent and received through the functions and the data \<open>channel_get\<close> returns; the name must be open.\<close>

definition process_send :: "process \<Rightarrow> queues \<Rightarrow> u8 list \<Rightarrow> u8 list list \<Rightarrow> (int + queues) option" where
  "process_send p Q device ms = do {
     (_, out) \<leftarrow> channel_get (pr_mgr p) device;
     (_, data, send, _, _) \<leftarrow> out;
     c \<leftarrow> pr_msgq p data;
     if send = ''channel_msgq_send'' then send_all c Q ms else None
   }"

definition process_recv :: "process \<Rightarrow> queues \<Rightarrow> u8 list \<Rightarrow> nat \<Rightarrow> (int + u8 list list \<times> queues) option" where
  "process_recv p Q device n = do {
     (_, out) \<leftarrow> channel_get (pr_mgr p) device;
     (_, data, _, recv, _) \<leftarrow> out;
     c \<leftarrow> pr_msgq p data;
     if recv = ''channel_msgq_recv'' then recv_all c Q n else None
   }"

text \<open>The context of an end, and the queues when both exist.\<close>

definition end_of :: "(u8 list \<Rightarrow> int \<Rightarrow> int) \<Rightarrow> u8 list \<Rightarrow> bool \<Rightarrow> channel_msgq" where
  "end_of key device server =
     (let s = (if server then 13 else 17); r = (if server then 17 else 13)
      in \<lparr> mq_send_id = s, mq_send_msgid = key device s, mq_is_server = server, mq_recv_id = r, mq_recv_msgid = key device r \<rparr>)"

definition with_queue :: "int \<Rightarrow> queues \<Rightarrow> queues" where
  "with_queue q Q = (if Q q = None then Q(q \<mapsto> []) else Q)"

lemma setup_works:
  assumes "0 \<le> key device 13" "0 \<le> key device 17"
  shows "channel_msgq_setup True key Q device server = (0, Some (end_of key device server),
    with_queue (mq_recv_msgid (end_of key device server)) (with_queue (mq_send_msgid (end_of key device server)) Q))"
  using assms by (cases server) (simp_all add: channel_msgq_setup_def msgget_def end_of_def with_queue_def Let_def)

text \<open>Opening a name that is not open: the manager holds the channel, whose functions and context are the driver's.\<close>

definition linked :: "(u8 list \<Rightarrow> int \<Rightarrow> int) \<Rightarrow> process \<Rightarrow> u8 list \<Rightarrow> bool \<Rightarrow> bool" where
  "linked key p device server \<longleftrightarrow> (\<exists>id data. channel_get (pr_mgr p) device =
      Some (CHANNEL_ERR_NONE, Some (id, data, ''channel_msgq_send'', ''channel_msgq_recv'', ''channel_msgq_flush'')) \<and>
      pr_msgq p data = Some (end_of key device server))"

lemma process_open_links:
  assumes rel: "cm_rel malloc calloc (pr_mgr p) (M, n)" and closed: "M device = None"
    and key: "0 \<le> key device 13" "0 \<le> key device 17"
    and flush: "channel_msgq_flush True (end_of key device server)
      (with_queue (mq_recv_msgid (end_of key device server)) (with_queue (mq_send_msgid (end_of key device server)) Q)) = Some (Inr Q')"
  shows "\<exists>p'. process_open malloc calloc new key p Q device server = Some (Inr (CHANNEL_ERR_NONE, p', Q')) \<and>
    linked key p' device server"
proof -
  let ?a = "new (pr_msgq p)"
  let ?su = "\<lambda>ch. case channel_msgq_setup True key Q (ch_device ch) (ch_is_server ch \<noteq> 0) of (rc, _, _) \<Rightarrow> if rc \<noteq> 0 then None else Some ?a"
  let ?ch = "\<lparr> ch_id = n + 1, ch_speed = 0, ch_device = device, ch_is_server = of_bool server, ch_type = CHANNEL_TYPE_MSGQ, ch_data = ?a \<rparr>"
  have "reg_step ?su (M, n) (Open CHANNEL_TYPE_MSGQ (Some device) 0 (of_bool server)) =
      ((CHANNEL_ERR_NONE, None), (M(device \<mapsto> ?ch), n + 1))"
    using closed key by (simp add: Let_def setup_works)
  with cm_step_simulates [OF rel, of ?su "Open CHANNEL_TYPE_MSGQ (Some device) 0 (of_bool server)"] obtain mgr where
    mgr: "channel_open malloc calloc ?su (pr_mgr p) CHANNEL_TYPE_MSGQ (Some device) 0 (of_bool server) = Some (CHANNEL_ERR_NONE, mgr)"
      "cm_rel malloc calloc mgr (M(device \<mapsto> ?ch), n + 1)" by (auto split: Option.bind_splits)
  from cm_step_simulates [OF mgr(2), of ?su "Get device"] have
    "channel_get mgr device = Some (CHANNEL_ERR_NONE, Some (view ?ch))" by (auto split: Option.bind_splits)
  then have "linked key \<lparr> pr_mgr = mgr, pr_msgq = (pr_msgq p)(?a \<mapsto> end_of key device server) \<rparr> device server"
    by (simp add: linked_def view_def)
  with mgr(1) flush key show ?thesis by (simp add: process_open_def Let_def setup_works)
qed

lemma linked_send: "linked key p device server \<Longrightarrow> process_send p Q device ms = send_all (end_of key device server) Q ms"
  by (auto simp: linked_def process_send_def)

lemma linked_recv: "linked key p device server \<Longrightarrow> process_recv p Q device n = recv_all (end_of key device server) Q n"
  by (auto simp: linked_def process_recv_def)

lemma flush_no_messages: "Q (mq_recv_msgid c) = Some [] \<Longrightarrow> channel_msgq_flush True c Q = Some (Inr Q)"
  using channel_msgq_flush_empties [of Q c "[]"] by (simp add: fun_upd_idem)

text \<open>A process that has only initialised its manager, on the heaps of \<open>ctx\<close>.\<close>

definition process_start :: "channel_manager \<Rightarrow> process" where
  "process_start ctx = \<lparr> pr_mgr = channel_manager_init ctx, pr_msgq = Map.empty \<rparr>"

definition heaps_ok :: "(item heap \<Rightarrow> addr) \<Rightarrow> (channel heap \<Rightarrow> addr) \<Rightarrow> channel_manager \<Rightarrow> bool" where
  "heaps_ok malloc calloc ctx \<longleftrightarrow>
     good_malloc malloc \<and> good_calloc calloc \<and> finite (dom (cm_items ctx)) \<and> finite (dom (cm_chans ctx))"

lemma process_start_opens:
  assumes "heaps_ok malloc calloc ctx" and key: "0 \<le> key device 13" "0 \<le> key device 17"
    and "channel_msgq_flush True (end_of key device server)
      (with_queue (mq_recv_msgid (end_of key device server)) (with_queue (mq_send_msgid (end_of key device server)) Q)) = Some (Inr Q')"
  shows "\<exists>p'. process_open malloc calloc new key (process_start ctx) Q device server = Some (Inr (CHANNEL_ERR_NONE, p', Q')) \<and>
    linked key p' device server"
proof -
  have "cm_rel malloc calloc (pr_mgr (process_start ctx)) (Map.empty, cm_open_channels ctx)"
    using assms(1) by (simp add: process_start_def heaps_ok_def cm_rel_init)
  from process_open_links [where key = key and device = device, OF this _ assms(2-4)] show ?thesis by simp
qed

text \<open>
  C11.  Two processes talk over a message queue channel.  Each has a fresh channel manager; the server
  opens the device, then the client.  Both opens succeed, what the server has sent before the
  client opened is lost, because opening flushes, and from then on messages of at most 512 bytes sent
  by each end through the functions \<open>channel_get\<close> returns reach the other unchanged and in order, also
  when both send before either receives; the queues are empty afterwards.  This holds when the two queues
  of the device are new and distinct, the system has room for the messages, and early messages are
  not empty, since an empty one ends the flush.
\<close>

theorem channel_end_to_end:
  assumes heaps: "heaps_ok malloc calloc ctx" "heaps_ok malloc calloc ctx'"
    and key: "0 \<le> key device 13" "0 \<le> key device 17" "key device 13 \<noteq> key device 17"
    and new: "Q (key device 13) = None" "Q (key device 17) = None"
    and early: "\<forall>m \<in> set early. m \<noteq> [] \<and> length m \<le> 512"
    and len: "\<forall>m \<in> set ms. length m \<le> 512" "\<forall>m \<in> set ns. length m \<le> 512"
  shows "\<exists>s c Q1 Q2 Q3 Q4 Q5 Q6.
    process_open malloc calloc addr key (process_start ctx) Q device True = Some (Inr (CHANNEL_ERR_NONE, s, Q1)) \<and>
    process_send s Q1 device early = Some (Inr Q2) \<and>
    process_open malloc calloc addr' key (process_start ctx') Q2 device False = Some (Inr (CHANNEL_ERR_NONE, c, Q1)) \<and>
    process_send s Q1 device ms = Some (Inr Q3) \<and>
    process_send c Q3 device ns = Some (Inr Q4) \<and>
    process_recv c Q4 device (length ms) = Some (Inr (ms, Q5)) \<and>
    process_recv s Q5 device (length ns) = Some (Inr (ns, Q6)) \<and> Q6 = Q1"
proof -
  let ?s = "end_of key device True" and ?c = "end_of key device False"
  let ?k = "key device 13" and ?l = "key device 17"
  have s: "mq_send_msgid ?s = ?k" "mq_recv_msgid ?s = ?l" "mq_send_id ?s = 13" "mq_recv_id ?s = 17"
    and c: "mq_send_msgid ?c = ?l" "mq_recv_msgid ?c = ?k" "mq_send_id ?c = 17" "mq_recv_id ?c = 13"
    by (simp_all add: end_of_def Let_def)
  let ?q = "\<lambda>i bs. map (Pair (i :: int)) bs"
  let ?Q = "\<lambda>as bs. Q(?k \<mapsto> ?q 13 as, ?l \<mapsto> ?q 17 bs)"
  have send_s: "send_all ?s (?Q [] bs) as = Some (Inr (?Q as bs))" if "\<forall>m \<in> set as. length m \<le> 512" for as bs
    using send_all_appends [of "?Q [] bs" ?s "[]" as] that key(3) by (simp add: s fun_upd_twist)
  have send_c: "send_all ?c (?Q as []) ns = Some (Inr (?Q as ns))" for as
    using send_all_appends [of "?Q as []" ?c "[]" ns] len by (simp add: c)
  have recv_c: "recv_all ?c (?Q ms ns) (length ms) = Some (Inr (ms, ?Q [] ns))"
    using recv_all_takes [of "?Q ms ns" ?c ms "[]"] len key(3) by (simp add: c fun_upd_twist)
  have recv_s: "recv_all ?s (?Q [] ns) (length ns) = Some (Inr (ns, ?Q [] []))"
    using recv_all_takes [of "?Q [] ns" ?s ns "[]"] len by (simp add: s)
  have "channel_msgq_flush True ?s (with_queue (mq_recv_msgid ?s) (with_queue (mq_send_msgid ?s) Q)) = Some (Inr (?Q [] []))"
    using new key(3) by (simp add: s with_queue_def flush_no_messages)
  from process_start_opens [where key = key and device = device, OF heaps(1) key(1,2) this] obtain p where
    p: "process_open malloc calloc addr key (process_start ctx) Q device True = Some (Inr (CHANNEL_ERR_NONE, p, ?Q [] []))"
      "linked key p device True" by blast
  have "channel_msgq_flush True ?c (?Q early []) = Some (Inr (?Q [] []))"
    using channel_msgq_flush_empties [of "?Q early []" ?c early] early key(3) by (simp add: c fun_upd_twist)
  then have "channel_msgq_flush True ?c (with_queue (mq_recv_msgid ?c) (with_queue (mq_send_msgid ?c) (?Q early []))) = Some (Inr (?Q [] []))"
    using key(3) by (simp add: c with_queue_def)
  from process_start_opens [where key = key and device = device, OF heaps(2) key(1,2) this] obtain p' where
    p': "process_open malloc calloc addr' key (process_start ctx') (?Q early []) device False = Some (Inr (CHANNEL_ERR_NONE, p', ?Q [] []))"
      "linked key p' device False" by blast
  have "process_send p (?Q [] []) device early = Some (Inr (?Q early []))"
    "process_send p (?Q [] []) device ms = Some (Inr (?Q ms []))"
    using send_s early len(1) by (simp_all only: linked_send [OF p(2)]) blast+
  with p(1) p'(1) send_c recv_c recv_s linked_send [OF p'(2)] linked_recv [OF p'(2)] linked_recv [OF p(2)]
  show ?thesis by metis
qed

theorem channel_end_to_end_witness:
  "\<exists>s c Q1 Q2 Q3 Q4 Q5 Q6.
    process_open bump_malloc bump_calloc (\<lambda>_. 5) (\<lambda>_ i. i) (process_start fresh_cm) Map.empty [97] True = Some (Inr (CHANNEL_ERR_NONE, s, Q1)) \<and>
    process_send s Q1 [97] [[7]] = Some (Inr Q2) \<and>
    process_open bump_malloc bump_calloc (\<lambda>_. 6) (\<lambda>_ i. i) (process_start fresh_cm) Q2 [97] False = Some (Inr (CHANNEL_ERR_NONE, c, Q1)) \<and>
    process_send s Q1 [97] [[1, 2], []] = Some (Inr Q3) \<and>
    process_send c Q3 [97] [[3]] = Some (Inr Q4) \<and>
    process_recv c Q4 [97] (length [[1 :: u8, 2], []]) = Some (Inr ([[1, 2], []], Q5)) \<and>
    process_recv s Q5 [97] (length [[3 :: u8]]) = Some (Inr ([[3]], Q6)) \<and> Q6 = Q1"
  by (rule channel_end_to_end) (simp_all add: heaps_ok_def bump_malloc_good bump_calloc_good fresh_cm_def)

end
