(* ===== verification/BusServer.thy ===== *)
theory BusServer
  imports WorkQueue "HOL-Library.Sublist"
begin

text \<open>
  The message bus (\<open>src/bus_server.c\<close>): a worker per client reads what its client sends, publishes it
  in one global slot, and forwards what others have published.  Workers interleave; a step of a
  worker is what it does between two accesses to the slot, and the accesses under the lock are one
  step each.  The messages published are kept, with their senders, for the statements only; a
  message forwarded is named by its place among them.
\<close>

datatype bus_pc =
    BReading
  | BPublishing "u8 list"
  | BChecking
  | BTaking
  | BWriting nat "u8 list"
  | BDone

record bus_client =
  bc_message_id :: int
  bc_pc :: bus_pc
  bc_in :: "u8 list"
  bc_out :: "(nat \<times> u8 list) list"

record bus =
  g_message_id :: int
  g_message_data :: "u8 list"
  bs_clients :: "bus_client list"
  bs_published :: "(nat \<times> u8 list) list"

definition set_client :: "bus \<Rightarrow> nat \<Rightarrow> bus_client \<Rightarrow> bus" where
  "set_client s i c = s\<lparr>bs_clients := (bs_clients s)[i := c]\<rparr>"

text \<open>\<open>p->message_id += 1\<close>: past the largest \<open>int\<close> the result is undefined, any \<open>v\<close>.\<close>

definition next_message_id :: "int \<Rightarrow> int \<Rightarrow> int" where
  "next_message_id v i = (if i < INT_MAX then i + 1 else v)"

text \<open>
  The next step of worker \<open>i\<close> when its socket does not fail.  The socket is a stream: a read yields
  the first \<open>n\<close> of the bytes that wait, for an \<open>n\<close> of the kernel's choice between 1 and 1024, or 0 when
  none do, and at the end of the stream.  It does not block, so a write takes the first \<open>w\<close> bytes,
  none when the socket is full; what it returns is only compared with 0.
\<close>

definition bus_server_work :: "int \<Rightarrow> nat \<Rightarrow> nat \<Rightarrow> nat \<Rightarrow> bus \<Rightarrow> bus" where
  "bus_server_work v n w i s =
     (let c = bs_clients s ! i
      in case bc_pc c of
          BReading \<Rightarrow>
            if bc_in c = [] then set_client s i (c\<lparr>bc_pc := BChecking\<rparr>)
            else set_client s i (c\<lparr>bc_in := drop n (bc_in c), bc_message_id := next_message_id v (bc_message_id c),
                                   bc_pc := BPublishing (take n (bc_in c))\<rparr>)
        | BPublishing m \<Rightarrow>
            set_client (s\<lparr>g_message_data := m, g_message_id := bc_message_id c, bs_published := bs_published s @ [(i, m)]\<rparr>)
              i (c\<lparr>bc_pc := BChecking\<rparr>)
        | BChecking \<Rightarrow>
            set_client s i (c\<lparr>bc_pc := (if g_message_id s > bc_message_id c then BTaking else BReading)\<rparr>)
        | BTaking \<Rightarrow>
            set_client s i (c\<lparr>bc_message_id := g_message_id s,
              bc_pc := BWriting (length (bs_published s) - 1) (g_message_data s)\<rparr>)
        | BWriting k m \<Rightarrow> set_client s i (c\<lparr>bc_out := bc_out c @ [(k, take w m)], bc_pc := BReading\<rparr>)
        | BDone \<Rightarrow> s)"

text \<open>A worker's client record is cleared when it is accepted.\<close>

definition new_client :: bus_client where
  "new_client = \<lparr> bc_message_id = 0, bc_pc = BReading, bc_in = [], bc_out = [] \<rparr>"

text \<open>A failing socket ends a worker; clients join, and send bytes.\<close>

inductive bus_step :: "bus \<Rightarrow> bus \<Rightarrow> bool" where
  work: "i < length (bs_clients s) \<Longrightarrow> 0 < n \<Longrightarrow> n \<le> 1024 \<Longrightarrow> bus_step s (bus_server_work v n w i s)"
| fail: "i < length (bs_clients s) \<Longrightarrow> bc_pc (bs_clients s ! i) = BReading \<or> (\<exists>k m. bc_pc (bs_clients s ! i) = BWriting k m) \<Longrightarrow>
    bus_step s (set_client s i ((bs_clients s ! i)\<lparr>bc_pc := BDone\<rparr>))"
| join: "bus_step s (s\<lparr>bs_clients := bs_clients s @ [new_client]\<rparr>)"
| send: "i < length (bs_clients s) \<Longrightarrow> m \<noteq> [] \<Longrightarrow>
    bus_step s (set_client s i ((bs_clients s ! i)\<lparr>bc_in := bc_in (bs_clients s ! i) @ m\<rparr>))"

definition bus_start :: bus where
  "bus_start = \<lparr> g_message_id = 0, g_message_data = [], bs_clients = [], bs_published = [] \<rparr>"

definition bus_reachable :: "bus \<Rightarrow> bool" where
  "bus_reachable s \<longleftrightarrow> bus_step\<^sup>*\<^sup>* bus_start s"

lemma bus_reachable_induct [consumes 1, case_names start step]:
  assumes "bus_reachable s" and "P bus_start" and "\<And>s s'. bus_reachable s \<Longrightarrow> P s \<Longrightarrow> bus_step s s' \<Longrightarrow> P s'"
  shows "P s"
  using assms(1) unfolding bus_reachable_def
  by (induction rule: rtranclp_induct) (auto intro: assms(2,3) simp: bus_reachable_def)

subsection \<open>What is forwarded\<close>

text \<open>The places of the messages a client was sent, the one being written last.\<close>

definition seen :: "bus_client \<Rightarrow> nat list" where
  "seen c = map fst (bc_out c) @ (case bc_pc c of BWriting k _ \<Rightarrow> [k] | _ \<Rightarrow> [])"

definition from_other :: "(nat \<times> u8 list) list \<Rightarrow> nat \<Rightarrow> nat \<times> u8 list \<Rightarrow> bool" where
  "from_other pub i km \<longleftrightarrow> fst km < length pub \<and> prefix (snd km) (snd (pub ! fst km)) \<and> fst (pub ! fst km) \<noteq> i"

text \<open>The last message is of no interest to client \<open>i\<close>: there is none, it is its own, or it has it.\<close>

definition up_to_date :: "(nat \<times> u8 list) list \<Rightarrow> nat \<Rightarrow> bus_client \<Rightarrow> bool" where
  "up_to_date pub i c \<longleftrightarrow> pub = [] \<or> fst (last pub) = i \<or> length pub - 1 \<in> set (seen c)"

definition client_ok :: "int \<Rightarrow> (nat \<times> u8 list) list \<Rightarrow> nat \<Rightarrow> bus_client \<Rightarrow> bool" where
  "client_ok gid pub i c \<longleftrightarrow> sorted_wrt (<) (seen c) \<and>
     (\<forall>km \<in> set (bc_out c). from_other pub i km) \<and>
     (\<forall>k m. bc_pc c = BWriting k m \<longrightarrow> from_other pub i (k, m)) \<and>
     (up_to_date pub i c \<longrightarrow> bc_pc c \<noteq> BTaking \<and> ((\<exists>m. bc_pc c = BPublishing m) \<or> gid \<le> bc_message_id c))"

definition bus_ok :: "bus \<Rightarrow> bool" where
  "bus_ok s \<longleftrightarrow> (bs_published s = [] \<longrightarrow> g_message_id s = 0) \<and>
     (bs_published s \<noteq> [] \<longrightarrow> snd (last (bs_published s)) = g_message_data s \<and> fst (last (bs_published s)) < length (bs_clients s)) \<and>
     (\<forall>i < length (bs_clients s). client_ok (g_message_id s) (bs_published s) i (bs_clients s ! i))"

lemma bus_okD: "bus_ok s \<Longrightarrow> i < length (bs_clients s) \<Longrightarrow> client_ok (g_message_id s) (bs_published s) i (bs_clients s ! i)"
  by (simp add: bus_ok_def)

text \<open>A step that changes one client only.\<close>

lemma bus_ok_set_client:
  assumes "bus_ok s" and "i < length (bs_clients s)" and "client_ok (g_message_id s) (bs_published s) i c"
  shows "bus_ok (set_client s i c)"
  using assms by (auto simp: bus_ok_def set_client_def nth_list_update)

lemma seen_bound: "client_ok gid pub i c \<Longrightarrow> k \<in> set (seen c) \<Longrightarrow> k < length pub"
  by (auto simp: client_ok_def seen_def from_other_def split: bus_pc.splits)

lemma from_other_append: "from_other pub i km \<Longrightarrow> from_other (pub @ [x]) i km"
  by (auto simp: from_other_def nth_append)

lemma from_other_take: "from_other pub i (k, m) \<Longrightarrow> from_other pub i (k, take w m)"
  by (auto simp: from_other_def intro: prefix_order.trans [OF take_is_prefix])

text \<open>Publishing puts everyone but the sender behind.\<close>

lemma client_ok_publish:
  assumes "client_ok gid pub j c" and "j \<noteq> i"
  shows "client_ok gid' (pub @ [(i, m)]) j c"
proof -
  have "\<not> up_to_date (pub @ [(i, m)]) j c" using assms seen_bound [OF assms(1)] by (auto simp: up_to_date_def)
  then show ?thesis using assms(1) by (auto simp: client_ok_def from_other_append)
qed

lemma bus_ok_worker:
  assumes ok: "bus_ok s" and i: "i < length (bs_clients s)"
  shows "bus_ok (bus_server_work v n w i s)"
proof -
  let ?c = "bs_clients s ! i"
  note c = bus_okD [OF ok i]
  show ?thesis
  proof (cases "bc_pc ?c")
    case BReading
    with c show ?thesis
      by (auto simp: bus_server_work_def Let_def client_ok_def up_to_date_def seen_def
          intro!: bus_ok_set_client [OF ok i])
  next
    case (BPublishing m)
    let ?pub = "bs_published s @ [(i, m)]"
    have "client_ok (bc_message_id ?c) ?pub i (?c\<lparr>bc_pc := BChecking\<rparr>)"
      using c BPublishing by (auto simp: client_ok_def seen_def from_other_append)
    moreover have "client_ok (bc_message_id ?c) ?pub j (bs_clients s ! j)" if "j < length (bs_clients s)" "j \<noteq> i" for j
      by (rule client_ok_publish [OF bus_okD [OF ok that(1)] that(2)])
    ultimately show ?thesis
      using BPublishing i by (auto simp: bus_server_work_def Let_def bus_ok_def set_client_def nth_list_update)
  next
    case BChecking
    with c show ?thesis
      by (auto simp: bus_server_work_def Let_def client_ok_def up_to_date_def seen_def intro!: bus_ok_set_client [OF ok i])
  next
    case BTaking
    let ?k = "length (bs_published s) - 1"
    have n: "\<not> up_to_date (bs_published s) i ?c" using c BTaking by (auto simp: client_ok_def)
    then have "from_other (bs_published s) i (?k, g_message_data s)"
      using ok by (auto simp: up_to_date_def from_other_def bus_ok_def last_conv_nth)
    moreover have "\<forall>k \<in> set (map fst (bc_out ?c)). k < ?k"
    proof
      fix k assume "k \<in> set (map fst (bc_out ?c))"
      then have "k \<in> set (seen ?c)" by (simp add: seen_def)
      moreover from this n have "k \<noteq> ?k" by (auto simp: up_to_date_def)
      ultimately show "k < ?k" using seen_bound [OF c, of k] by linarith
    qed
    moreover have "bus_server_work v n w i s =
        set_client s i (?c\<lparr>bc_message_id := g_message_id s, bc_pc := BWriting ?k (g_message_data s)\<rparr>)"
      by (simp add: bus_server_work_def BTaking)
    ultimately show ?thesis
      using c BTaking by (auto simp: client_ok_def seen_def sorted_wrt_append intro!: bus_ok_set_client [OF ok i])
  next
    case (BWriting k m)
    with c show ?thesis
      by (auto simp: bus_server_work_def Let_def client_ok_def up_to_date_def seen_def from_other_take intro!: bus_ok_set_client [OF ok i])
  next
    case BDone
    with ok show ?thesis by (simp add: bus_server_work_def)
  qed
qed

lemma bus_ok_step: "bus_step s s' \<Longrightarrow> bus_ok s \<Longrightarrow> bus_ok s'"
proof (induction rule: bus_step.induct)
  case (work i s n v w)
  then show ?case by (simp add: bus_ok_worker)
next
  case (fail i s)
  from bus_okD [OF fail.prems fail.hyps(1)] fail.hyps(2) show ?case
    by (intro bus_ok_set_client [OF fail.prems fail.hyps(1)])
      (auto simp: client_ok_def up_to_date_def seen_def sorted_wrt_append)
next
  case (join s)
  then show ?case
    by (auto simp: bus_ok_def nth_append client_ok_def new_client_def seen_def up_to_date_def)
next
  case (send i m s)
  from bus_okD [OF send.prems send.hyps(1)] show ?case
    by (intro bus_ok_set_client [OF send.prems send.hyps(1)]) (auto simp: client_ok_def up_to_date_def seen_def)
qed

lemma bus_ok_reachable: "bus_reachable s \<Longrightarrow> bus_ok s"
  by (induction rule: bus_reachable_induct) (simp add: bus_ok_def bus_start_def, rule bus_ok_step)

text \<open>
  C2.  Under every interleaving of workers, failures, joining and sending clients, what a client is
  sent is the beginning of what others have published: in the order of publication, each publication
  at most once, and never the client's own.
\<close>

theorem bus_forwards_in_order:
  assumes "bus_reachable s" and "i < length (bs_clients s)"
  defines "out \<equiv> bc_out (bs_clients s ! i)"
  shows "sorted_wrt (<) (map fst out) \<and>
    (\<forall>(k, m) \<in> set out. k < length (bs_published s) \<and> (\<exists>j m'. bs_published s ! k = (j, m') \<and> j \<noteq> i \<and> prefix m m'))"
  using bus_okD [OF bus_ok_reachable [OF assms(1)] assms(2)]
  by (fastforce simp: client_ok_def seen_def sorted_wrt_append from_other_def out_def prod_eq_iff)

text \<open>Runs in which every read takes all that waits and every write all it is given, as an instance.\<close>

definition bus_run :: "int \<Rightarrow> nat list \<Rightarrow> bus \<Rightarrow> bus" where
  "bus_run v ws s = fold (bus_server_work v 1024 1024) ws s"

lemma worker_length [simp]: "length (bs_clients (bus_server_work v n w i s)) = length (bs_clients s)"
  by (simp add: bus_server_work_def set_client_def Let_def split: bus_pc.splits)

lemma bus_run_steps: "\<forall>i \<in> set ws. i < length (bs_clients s) \<Longrightarrow> bus_step\<^sup>*\<^sup>* s (bus_run v ws s)"
proof (induction ws arbitrary: s)
  case (Cons i ws)
  then have "bus_step s (bus_server_work v 1024 1024 i s)" by (intro bus_step.work) auto
  with Cons show ?case by (simp add: bus_run_def converse_rtranclp_into_rtranclp)
qed (simp add: bus_run_def)

lemma bus_run_reachable:
  "bus_reachable s \<Longrightarrow> \<forall>i \<in> set ws. i < length (bs_clients s) \<Longrightarrow> bus_reachable (bus_run v ws s)"
  using bus_run_steps unfolding bus_reachable_def by (metis rtranclp_trans)

text \<open>Clients that have connected and sent something, before any worker has run.\<close>

definition waiting :: "u8 list list \<Rightarrow> bus" where
  "waiting ms = bus_start\<lparr>bs_clients := map (\<lambda>m. new_client\<lparr>bc_in := m\<rparr>) ms\<rparr>"

lemma waiting_reachable: "bus_reachable (waiting ms)"
proof (induction ms rule: rev_induct)
  case Nil
  then show ?case by (simp add: waiting_def bus_reachable_def bus_start_def)
next
  case (snoc m ms)
  let ?s = "(waiting ms)\<lparr>bs_clients := bs_clients (waiting ms) @ [new_client]\<rparr>"
  have "bus_reachable ?s"
    using snoc bus_step.join [of "waiting ms"] unfolding bus_reachable_def by (rule rtranclp.rtrancl_into_rtrancl)
  moreover have "bus_step ?s (set_client ?s (length ms) ((bs_clients ?s ! length ms)\<lparr>bc_in := bc_in (bs_clients ?s ! length ms) @ m\<rparr>))"
    if "m \<noteq> []" by (rule bus_step.send) (use that in \<open>simp_all add: waiting_def\<close>)
  moreover have "set_client ?s (length ms) ((bs_clients ?s ! length ms)\<lparr>bc_in := bc_in (bs_clients ?s ! length ms) @ m\<rparr>) =
      waiting (ms @ [m])"
    by (simp add: set_client_def waiting_def nth_append list_update_append new_client_def)
  ultimately show ?case
    unfolding bus_reachable_def by (cases "m = []") (auto simp: waiting_def new_client_def)
qed

theorem bus_forwards_in_order_witness:
  "bc_out (bs_clients (bus_run 0 [0, 0, 1, 1, 1, 1] (waiting [[65], []])) ! 1) = [(0, [65])] \<and>
   (\<exists>j m'. bs_published (bus_run 0 [0, 0, 1, 1, 1, 1] (waiting [[65], []])) ! 0 = (j, m') \<and> j \<noteq> 1 \<and> prefix [65] m')"
proof -
  let ?s = "bus_run 0 [0, 0, 1, 1, 1, 1] (waiting [[65], []])"
  have r: "bus_reachable ?s"
    by (rule bus_run_reachable [OF waiting_reachable]) (simp add: waiting_def)
  have l: "1 < length (bs_clients ?s)" by (simp add: bus_run_def waiting_def)
  have o: "bc_out (bs_clients ?s ! 1) = [(0, [65])]"
    by (simp add: bus_run_def waiting_def bus_start_def new_client_def bus_server_work_def set_client_def next_message_id_def INT_MAX_def)
  from bus_forwards_in_order [OF r l] show ?thesis unfolding o by auto
qed

subsection \<open>What is lost\<close>

text \<open>Nobody has anything to do: no byte waits, and no worker finds a new message.\<close>

definition bus_quiet :: "bus \<Rightarrow> bool" where
  "bus_quiet s \<longleftrightarrow> (\<forall>c \<in> set (bs_clients s). bc_in c = [] \<and> bc_pc c = BReading \<and> g_message_id s \<le> bc_message_id c)"

text \<open>
  A message that a worker has passed over: it was not the one to be forwarded and never will be, because it
  has been overwritten or its number is not above the worker's own.
\<close>

definition skipped :: "nat \<Rightarrow> nat \<Rightarrow> bus \<Rightarrow> bool" where
  "skipped k b s \<longleftrightarrow> b < length (bs_clients s) \<and> k < length (bs_published s) \<and> k \<notin> set (seen (bs_clients s ! b)) \<and>
     (Suc k = length (bs_published s) \<longrightarrow> bc_pc (bs_clients s ! b) \<noteq> BTaking \<and>
        ((\<exists>m. bc_pc (bs_clients s ! b) = BPublishing m) \<or> g_message_id s \<le> bc_message_id (bs_clients s ! b)))"

lemma skipped_set_client:
  "skipped k b s \<Longrightarrow> i \<noteq> b \<Longrightarrow> skipped k b (set_client s i c)"
  by (simp add: skipped_def set_client_def)

lemma skipped_worker: "skipped k b s \<Longrightarrow> skipped k b (bus_server_work v n w i s)"
proof (cases "i = b")
  case True
  assume sk: "skipped k b s"
  show ?thesis
  proof (cases "bc_pc (bs_clients s ! b)")
    case BTaking
    with sk True show ?thesis by (auto simp: skipped_def bus_server_work_def set_client_def Let_def seen_def)
  qed (use sk True in \<open>auto simp: skipped_def bus_server_work_def set_client_def Let_def seen_def\<close>)
next
  case False
  assume sk: "skipped k b s"
  show ?thesis
  proof (cases "bc_pc (bs_clients s ! i)")
    case (BPublishing m)
    with sk False show ?thesis by (auto simp: skipped_def bus_server_work_def set_client_def Let_def)
  qed (use sk False in \<open>auto simp: bus_server_work_def Let_def skipped_set_client\<close>)
qed

lemma skipped_step: "bus_step s s' \<Longrightarrow> skipped k b s \<Longrightarrow> skipped k b s'"
proof (induction rule: bus_step.induct)
  case (work i s n v w)
  then show ?case by (simp add: skipped_worker)
next
  case (fail i s)
  then show ?case by (cases "i = b") (auto simp: skipped_def set_client_def seen_def)
next
  case (join s)
  then show ?case by (auto simp: skipped_def nth_append)
next
  case (send i m s)
  then show ?case by (cases "i = b") (auto simp: skipped_def set_client_def seen_def)
qed

lemma skipped_for_ever:
  "bus_step\<^sup>*\<^sup>* s s' \<Longrightarrow> skipped k b s \<Longrightarrow> k \<notin> set (map fst (bc_out (bs_clients s' ! b)))"
proof -
  assume "bus_step\<^sup>*\<^sup>* s s'" "skipped k b s"
  then have "skipped k b s'" by (induction rule: rtranclp_induct) (auto intro: skipped_step)
  then show ?thesis by (auto simp: skipped_def seen_def)
qed



text \<open>
  A client that joins late counts from 0: what it sends first gets a number the others are past, and
  none of them is sent it.
\<close>

lemma bus_loses_late_client:
  "\<exists>s. bus_reachable s \<and> bus_quiet s \<and> length (bs_published s) = 3 \<and> bs_published s ! 2 = (1, [66]) \<and>
     (\<forall>c \<in> set (bs_clients s). \<forall>(k, m) \<in> set (bc_out c). k \<noteq> 2)"
proof (intro exI conjI)
  let ?s = "bus_run 0 [0, 0, 0, 1, 1, 1, 0, 0] (bus_run 0 [0, 0, 0] (waiting [replicate 1025 65, [66]]))"
  have e: "waiting [replicate 1025 65, [66]] = \<lparr> g_message_id = 0, g_message_data = [],
      bs_clients = [new_client\<lparr>bc_in := replicate 1024 65 @ [65]\<rparr>, new_client\<lparr>bc_in := [66]\<rparr>], bs_published = [] \<rparr>"
    by (simp add: waiting_def bus_start_def replicate_app_Cons_same flip: replicate_Suc)
  show "bus_reachable ?s"
    by (intro bus_run_reachable waiting_reachable) (simp_all add: waiting_def bus_run_def)
  have s: "?s = \<lparr> g_message_id = 1, g_message_data = [66],
      bs_clients = [\<lparr> bc_message_id = 2, bc_pc = BReading, bc_in = [], bc_out = [] \<rparr>,
        \<lparr> bc_message_id = 1, bc_pc = BReading, bc_in = [], bc_out = [] \<rparr>],
      bs_published = [(0, replicate 1024 65), (0, [65]), (1, [66])] \<rparr>"
    unfolding e by (simp add: bus_run_def new_client_def bus_server_work_def set_client_def next_message_id_def INT_MAX_def)
  show "bus_quiet ?s" "length (bs_published ?s) = 3" "bs_published ?s ! 2 = (1, [66])"
    "\<forall>c \<in> set (bs_clients ?s). \<forall>(k, m) \<in> set (bc_out c). k \<noteq> 2" unfolding s by (simp_all add: bus_quiet_def)
qed

text \<open>
  A socket that is full takes a part of a message, or nothing; the rest is not sent again.
\<close>

lemma bus_truncates:
  "\<exists>s. bus_reachable s \<and> bus_quiet s \<and> bs_published s = [(0, [65, 66])] \<and> map bc_out (bs_clients s) = [[], [(0, [65])]]"
proof (intro exI conjI)
  let ?t = "bus_run 0 [0, 0, 0, 1, 1, 1] (waiting [[65, 66], []])"
  let ?s = "bus_server_work 0 1024 1 1 ?t"
  have t: "bus_reachable ?t" by (rule bus_run_reachable [OF waiting_reachable]) (simp add: waiting_def)
  have "bus_step ?t ?s" by (rule bus_step.work) (simp_all add: bus_run_def waiting_def)
  with t show "bus_reachable ?s" unfolding bus_reachable_def by (rule rtranclp.rtrancl_into_rtrancl)
  have s: "?s = \<lparr> g_message_id = 1, g_message_data = [65, 66],
      bs_clients = [\<lparr> bc_message_id = 1, bc_pc = BReading, bc_in = [], bc_out = [] \<rparr>,
        \<lparr> bc_message_id = 1, bc_pc = BReading, bc_in = [], bc_out = [(0, [65])] \<rparr>],
      bs_published = [(0, [65, 66])] \<rparr>"
    by (simp add: bus_run_def waiting_def bus_start_def new_client_def bus_server_work_def set_client_def next_message_id_def INT_MAX_def)
  show "bus_quiet ?s" "bs_published ?s = [(0, [65, 66])]" "map bc_out (bs_clients ?s) = [[], [(0, [65])]]"
    unfolding s by (simp_all add: bus_quiet_def)
qed

subsection \<open>What is delivered\<close>

text \<open>Nothing to do, and all workers count alike.\<close>

definition bus_synced :: "bus \<Rightarrow> bool" where
  "bus_synced s \<longleftrightarrow> (\<forall>c \<in> set (bs_clients s). bc_in c = [] \<and> bc_pc c = BReading \<and> bc_message_id c = g_message_id s)"

text \<open>A client while a message \<open>m\<close> of client \<open>a\<close> is under way, before and after it is published.\<close>

definition before_pub :: "nat \<Rightarrow> u8 list \<Rightarrow> int \<Rightarrow> nat \<Rightarrow> (nat \<times> u8 list) list \<Rightarrow> bus_client \<Rightarrow> bool" where
  "before_pub a m g i out c \<longleftrightarrow> bc_out c = out \<and>
     (if i = a then bc_pc c \<in> {BReading, BChecking} \<and> bc_in c = m \<and> bc_message_id c = g \<or>
                    bc_pc c = BPublishing m \<and> bc_in c = [] \<and> bc_message_id c = g + 1
      else bc_pc c \<in> {BReading, BChecking} \<and> bc_in c = [] \<and> bc_message_id c = g)"

definition after_pub :: "nat \<Rightarrow> u8 list \<Rightarrow> int \<Rightarrow> nat \<Rightarrow> nat \<Rightarrow> (nat \<times> u8 list) list \<Rightarrow> bus_client \<Rightarrow> bool" where
  "after_pub a m g k i out c \<longleftrightarrow> bc_in c = [] \<and>
     (if i = a then bc_pc c \<in> {BReading, BChecking} \<and> bc_message_id c = g + 1 \<and> bc_out c = out
      else bc_pc c \<in> {BReading, BChecking, BTaking} \<and> bc_message_id c = g \<and> bc_out c = out \<or>
           bc_pc c = BWriting k m \<and> bc_message_id c = g + 1 \<and> bc_out c = out \<or>
           bc_pc c \<in> {BReading, BChecking} \<and> bc_message_id c = g + 1 \<and> bc_out c = out @ [(k, m)])"

definition under_way :: "nat \<Rightarrow> u8 list \<Rightarrow> bus \<Rightarrow> bus \<Rightarrow> bool" where
  "under_way a m s s' \<longleftrightarrow> length (bs_clients s') = length (bs_clients s) \<and>
     (bs_published s' = bs_published s \<and> g_message_id s' = g_message_id s \<and>
      (\<forall>i < length (bs_clients s). before_pub a m (g_message_id s) i (bc_out (bs_clients s ! i)) (bs_clients s' ! i)) \<or>
      bs_published s' = bs_published s @ [(a, m)] \<and> g_message_id s' = g_message_id s + 1 \<and> g_message_data s' = m \<and>
      (\<forall>i < length (bs_clients s).
         after_pub a m (g_message_id s) (length (bs_published s)) i (bc_out (bs_clients s ! i)) (bs_clients s' ! i)))"

lemma under_way_step:
  assumes u: "under_way a m s s'" and g: "g_message_id s < INT_MAX" and i: "i < length (bs_clients s)" and m: "m \<noteq> []" "length m \<le> 1024"
  shows "under_way a m s (bus_server_work v 1024 1024 i s')"
proof -
  let ?c = "bs_clients s' ! i"
  have len: "length (bs_clients s') = length (bs_clients s)" using u by (simp add: under_way_def)
  consider
    (before) "bs_published s' = bs_published s" "g_message_id s' = g_message_id s"
      "\<And>j. j < length (bs_clients s) \<Longrightarrow> before_pub a m (g_message_id s) j (bc_out (bs_clients s ! j)) (bs_clients s' ! j)"
  | (after) "bs_published s' = bs_published s @ [(a, m)]" "g_message_id s' = g_message_id s + 1" "g_message_data s' = m"
      "\<And>j. j < length (bs_clients s) \<Longrightarrow>
         after_pub a m (g_message_id s) (length (bs_published s)) j (bc_out (bs_clients s ! j)) (bs_clients s' ! j)"
    using u unfolding under_way_def by blast
  then show ?thesis
  proof cases
    case before
    note b = before(3) [OF i]
    show ?thesis
    proof (cases "bc_pc ?c = BPublishing m")
      case True
      with b have a: "i = a" "bc_in ?c = []" "bc_message_id ?c = g_message_id s + 1" "bc_out ?c = bc_out (bs_clients s ! i)"
        by (auto simp: before_pub_def split: if_splits)
      have "after_pub a m (g_message_id s) (length (bs_published s)) j (bc_out (bs_clients s ! j)) (bs_clients s' ! j)"
        if "j < length (bs_clients s)" "j \<noteq> i" for j
        using before(3) [OF that(1)] that(2) a(1) by (auto simp: before_pub_def after_pub_def)
      with True a len i before(1,2) show ?thesis
        by (auto simp: under_way_def bus_server_work_def set_client_def Let_def nth_list_update after_pub_def)
    next
      case False
      with b g m obtain c' where c': "bus_server_work v 1024 1024 i s' = set_client s' i c'"
        "before_pub a m (g_message_id s) i (bc_out (bs_clients s ! i)) c'"
        using before(2) by (auto simp: before_pub_def bus_server_work_def Let_def next_message_id_def split: if_splits)
      have "\<forall>j < length (bs_clients s). before_pub a m (g_message_id s) j (bc_out (bs_clients s ! j))
          ((bs_clients s')[i := c'] ! j)"
        using before(3) c'(2) len i by (auto simp: nth_list_update)
      with before(1,2) len c'(1) show ?thesis by (simp add: under_way_def set_client_def)
    qed
  next
    case after
    have "take 1024 (g_message_data s') = g_message_data s'" using after(3) m(2) by simp
    then have "\<exists>c'. bus_server_work v 1024 1024 i s' = set_client s' i c' \<and>
        after_pub a m (g_message_id s) (length (bs_published s)) i (bc_out (bs_clients s ! i)) c'"
      using after(4) [OF i] after(1-3) by (auto simp: after_pub_def bus_server_work_def Let_def split: if_splits)
    with after len i show ?thesis by (auto simp: under_way_def set_client_def nth_list_update)
  qed
qed

lemma under_way_run:
  assumes "under_way a m s s'" and "\<forall>i \<in> set ws. i < length (bs_clients s)" and "m \<noteq> []" "length m \<le> 1024"
    and g: "g_message_id s < INT_MAX"
  shows "under_way a m s (bus_run v ws s')"
  using assms(1,2)
proof (induction ws arbitrary: s')
  case (Cons i ws)
  with under_way_step [OF Cons.prems(1) g _ assms(3,4), of i] show ?case by (simp add: bus_run_def)
qed (simp add: bus_run_def)

text \<open>
  C3.  A message sent while nothing else is going on reaches everybody, as long as the message numbers
  have not run out: when the workers count alike, below the largest \<open>int\<close>, and a client sends one message
  that is read and written in one piece, then in whatever order the workers run, once nothing is left to do every other client has been sent the message exactly once, the
  sender has not, and the workers count alike again.
\<close>

theorem bus_delivers_quiet:
  fixes v :: int
  assumes s: "bus_synced s" "g_message_id s < INT_MAX" and a: "a < length (bs_clients s)" and m: "m \<noteq> []" "length m \<le> 1024"
    and ws: "\<forall>i \<in> set ws. i < length (bs_clients s)"
  defines "s' \<equiv> bus_run v ws (set_client s a ((bs_clients s ! a)\<lparr>bc_in := m\<rparr>))"
  assumes q: "bus_quiet s'"
  shows "bus_synced s' \<and> bs_published s' = bs_published s @ [(a, m)] \<and>
    (\<forall>i < length (bs_clients s). bc_out (bs_clients s' ! i) =
       bc_out (bs_clients s ! i) @ (if i = a then [] else [(length (bs_published s), m)]))"
proof -
  have "under_way a m s (set_client s a ((bs_clients s ! a)\<lparr>bc_in := m\<rparr>))"
    using s a by (auto simp: under_way_def set_client_def bus_synced_def before_pub_def nth_list_update)
  from under_way_run [OF this ws m s(2)] have u: "under_way a m s s'" unfolding s'_def .
  have quiet: "bc_in (bs_clients s' ! i) = []" "bc_pc (bs_clients s' ! i) = BReading"
    "g_message_id s' \<le> bc_message_id (bs_clients s' ! i)" if "i < length (bs_clients s)" for i
    using q u that by (auto simp: bus_quiet_def under_way_def)
  have "\<not> before_pub a m (g_message_id s) a (bc_out (bs_clients s ! a)) (bs_clients s' ! a)"
    using quiet [OF a] m(1) by (auto simp: before_pub_def)
  with u a have after: "length (bs_clients s') = length (bs_clients s)" "bs_published s' = bs_published s @ [(a, m)]"
    "g_message_id s' = g_message_id s + 1"
    "\<And>i. i < length (bs_clients s) \<Longrightarrow>
       after_pub a m (g_message_id s) (length (bs_published s)) i (bc_out (bs_clients s ! i)) (bs_clients s' ! i)"
    unfolding under_way_def by blast+
  have each: "bc_message_id (bs_clients s' ! i) = g_message_id s' \<and> bc_out (bs_clients s' ! i) =
      bc_out (bs_clients s ! i) @ (if i = a then [] else [(length (bs_published s), m)])"
    if "i < length (bs_clients s)" for i
    using after(4) [OF that] quiet [OF that] after(3) by (auto simp: after_pub_def split: if_splits)
  have "bus_synced s'"
    unfolding bus_synced_def by (intro ballI) (metis after(1) each in_set_conv_nth quiet(1,2))
  with each after(2) show ?thesis by blast
qed

text \<open>Three clients.\<close>

theorem bus_delivers_quiet_witness:
  "map bc_out (bs_clients (bus_run 0 [1, 1, 0, 2, 0, 1, 0, 0, 2, 2, 2] (set_client (waiting [[], [], []]) 1
       ((bs_clients (waiting [[], [], []]) ! 1)\<lparr>bc_in := [65]\<rparr>)))) = [[(0, [65])], [], [(0, [65])]]"
proof -
  let ?s = "waiting [[], [], []]"
  have s: "?s = \<lparr> g_message_id = 0, g_message_data = [], bs_clients = [new_client, new_client, new_client], bs_published = [] \<rparr>"
    by (simp add: waiting_def bus_start_def new_client_def)
  have h: "bus_synced ?s" "g_message_id ?s < INT_MAX" "1 < length (bs_clients ?s)" "[65 :: u8] \<noteq> []" "length [65 :: u8] \<le> 1024"
    "\<forall>i \<in> set [1, 1, 0, 2, 0, 1, 0, 0, 2, 2, 2]. i < length (bs_clients ?s)"
    unfolding s by (simp_all add: bus_synced_def new_client_def INT_MAX_def)
  have q: "bus_quiet (bus_run 0 [1, 1, 0, 2, 0, 1, 0, 0, 2, 2, 2] (set_client ?s 1 ((bs_clients ?s ! 1)\<lparr>bc_in := [65]\<rparr>)))"
    (is "bus_quiet ?t")
    unfolding s by (simp add: bus_run_def new_client_def bus_server_work_def set_client_def bus_quiet_def next_message_id_def INT_MAX_def)
  have l: "length (bs_clients ?t) = 3" by (simp add: s bus_run_def set_client_def)
  have n: "length (bs_clients ?s) = 3" "bs_published ?s = []" by (simp_all add: s)
  have c: "bc_out (bs_clients ?s ! i) = []" if "i < 3" for i
    using that by (auto simp: s new_client_def less_Suc_eq numeral_3_eq_3)
  have out: "bc_out (bs_clients ?t ! i) = (if i = 1 then [] else [(0, [65])])" if "i < 3" for i
    using bus_delivers_quiet [OF h q, THEN conjunct2, THEN conjunct2] that c [OF that] n by simp
  show ?thesis
    by (rule nth_equalityI) (use out [of 0] out [of 1] out [of 2] l in \<open>auto simp: less_Suc_eq numeral_3_eq_3 numeral_2_eq_2\<close>)
qed

end
