(* ===== verification/UnixBus.thy ===== *)
theory UnixBus
  imports BusServer ChannelDrivers
begin

text \<open>
  Sockets (\<open>src/sockutils.c\<close>), starting and stopping the message bus (\<open>src/bus_server.c\<close>) and the bus
  driver of the channel manager (\<open>src/channel.c\<close>).  What the kernel answers is a record of parameters;
  what happens to descriptors and names is a list of events.
\<close>

subsection \<open>Sockets\<close>

record sock_kernel =
  sk_socket :: int
  sk_setsockopt :: bool
  sk_pton :: bool
  sk_bind :: bool
  sk_listen :: bool
  sk_connect :: bool
  sk_accept :: int
  sk_shutdown :: int

text \<open>\<open>sun_path\<close> has 108 bytes, and \<open>strcpy\<close> does not look.\<close>

definition SUN_PATH_LEN :: nat where
  "SUN_PATH_LEN = 108"

definition sock_unix_listen :: "sock_kernel \<Rightarrow> u8 list \<Rightarrow> (int \<times> os_event list) option" where
  "sock_unix_listen k path =
     (let fd = sk_socket k
      in if fd < 0 then Some (- 1, [])
      else if length path + 1 > SUN_PATH_LEN then None
      else if \<not> sk_bind k then Some (- 1, [Opened fd, Unlinked path])
      else if \<not> sk_listen k then Some (- 1, [Opened fd, Unlinked path, Made path])
      else Some (fd, [Opened fd, Unlinked path, Made path]))"

definition sock_unix_connect :: "sock_kernel \<Rightarrow> u8 list \<Rightarrow> (int \<times> os_event list) option" where
  "sock_unix_connect k path =
     (let fd = sk_socket k
      in if fd < 0 then Some (- 1, [])
      else if length path + 1 > SUN_PATH_LEN then None
      else if \<not> sk_connect k then Some (- 1, [Opened fd])
      else Some (fd, [Opened fd]))"

definition sock_stream_connect :: "sock_kernel \<Rightarrow> int \<times> os_event list" where
  "sock_stream_connect k =
     (let fd = sk_socket k
      in if fd < 0 then (- 1, [])
      else if \<not> sk_pton k then (- 1, [Opened fd])
      else if \<not> sk_connect k then (- 1, [Opened fd])
      else (fd, [Opened fd]))"

definition sock_stream_listen :: "sock_kernel \<Rightarrow> int \<times> os_event list" where
  "sock_stream_listen k =
     (let fd = sk_socket k
      in if fd < 0 then (- 1, [])
      else if \<not> sk_setsockopt k then (- 1, [Opened fd])
      else if \<not> sk_bind k then (- 1, [Opened fd])
      else if \<not> sk_listen k then (- 1, [Opened fd])
      else (fd, [Opened fd]))"

definition sock_wait :: "sock_kernel \<Rightarrow> int \<times> os_event list" where
  "sock_wait k = (let fd = sk_accept k in if fd < 0 then (- 1, []) else (fd, [Opened fd]))"

definition sock_shutdown :: "sock_kernel \<Rightarrow> int" where
  "sock_shutdown k = sk_shutdown k"

text \<open>Every failure after \<open>socket\<close> leaves the socket open.\<close>

lemma sock_failures_leak:
  assumes "0 \<le> sk_socket k"
  shows "sock_unix_listen k path = Some (- 1, es) \<Longrightarrow> open_fds es F = insert (sk_socket k) F"
    and "sock_unix_connect k path = Some (- 1, es) \<Longrightarrow> open_fds es F = insert (sk_socket k) F"
    and "sock_stream_connect k = (- 1, es) \<Longrightarrow> open_fds es F = insert (sk_socket k) F"
    and "sock_stream_listen k = (- 1, es) \<Longrightarrow> open_fds es F = insert (sk_socket k) F"
  using assms
  by (auto simp: sock_unix_listen_def sock_unix_connect_def sock_stream_connect_def sock_stream_listen_def Let_def
      split: if_splits)

subsection \<open>The server\<close>

text \<open>Whether the thread and the work queue exist; \<open>memset\<close> clears everything else.\<close>

record bus_server =
  sv_fd :: int
  sv_max_clients :: nat
  sv_path :: "u8 list option"
  sv_wq :: bool
  sv_thread :: bool
  sv_work :: bool

record bus_kernel =
  bk_workqueue :: bool
  bk_calloc :: bool
  bk_pthread_create :: int
  bk_sock :: sock_kernel

text \<open>\<open>pthread_create\<close> answers 0 or a positive error number.\<close>

definition bus_server_start ::
    "bus_kernel \<Rightarrow> nat \<Rightarrow> u8 list \<Rightarrow> (int \<times> bus_server \<times> os_event list) option" where
  "bus_server_start k max_clients path = (
     let s = \<lparr> sv_fd = 0, sv_max_clients = 0, sv_path = None, sv_wq = False, sv_thread = False, sv_work = False \<rparr>
     in if \<not> bk_workqueue k then Some (- 1, s, [])
     else
       let s = s\<lparr>sv_wq := True\<rparr>
       in if \<not> bk_calloc k then Some (- 1, s, [])
       else do {
         let s = s\<lparr>sv_work := True\<rparr>;
         (rc, es) \<leftarrow> sock_unix_listen (bk_sock k) path;
         if rc < 0 then Some (- 1, s, es)
         else
           let s = s\<lparr>sv_fd := rc, sv_path := Some path, sv_max_clients := max_clients\<rparr>;
               rc = bk_pthread_create k;
               s = s\<lparr>sv_thread := (rc = 0)\<rparr>
           in if rc < 0 then Some (- 1, s, es) else Some (0, s, es)
       })"

text \<open>A thread or a work queue that was never created cannot be stopped.\<close>

definition bus_server_stop :: "bus_server \<Rightarrow> os_event list option" where
  "bus_server_stop s =
     (if \<not> sv_wq s \<or> \<not> sv_thread s then None
      else Some (Closed (sv_fd s) # (case sv_path s of None \<Rightarrow> [] | Some p \<Rightarrow> [Unlinked p])))"

text \<open>
  Accepting a client: the first work item that is free is added to the work queue.  The code then
  waits until the item's status is \<open>WQ_WORK_IN_PROGRESS\<close>.
\<close>

definition free_work :: "nat \<Rightarrow> workqueue \<Rightarrow> nat option" where
  "free_work max_clients wq =
     find (\<lambda>i. w_status (wq_works wq i) = WQ_WORK_NEW \<or> w_status (wq_works wq i) = WQ_WORK_COMPLETE) [0..<max_clients]"

definition clear_work :: "workqueue \<Rightarrow> nat \<Rightarrow> workqueue" where
  "clear_work wq i = wq\<lparr>wq_works := (wq_works wq)(i :=
     \<lparr> w_slice = 0, w_status = WQ_WORK_NEW, w_requests = 0, w_complete_fn = False \<rparr>)\<rparr>"

text \<open>What \<open>calloc\<close> returns is written to without a check.\<close>

definition bus_server_queue_work :: "nat \<Rightarrow> bool \<Rightarrow> workqueue \<Rightarrow> (int \<times> workqueue) option" where
  "bus_server_queue_work max_clients calloc_ok wq =
     (case free_work max_clients wq of
        None \<Rightarrow> Some (- 1, wq)
      | Some i \<Rightarrow> if \<not> calloc_ok then None else Some (0, workqueue_add_work (clear_work wq i) i))"

text \<open>It refuses a client exactly when all items are taken, and never takes one that is.\<close>

lemma bus_server_queue_work_correct:
  assumes "bus_server_queue_work n True wq = Some (rc, wq')"
  shows "if \<exists>i < n. w_status (wq_works wq i) \<in> {WQ_WORK_NEW, WQ_WORK_COMPLETE}
    then rc = 0 \<and> (\<exists>i < n. w_status (wq_works wq i) \<in> {WQ_WORK_NEW, WQ_WORK_COMPLETE} \<and>
      wq' = workqueue_add_work (clear_work wq i) i)
    else rc = - 1 \<and> wq' = wq"
  using assms by (auto simp: bus_server_queue_work_def free_work_def find_None_iff find_Some_iff split: option.splits)

text \<open>Without memory it refuses a client, or writes through a null pointer when it should take it.\<close>

lemma bus_server_queue_work_oom:
  "bus_server_queue_work n False wq = None \<longleftrightarrow> (\<exists>i < n. w_status (wq_works wq i) \<in> {WQ_WORK_NEW, WQ_WORK_COMPLETE})"
  by (auto simp: bus_server_queue_work_def free_work_def find_None_iff find_Some_iff split: option.splits)

subsection \<open>The driver\<close>

record channel_unix_bus =
  ub_fd :: int
  ub_bus_server :: "bus_server option"

record ubus_kernel = bus_kernel +
  uk_calloc_ctx :: bool
  uk_calloc_server :: bool
  uk_access :: bool
  uk_connect :: sock_kernel

definition channel_unix_bus_setup ::
    "ubus_kernel \<Rightarrow> u8 list \<Rightarrow> (int \<times> channel_unix_bus option \<times> os_event list) option" where
  "channel_unix_bus_setup k device =
     (if length device > 120 then Some (- 1, None, [])
      else if \<not> uk_calloc_ctx k then Some (- 1, None, [])
      else if \<not> uk_access k \<and> \<not> uk_calloc_server k then Some (- 1, None, [])
      else do {
        (rc, server, es) \<leftarrow> (if uk_access k then Some (0, None, [])
          else map_option (\<lambda>(rc, s, es). (rc, Some s, es)) (bus_server_start (bus_kernel.truncate k) 5 device));
        (rc, es) \<leftarrow> (if rc < 0 then Some (- 1, es)
          else map_option (\<lambda>(rc, es'). (rc, es @ es')) (sock_unix_connect (uk_connect k) device));
        if rc < 0 then do {
          es' \<leftarrow> (case server of None \<Rightarrow> Some [] | Some s \<Rightarrow> bus_server_stop s);
          Some (- 1, None, es @ es')
        }
        else Some (0, Some \<lparr> ub_fd = rc, ub_bus_server = server \<rparr>, es)
      })"

definition channel_unix_bus_teardown :: "channel_unix_bus \<Rightarrow> os_event list option" where
  "channel_unix_bus_teardown ctx = do {
     es \<leftarrow> (case ub_bus_server ctx of None \<Rightarrow> Some [] | Some s \<Rightarrow> bus_server_stop s);
     Some (Closed (ub_fd ctx) # es)
   }"

definition channel_unix_bus_send :: "channel_unix_bus \<Rightarrow> (int \<Rightarrow> sys_result list) \<Rightarrow> int option" where
  "channel_unix_bus_send ctx ks = map_option fst (write_loop (ks (ub_fd ctx)))"

definition channel_unix_bus_recv :: "channel_unix_bus \<Rightarrow> (int \<Rightarrow> sys_result list) \<Rightarrow> int option" where
  "channel_unix_bus_recv ctx ks = map_option fst (read_loop (ks (ub_fd ctx)))"

definition channel_unix_bus_flush :: "channel_unix_bus \<Rightarrow> (int \<Rightarrow> sys_result list) \<Rightarrow> unit option" where
  "channel_unix_bus_flush ctx ks = map_option (\<lambda>_. ()) (flush_fd (ks (ub_fd ctx)))"

lemmas ubus_defs = channel_unix_bus_setup_def channel_unix_bus_teardown_def bus_server_start_def bus_server_stop_def
  sock_unix_listen_def sock_unix_connect_def bus_kernel.defs Let_def

text \<open>
  A set-up that succeeds, with a thread that could be created, is undone by the teardown: the
  client's socket is closed, and the server's when this set-up started it.
\<close>

lemma channel_unix_bus_setup_teardown:
  assumes "channel_unix_bus_setup k device = Some (0, Some ctx, es)" and "bk_pthread_create k = 0"
    and "sk_socket (bk_sock k) \<notin> F" "sk_socket (uk_connect k) \<notin> F" "sk_socket (bk_sock k) \<noteq> sk_socket (uk_connect k)"
  shows "\<exists>es'. channel_unix_bus_teardown ctx = Some es' \<and> open_fds (es @ es') F = F \<and> closes_open (es @ es') F"
  using assms by (auto simp: ubus_defs split: if_splits bind_splits)

text \<open>A device name of 108 to 120 characters passes the check and overruns the socket address.\<close>

lemma channel_unix_bus_overflow:
  assumes "length device > 107" "length device \<le> 120" "uk_calloc_ctx k" "uk_access k" "0 \<le> sk_socket (uk_connect k)"
  shows "channel_unix_bus_setup k device = None"
  using assms by (auto simp: ubus_defs SUN_PATH_LEN_def)

text \<open>When the server could not be started it is stopped all the same, with a thread that does not exist.\<close>

lemma channel_unix_bus_stop_unstarted:
  assumes "length device \<le> 107" "uk_calloc_ctx k" "\<not> uk_access k" "uk_calloc_server k" "\<not> sk_bind (bk_sock k)"
  shows "channel_unix_bus_setup k device = None"
  using assms by (auto simp: ubus_defs SUN_PATH_LEN_def)

end
