(* ===== verification/BusServe.thy ===== *)
theory BusServe
  imports UnixBus
begin

text \<open>
  The thread of the message bus that accepts clients (\<open>bus_server_serve()\<close> of \<open>src/bus_server.c\<close>),
  interleaved with the workers of its work queue.  A step of the acceptor is one answer of \<open>accept\<close>
  with what follows it until the item is put into the backlog, which takes steps of its own, as in
  \<open>WorkQueue\<close>; then each look at the item's status, in the loop that waits for it to be in progress, is a
  step.  The search for a free item is one step: only the acceptor takes items, so an item it finds
  free is free when it is taken.  Memory for what it allocates can be had.
\<close>

datatype acceptor = Accepting | AwaitProgress nat | Stopped

datatype accepted = Accepted int | Again | AcceptFailed

record bus_serve =
  se_wq :: workqueue
  se_pc :: acceptor
  se_client :: "nat \<Rightarrow> int option"
  se_refused :: "int list"

text \<open>\<open>se_client\<close> is the descriptor in the \<open>arg\<close> of an item, \<open>se_refused\<close> the descriptors closed.\<close>

definition bus_server_serve :: "nat \<Rightarrow> accepted \<Rightarrow> bus_serve \<Rightarrow> bus_serve" where
  "bus_server_serve max_clients k s = (case se_pc s of
       Accepting \<Rightarrow> (case k of
           Again \<Rightarrow> s
         | AcceptFailed \<Rightarrow> s\<lparr>se_pc := Stopped\<rparr>
         | Accepted fd \<Rightarrow> (case bus_server_queue_work max_clients True (se_wq s) of
               None \<Rightarrow> s
             | Some (rc, wq) \<Rightarrow>
                 if rc < 0 then s\<lparr>se_refused := se_refused s @ [fd]\<rparr>
                 else case free_work max_clients (se_wq s) of
                     None \<Rightarrow> s
                   | Some w \<Rightarrow> s\<lparr>se_wq := wq, se_client := (se_client s)(w \<mapsto> fd), se_pc := AwaitProgress w\<rparr>))
     | AwaitProgress w \<Rightarrow>
         if wq_client (se_wq s) \<noteq> Ready \<or> w_status (wq_works (se_wq s) w) \<noteq> WQ_WORK_IN_PROGRESS then s
         else s\<lparr>se_pc := Accepting\<rparr>
     | Stopped \<Rightarrow> s)"

text \<open>Taking an item clears its node.\<close>

definition accept_act :: "nat \<Rightarrow> accepted \<Rightarrow> bus_serve \<Rightarrow> backlog_act" where
  "accept_act max_clients k s = (case (se_pc s, k, free_work max_clients (se_wq s)) of
       (Accepting, Accepted fd, Some w) \<Rightarrow> Cleared w
     | _ \<Rightarrow> Other)"

inductive serve_act :: "nat \<Rightarrow> bus_serve \<Rightarrow> backlog_act \<Rightarrow> bus_serve \<Rightarrow> bool" for n where
  accept: "serve_act n s (accept_act n k s) (bus_server_serve n k s)"
| adding: "client_put (se_wq s) = Some (a, wq) \<Longrightarrow> serve_act n s a (s\<lparr>se_wq := wq\<rparr>)"
| worker: "worker_act (se_wq s) a wq \<Longrightarrow> serve_act n s a (s\<lparr>se_wq := wq\<rparr>)"

definition serve_step :: "nat \<Rightarrow> bus_serve \<Rightarrow> bus_serve \<Rightarrow> bool" where
  "serve_step n s s' \<longleftrightarrow> (\<exists>a. serve_act n s a s')"

text \<open>As many workers as items, all cleared.\<close>

definition serve_start :: "nat \<Rightarrow> nat \<Rightarrow> bus_serve" where
  "serve_start capacity n = \<lparr> se_wq = workqueue_create capacity
       (\<lambda>_. \<lparr> w_slice = 0, w_status = WQ_WORK_NEW, w_requests = 0, w_complete_fn = False \<rparr>) n,
     se_pc = Accepting, se_client = (\<lambda>_. None), se_refused = [] \<rparr>"

definition serve_reachable :: "nat \<Rightarrow> nat \<Rightarrow> bus_serve \<Rightarrow> bool" where
  "serve_reachable capacity n s \<longleftrightarrow> (serve_step n)\<^sup>*\<^sup>* (serve_start capacity n) s"

lemma free_workD:
  "free_work n wq = Some w \<Longrightarrow> w < n \<and> \<not> active wq w \<and>
     (w_status (wq_works wq w) = WQ_WORK_NEW \<or> workqueue_work_is_complete wq w)"
  by (auto simp: free_work_def find_Some_iff active_def workqueue_work_is_complete_def)

lemma free_work_None: "free_work n wq = None \<longleftrightarrow> (\<forall>w < n. active wq w)"
  unfolding free_work_def find_None_iff active_def
  by simp (metis work_status.exhaust work_status.distinct(1,3,5,7,9,11))

text \<open>The workers change the status of active items only, and these stay active until they are complete.\<close>

lemma worker_act_status:
  assumes "worker_act wq a wq2" and inv: "wq_inv wq"
  shows "(\<not> active wq w \<longrightarrow> w_status (wq_works wq2 w) = w_status (wq_works wq w)) \<and>
    (active wq w \<longrightarrow> active wq2 w \<or> workqueue_work_is_complete wq2 w) \<and>
    w_complete_fn (wq_works wq2 w) = w_complete_fn (wq_works wq w) \<and> wq_client wq2 = wq_client wq"
  using assms(1)
proof cases
  case (act i rc ticks)
  note held = held_active [OF inv act(1)]
  from act(2) show ?thesis
  proof (cases rule: workqueue_factory_cases)
    case (complete v b)
    with held [of v] show ?thesis by (auto simp: wq_ops)
  next
    case (report v b)
    then show ?thesis by (auto simp: wq_ops)
  next
    case (mark v)
    with held [of v] show ?thesis by (auto simp: wq_ops)
  qed (auto simp: wq_ops)
qed

lemma client_put_status: "client_put wq = Some (a, wq2) \<Longrightarrow> wq_works wq2 = wq_works wq"
  by (auto simp: client_put_def put_backlog_def split: client.splits)

lemma bus_server_serve_cases [consumes 0, case_names same stopped refused taken seen]:
  obtains "bus_server_serve n k s = s" "accept_act n k s = Other"
  | "bus_server_serve n k s = s\<lparr>se_pc := Stopped\<rparr>" "se_pc s = Accepting" "accept_act n k s = Other"
  | fd where "bus_server_serve n k s = s\<lparr>se_refused := se_refused s @ [fd]\<rparr>" "se_pc s = Accepting"
      "\<forall>w < n. active (se_wq s) w" "accept_act n k s = Other"
  | fd w where "bus_server_serve n k s = s\<lparr>se_wq := workqueue_add_work (clear_work (se_wq s) w) w,
        se_client := (se_client s)(w \<mapsto> fd), se_pc := AwaitProgress w\<rparr>" "se_pc s = Accepting"
      "free_work n (se_wq s) = Some w" "accept_act n k s = Cleared w"
  | w where "bus_server_serve n k s = s\<lparr>se_pc := Accepting\<rparr>" "se_pc s = AwaitProgress w" "wq_client (se_wq s) = Ready"
      "w_status (wq_works (se_wq s) w) = WQ_WORK_IN_PROGRESS" "accept_act n k s = Other"
proof (cases "se_pc s")
  case Accepting
  show thesis
  proof (cases k)
    case (Accepted fd)
    show thesis
    proof (cases "free_work n (se_wq s)")
      case None
      with Accepting Accepted show thesis
        by (intro that(3) [of fd])
          (simp_all add: bus_server_serve_def bus_server_queue_work_def accept_act_def flip: free_work_None)
    next
      case (Some w)
      with Accepting Accepted show thesis
        by (intro that(4) [of w fd]) (simp_all add: bus_server_serve_def bus_server_queue_work_def accept_act_def)
    qed
  next
    case Again
    with Accepting show thesis by (intro that(1)) (simp_all add: bus_server_serve_def accept_act_def)
  next
    case AcceptFailed
    with Accepting show thesis by (intro that(2)) (simp_all add: bus_server_serve_def accept_act_def)
  qed
next
  case (AwaitProgress w)
  with that(1) that(5) [of w] show thesis
    by (cases "wq_client (se_wq s) = Ready \<and> w_status (wq_works (se_wq s) w) = WQ_WORK_IN_PROGRESS")
      (simp_all add: bus_server_serve_def accept_act_def)
next
  case Stopped
  with that(1) show thesis by (simp add: bus_server_serve_def accept_act_def)
qed

text \<open>
  Only the items of clients are active, and the item that is waited for was taken; the thread is inside
  the work queue only when it has taken an item; no item has a callback.
\<close>

definition serve_inv :: "nat \<Rightarrow> bus_serve \<Rightarrow> bool" where
  "serve_inv n s \<longleftrightarrow> wq_inv (se_wq s) \<and> (\<forall>w. active (se_wq s) w \<longrightarrow> w < n \<and> se_client s w \<noteq> None) \<and>
     (\<forall>w. se_pc s = AwaitProgress w \<longrightarrow> active (se_wq s) w \<or> workqueue_work_is_complete (se_wq s) w) \<and>
     (wq_client (se_wq s) = Ready \<or> (\<exists>w. se_pc s = AwaitProgress w)) \<and>
     (\<forall>w. \<not> w_complete_fn (wq_works (se_wq s) w))"

lemma add_work_status:
  "w_status (wq_works (workqueue_add_work wq w) v) = (if v = w then WQ_WORK_QUEUED else w_status (wq_works wq v))"
  by (simp add: workqueue_add_work_def)

lemma clear_and_add:
  "\<not> w_complete_fn (wq_works wq w) \<Longrightarrow> workqueue_add_work (clear_work wq w) w = workqueue_add_work wq w"
  by (cases "wq_works wq w") (simp add: workqueue_add_work_def clear_work_def)

text \<open>Taking an item is an addition to the work queue.\<close>

lemma serve_take:
  assumes "serve_inv n s" and "se_pc s = Accepting" and "free_work n (se_wq s) = Some w"
  shows "client_act False (se_wq s) Other (workqueue_add_work (clear_work (se_wq s) w) w)"
  using assms free_workD [OF assms(3)] by (simp add: clear_and_add serve_inv_def client_act.add)

lemma serve_act_inv: "serve_act n s a s' \<Longrightarrow> serve_inv n s \<Longrightarrow> serve_inv n s'"
proof (induction rule: serve_act.induct)
  case (accept s k)
  show ?case
  proof (cases n k s rule: bus_server_serve_cases)
    case (taken fd w)
    have "wq_inv (workqueue_add_work (clear_work (se_wq s) w) w)"
      using client_act_inv [OF serve_take [OF accept taken(2,3)]] accept by (simp add: serve_inv_def)
    moreover have "workqueue_add_work (clear_work (se_wq s) w) w = workqueue_add_work (se_wq s) w"
      using accept by (simp add: clear_and_add serve_inv_def)
    ultimately show ?thesis
      using accept free_workD [OF taken(3)] unfolding taken(1)
      by (auto simp: serve_inv_def active_def add_work_status workqueue_add_work_def)
  qed (use accept in \<open>simp_all add: serve_inv_def\<close>)
next
  case (adding s a wq)
  then have "wq_inv wq" using client_act_inv client_act.put by (metis serve_inv_def)
  moreover have "\<exists>w. se_pc s = AwaitProgress w"
    using adding by (auto simp: serve_inv_def client_put_def)
  ultimately show ?case
    using adding.prems client_put_status [OF adding.hyps]
    by (simp add: serve_inv_def active_def workqueue_work_is_complete_def)
next
  case (worker s a wq)
  then have "wq_inv (se_wq s)" by (simp add: serve_inv_def)
  with worker worker_act_inv [OF worker.hyps] worker_act_status [OF worker.hyps] show ?case
    unfolding serve_inv_def active_def workqueue_work_is_complete_def by simp metis
qed

lemma serve_step_inv: "serve_step n s s' \<Longrightarrow> serve_inv n s \<Longrightarrow> serve_inv n s'"
  unfolding serve_step_def using serve_act_inv by blast

lemma serve_start_inv: "serve_inv n (serve_start capacity n)"
proof -
  have "\<not> active (se_wq (serve_start capacity n)) w" for w
    by (simp add: serve_start_def workqueue_create_def active_def)
  moreover have "wq_inv (se_wq (serve_start capacity n))"
    by (simp add: serve_start_def create_inv)
  ultimately show ?thesis by (simp add: serve_inv_def) (simp add: serve_start_def workqueue_create_def)
qed

lemma serve_reachable_inv: "serve_reachable capacity n s \<Longrightarrow> serve_inv n s"
  unfolding serve_reachable_def
  by (induction rule: rtranclp_induct) (rule serve_start_inv, rule serve_step_inv)

subsection \<open>What accepting guarantees\<close>

text \<open>
  C5.  However accepting and the workers interleave, a client whose item is active keeps it: no step
  gives the item to another client, and it stays active until it is complete; and a client is
  refused only when every item is active.
\<close>

theorem bus_server_keeps_clients:
  assumes "serve_reachable capacity n s" and "serve_step n s s'"
  shows "(active (se_wq s) w \<longrightarrow> w < n \<and> se_client s' w = se_client s w \<and> se_client s w \<noteq> None \<and>
      (active (se_wq s') w \<or> workqueue_work_is_complete (se_wq s') w)) \<and>
    (se_refused s' \<noteq> se_refused s \<longrightarrow> (\<forall>v < n. active (se_wq s) v))"
proof -
  have inv: "serve_inv n s" using assms(1) by (rule serve_reachable_inv)
  from assms(2) obtain a where "serve_act n s a s'" by (auto simp: serve_step_def)
  then show ?thesis
  proof cases
    case (accept k)
    then show ?thesis using inv
      by (cases n k s rule: bus_server_serve_cases)
        (auto simp: serve_inv_def active_def add_work_status clear_and_add dest!: free_workD)
  next
    case (adding wq)
    with inv client_put_status [OF adding(2)] show ?thesis by (simp add: serve_inv_def active_def)
  next
    case (worker wq)
    with inv worker_act_status [OF worker(2), of w] show ?thesis by (simp add: serve_inv_def)
  qed
qed

text \<open>With one item, the first client keeps it when the acceptor takes its next step.\<close>

theorem bus_server_keeps_clients_witness:
  "se_client (bus_server_serve 1 (Accepted 8) (bus_server_serve 1 (Accepted 7) (serve_start 65536 1))) 0 = Some 7"
proof -
  let ?s = "bus_server_serve 1 (Accepted 7) (serve_start 65536 1)"
  have step: "serve_step n s (bus_server_serve n k s)" for n k s using serve_act.accept by (auto simp: serve_step_def)
  have "serve_reachable 65536 1 ?s" unfolding serve_reachable_def by (rule r_into_rtranclp) (rule step)
  note keeps = bus_server_keeps_clients [OF this step [of 1 _ "Accepted 8"], of 0]
  have "active (se_wq ?s) 0" "se_client ?s 0 = Some 7"
    by (simp_all add: serve_start_def workqueue_create_def bus_server_serve_def bus_server_queue_work_def
        free_work_def active_def add_work_status)
  with keeps show ?thesis by simp
qed

text \<open>The wait is for a status that can be over.\<close>

lemma wait_stuck_step:
  assumes "serve_inv n s" "se_pc s = AwaitProgress w" "workqueue_work_is_complete (se_wq s) w" "serve_step n s s'"
  shows "se_pc s' = AwaitProgress w \<and> workqueue_work_is_complete (se_wq s') w \<and> se_client s' = se_client s \<and>
    se_refused s' = se_refused s"
proof -
  from assms(4) obtain a where "serve_act n s a s'" by (auto simp: serve_step_def)
  then show ?thesis
  proof cases
    case (accept k)
    with assms(2,3) show ?thesis by (simp add: bus_server_serve_def workqueue_work_is_complete_def)
  next
    case (adding wq)
    with assms(2,3) client_put_status [OF adding(2)] show ?thesis by (simp add: workqueue_work_is_complete_def)
  next
    case (worker wq)
    with assms worker_act_status [OF worker(2), of w] show ?thesis
      by (simp add: serve_inv_def active_def workqueue_work_is_complete_def)
  qed
qed

text \<open>
  C6.  The acceptor waits to see the item it has added in progress.  When the worker is done with the
  item before that is looked at, the wait never ends, whatever happens from then on: no client is
  accepted or refused any more.
\<close>

theorem bus_server_wait_stuck:
  assumes "serve_reachable capacity n s" and "se_pc s = AwaitProgress w" and "workqueue_work_is_complete (se_wq s) w"
    and "(serve_step n)\<^sup>*\<^sup>* s s'"
  shows "se_pc s' = AwaitProgress w \<and> se_client s' = se_client s \<and> se_refused s' = se_refused s"
proof -
  have "serve_inv n s' \<and> se_pc s' = AwaitProgress w \<and> workqueue_work_is_complete (se_wq s') w \<and>
      se_client s' = se_client s \<and> se_refused s' = se_refused s"
    using assms(4)
  proof (induction rule: rtranclp_induct)
    case base
    show ?case using assms serve_reachable_inv by simp
  next
    case (step y z)
    then show ?case using wait_stuck_step [of n y w z] serve_step_inv [of n y z] by simp
  qed
  then show ?thesis by simp
qed

text \<open>Concrete runs of a server: the acceptor's thread and the workers take their steps.\<close>

datatype serve_choice = Accept accepted | Add | Work nat int

fun serve_exec :: "nat \<Rightarrow> serve_choice list \<Rightarrow> bus_serve \<Rightarrow> (backlog_act list \<times> bus_serve) option" where
  "serve_exec n [] s = Some ([], s)"
| "serve_exec n (Accept k # cs) s =
     map_option (\<lambda>(as, s'). (accept_act n k s # as, s')) (serve_exec n cs (bus_server_serve n k s))"
| "serve_exec n (Add # cs) s = do {
     (a, wq) \<leftarrow> client_put (se_wq s);
     (as, s) \<leftarrow> serve_exec n cs (s\<lparr>se_wq := wq\<rparr>);
     Some (a # as, s)
   }"
| "serve_exec n (Work i rc # cs) s =
     (if i < length (wq_workers (se_wq s)) then do {
        (a, wq) \<leftarrow> workqueue_factory i rc 0 (se_wq s);
        (as, s) \<leftarrow> serve_exec n cs (s\<lparr>se_wq := wq\<rparr>);
        Some (a # as, s)
      } else None)"

text \<open>The acts of a run from one state to another.\<close>

inductive serve_trace :: "nat \<Rightarrow> bus_serve \<Rightarrow> backlog_act list \<Rightarrow> bus_serve \<Rightarrow> bool" for n where
  Nil: "serve_trace n s [] s"
| Cons: "serve_act n s a s' \<Longrightarrow> serve_trace n s' as s'' \<Longrightarrow> serve_trace n s (a # as) s''"

lemma serve_exec_trace: "serve_exec n cs s = Some (as, s') \<Longrightarrow> serve_trace n s as s'"
proof (induction n cs s arbitrary: as rule: serve_exec.induct)
  case (2 n k cs s)
  then obtain as' where "as = accept_act n k s # as'" "serve_trace n (bus_server_serve n k s) as' s'" by auto
  then show ?case using serve_act.accept serve_trace.Cons by blast
next
  case (3 n cs s)
  then obtain a wq as' where "as = a # as'" "client_put (se_wq s) = Some (a, wq)" "serve_trace n (s\<lparr>se_wq := wq\<rparr>) as' s'"
    by (auto split: bind_splits)
  then show ?case using serve_act.adding serve_trace.Cons by blast
next
  case (4 n i rc cs s)
  then obtain a wq as' where "as = a # as'" "i < length (wq_workers (se_wq s))"
    "workqueue_factory i rc 0 (se_wq s) = Some (a, wq)" "serve_trace n (s\<lparr>se_wq := wq\<rparr>) as' s'"
    by (auto split: bind_splits if_splits)
  then show ?case using serve_act.worker worker_act.act serve_trace.Cons by blast
qed (simp add: serve_trace.Nil)

lemma serve_trace_steps: "serve_trace n s as s' \<Longrightarrow> (serve_step n)\<^sup>*\<^sup>* s s'"
  by (induction rule: serve_trace.induct) (auto simp: serve_step_def intro: converse_rtranclp_into_rtranclp)

text \<open>
  One item and one worker: a client is accepted, and its worker runs the item to its end before the
  acceptor looks.
\<close>

lemma stuck_reachable:
  "\<exists>s. serve_reachable 65536 1 s \<and> se_pc s = AwaitProgress 0 \<and> workqueue_work_is_complete (se_wq s) 0"
proof -
  let ?cs = "[Work 0 0, Accept (Accepted 7), Add, Add, Add, Work 0 0, Work 0 0, Work 0 0, Work 0 0, Work 0 0, Work 0 (- 1),
    Work 0 0, Work 0 0, Work 0 0]"
  have "\<exists>as s. serve_exec 1 ?cs (serve_start 65536 1) = Some (as, s) \<and> se_pc s = AwaitProgress 0 \<and>
      workqueue_work_is_complete (se_wq s) 0"
    by (simp add: serve_start_def bus_server_serve_def bus_server_queue_work_def free_work_def clear_work_def
        accept_act_def wq_eval)
  then show ?thesis using serve_trace_steps [OF serve_exec_trace] unfolding serve_reachable_def by blast
qed

text \<open>From then on nobody is accepted.\<close>

theorem bus_server_wait_stuck_witness:
  "\<exists>s. workqueue_work_is_complete (se_wq s) 0 \<and> se_pc (bus_server_serve 1 (Accepted 8) s) = AwaitProgress 0"
proof -
  obtain s where s: "serve_reachable 65536 1 s" "se_pc s = AwaitProgress 0" "workqueue_work_is_complete (se_wq s) 0"
    using stuck_reachable by blast
  have "(serve_step 1)\<^sup>*\<^sup>* s (bus_server_serve 1 (Accepted 8) s)"
    by (rule r_into_rtranclp) (use serve_act.accept in \<open>auto simp: serve_step_def\<close>)
  from bus_server_wait_stuck [OF s this] s(3) show ?thesis by blast
qed

end
