(* ===== verification/ArgParser.thy ===== *)
theory ArgParser
  imports StrUtils
begin

unbundle bit_operations_syntax

text \<open>
  The command line parser (\<open>src/arg_parser.c\<close>).  An option table is the list of its entries before the
  sentinel.  \<open>getopt_long\<close> is a parameter: from the tables the code builds and the arguments it makes the
  list of what it returns, call by call, with \<open>optarg\<close>, the array of the arguments in the order it leaves
  them in, which is a permutation, and the final \<open>optind\<close>.  The answers of the allocator are a list of
  booleans, which ends when memory has run out.  The object the values are stored in is a map from offsets
  to values; a validator gets it and may change it.
\<close>

datatype ap_type = AP_TYPE_CMD | AP_TYPE_BOOL | AP_TYPE_INT | AP_TYPE_STR | AP_TYPE_BOOL_HANDLER | AP_TYPE_SENTINEL

datatype ap_value = VInt int | VStr "u8 list"

type_synonym ap_data = "nat \<Rightarrow> ap_value"

record ap_option =
  ap_short_name :: int
  ap_long_name :: "u8 list"
  ap_type :: ap_type
  ap_offset :: nat
  ap_flags :: u32
  ap_validator :: "(ap_data \<Rightarrow> int \<times> ap_data) option"

definition AP_OPT_REQUIRED :: u32 where "AP_OPT_REQUIRED = 1"
definition AP_OPT_SEEN :: u32 where "AP_OPT_SEEN = 0x10000000"

text \<open>A row of the table for \<open>getopt_long\<close>; \<open>None\<close> is memory that was never written.\<close>

record long_option =
  lo_name :: "u8 list option"
  lo_has_arg :: "bool option"
  lo_val :: "int option"

text \<open>
  How a call ends: an assertion fails, the process exits, the function returns, the handler of an
  entry of type \<open>AP_TYPE_BOOL_HANDLER\<close> is called before the process exits, or the handler of a command
  is called with the remaining arguments and its result returned.
\<close>

datatype ap_outcome =
    ApAbort
  | ApExit int
  | ApReturn nat
  | ApFailed
  | ApBoolHandler nat
  | ApRun nat "u8 list list" ap_data

definition is_cmd :: "ap_option \<Rightarrow> bool" where
  "is_cmd e \<longleftrightarrow> ap_short_name e = - 1"

definition no_arg :: "ap_option \<Rightarrow> bool" where
  "no_arg e \<longleftrightarrow> ap_type e = AP_TYPE_BOOL \<or> ap_type e = AP_TYPE_BOOL_HANDLER"

text \<open>The loop that fills both tables; \<open>None\<close> is a failed assertion on the room in \<open>ostr[128]\<close>.\<close>

fun ap_tables :: "ap_option list \<Rightarrow> long_option list \<Rightarrow> u8 list \<Rightarrow> (long_option list \<times> u8 list) option" where
  "ap_tables [] opts ostr = Some (opts, ostr)"
| "ap_tables (e # es) opts ostr =
     (if is_cmd e then ap_tables es opts ostr
      else
        let row = \<lparr> lo_name = Some (ap_long_name e), lo_has_arg = Some (\<not> no_arg e), lo_val = Some (ap_short_name e) \<rparr>
        in if no_arg e then
             (if length ostr + 2 < 128 then ap_tables es (opts @ [row]) (ostr @ [of_int (ap_short_name e)]) else None)
           else
             (if length ostr + 3 < 128 then ap_tables es (opts @ [row]) (ostr @ [of_int (ap_short_name e), 58]) else None))"

text \<open>The default options; the name of the last one is not set.\<close>

definition ap_defaults :: "long_option list" where
  "ap_defaults =
     [\<lparr> lo_name = Some (ascii ''help''), lo_has_arg = None, lo_val = Some 104 \<rparr>,
      \<lparr> lo_name = Some (ascii ''quite''), lo_has_arg = None, lo_val = Some 113 \<rparr>,
      \<lparr> lo_name = None, lo_has_arg = None, lo_val = Some 102 \<rparr>]"

definition ap_getopt_tables :: "ap_option list \<Rightarrow> (long_option list \<times> u8 list) option" where
  "ap_getopt_tables es = do {
     (opts, ostr) \<leftarrow> ap_tables es [] [];
     if length ostr + 4 < 128 then Some (opts @ ap_defaults, ostr @ [104, 113, 102, 0]) else None
   }"

record ap_state =
  as_opts :: "ap_option list"
  as_data :: ap_data
  as_fork :: bool
  as_quiet :: bool
  as_mem :: "bool list"

text \<open>The entry \<open>c\<close> selects; the sentinel when there is none.\<close>

definition ap_find :: "ap_option list \<Rightarrow> int \<Rightarrow> nat" where
  "ap_find es c = length (takeWhile (\<lambda>e. c \<noteq> ap_short_name e) es)"

definition ap_store :: "ap_option \<Rightarrow> u8 list option \<Rightarrow> ap_value option" where
  "ap_store e arg =
     (case ap_type e of
        AP_TYPE_BOOL \<Rightarrow> Some (VInt 1)
      | AP_TYPE_STR \<Rightarrow> map_option VStr arg
      | AP_TYPE_INT \<Rightarrow> map_option VInt (arg \<bind> atoi)
      | _ \<Rightarrow> None)"

definition ap_validated :: "ap_option \<Rightarrow> ap_data \<Rightarrow> int \<times> ap_data" where
  "ap_validated e d = (case ap_validator e of None \<Rightarrow> (0, d) | Some f \<Rightarrow> f d)"

text \<open>One round of the loop over \<open>getopt_long\<close>.  A string is copied, which needs memory.\<close>

definition ap_step :: "ap_state \<Rightarrow> int \<times> u8 list option \<Rightarrow> (ap_outcome + ap_state) option" where
  "ap_step st res = (case res of (c, optarg) \<Rightarrow>
     let i = ap_find (as_opts st) c
     in if c = 104 then Some (Inl (ApExit 0))
     else if c = 113 then Some (Inr (st\<lparr>as_quiet := True\<rparr>))
     else if c = 102 then Some (Inr (st\<lparr>as_fork := True\<rparr>))
     else if c = 63 then Some (Inl (ApExit (- 1)))
     else if i \<ge> length (as_opts st) then Some (Inl (ApExit (- 1)))
     else
       let e = as_opts st ! i
       in if ap_type e = AP_TYPE_BOOL_HANDLER then Some (Inl (ApBoolHandler i))
       else if ap_type e \<noteq> AP_TYPE_BOOL \<and> ap_type e \<noteq> AP_TYPE_STR \<and> ap_type e \<noteq> AP_TYPE_INT
         then Some (Inl (ApExit (- 1)))
       else do {
         v \<leftarrow> ap_store e optarg;
         if ap_type e = AP_TYPE_STR \<and> take 1 (as_mem st) \<noteq> [True] then Some (Inl (ApExit (- 1)))
         else
           let (ret, d) = ap_validated e ((as_data st)(ap_offset e := v));
               mem = (if ap_type e = AP_TYPE_STR then tl (as_mem st) else as_mem st)
           in if ret \<noteq> 0 then Some (Inl (ApExit (- 1)))
           else Some (Inr (st\<lparr>as_data := d, as_mem := mem,
             as_opts := (as_opts st)[i := e\<lparr>ap_flags := ap_flags e OR AP_OPT_SEEN\<rparr>]\<rparr>))
       })"

fun ap_loop :: "ap_state \<Rightarrow> (int \<times> u8 list option) list \<Rightarrow> (ap_outcome + ap_state) option" where
  "ap_loop st [] = Some (Inr st)"
| "ap_loop st (r # rs) = do {
     x \<leftarrow> ap_step st r;
     (case x of Inl out \<Rightarrow> Some (Inl out) | Inr st \<Rightarrow> ap_loop st rs)
   }"

definition missing :: "ap_option \<Rightarrow> bool" where
  "missing e \<longleftrightarrow> \<not> is_cmd e \<and> ap_flags e AND AP_OPT_REQUIRED \<noteq> 0 \<and> ap_flags e AND AP_OPT_SEEN = 0"

text \<open>
  The last loop: mandatory options and commands in the order of the table.  \<open>pid\<close> is what \<open>fork\<close>
  answers.  \<open>None\<close>: no entry decided.
\<close>

fun ap_dispatch :: "ap_state \<Rightarrow> int \<Rightarrow> u8 list list \<Rightarrow> nat \<Rightarrow> nat \<Rightarrow> ap_option list \<Rightarrow> ap_outcome option" where
  "ap_dispatch st pid argv optind i [] = None"
| "ap_dispatch st pid argv optind i (e # es) =
     (if \<not> is_cmd e then
        (if missing e then Some (ApExit (- 1)) else ap_dispatch st pid argv optind (i + 1) es)
      else if optind < length argv \<and> ap_long_name e = argv ! optind then
        (if as_fork st \<and> pid < 0 then Some ApFailed
         else if as_fork st \<and> pid \<noteq> 0 then Some (ApExit 0)
         else Some (ApRun i (drop (optind + 1) argv) (as_data st)))
      else ap_dispatch st pid argv optind (i + 1) es)"

definition ap_parse ::
    "(long_option list \<Rightarrow> u8 list \<Rightarrow> u8 list list \<Rightarrow> (int \<times> u8 list option) list \<times> u8 list list \<times> nat) \<Rightarrow>
       bool list \<Rightarrow> int \<Rightarrow> u8 list list \<Rightarrow> ap_option list \<Rightarrow> ap_data \<Rightarrow> ap_outcome option" where
  "ap_parse getopt mem pid argv es data =
     (if take 1 mem \<noteq> [True] then Some (ApExit (- 1))
      else case ap_getopt_tables es of
        None \<Rightarrow> Some ApAbort
      | Some (opts, ostr) \<Rightarrow>
          let (rs, argv, optind) = getopt opts ostr argv
          in do {
            x \<leftarrow> ap_loop \<lparr> as_opts = es, as_data = data, as_fork = False, as_quiet = False, as_mem = tl mem \<rparr> rs;
            (case x of
               Inl out \<Rightarrow> Some out
             | Inr st \<Rightarrow> (case ap_dispatch st pid argv optind 0 (as_opts st) of
                 Some out \<Rightarrow> Some out
               | None \<Rightarrow>
                   if \<exists>e \<in> set es. is_cmd e then (if optind < length argv then Some (ApExit (- 1)) else None)
                   else Some (ApReturn optind)))
          })"

subsection \<open>The tables\<close>

text \<open>The option string: a letter for each option, with a colon when it takes an argument.\<close>

definition short_options :: "ap_option list \<Rightarrow> u8 list" where
  "short_options es =
     concat (map (\<lambda>e. if is_cmd e then [] else of_int (ap_short_name e) # (if no_arg e then [] else [58])) es)"

lemma ap_tables_ostr:
  "ap_tables es opts ostr = Some (opts', ostr') \<Longrightarrow> length ostr < 127 \<Longrightarrow>
     ostr' = ostr @ short_options es \<and> length opts' = length opts + length (filter (\<lambda>e. \<not> is_cmd e) es) \<and> length ostr' < 127"
proof (induction es arbitrary: opts ostr)
  case Nil
  then show ?case by (simp add: short_options_def)
next
  case (Cons e es)
  then show ?case by (fastforce simp: short_options_def Let_def split: if_splits)
qed

text \<open>
  The option string always fits its buffer of 128 bytes; the table fills the \<open>opts_len + 3\<close> rows
  allocated for it, so there is no row of zeros to end it, and its last row has no name.
\<close>

lemma ap_getopt_tables_correct:
  assumes "ap_getopt_tables es = Some (opts, ostr)"
  shows "ostr = short_options es @ [104, 113, 102, 0]" and "length ostr \<le> 128"
    and "length opts = length (filter (\<lambda>e. \<not> is_cmd e) es) + 3" and "lo_name (last opts) = None"
  using assms ap_tables_ostr [of es "[]" "[]"]
  by (auto simp: ap_getopt_tables_def ap_defaults_def split: bind_splits if_splits)

subsection \<open>Options and commands\<close>

text \<open>The table with the entries of \<open>J\<close> marked as seen.\<close>

definition mark :: "ap_option list \<Rightarrow> nat set \<Rightarrow> ap_option list" where
  "mark es J = map (\<lambda>j. if j \<in> J then (es ! j)\<lparr>ap_flags := ap_flags (es ! j) OR AP_OPT_SEEN\<rparr> else es ! j) [0..<length es]"

text \<open>The entries given on the command line, and the object after storing their values in turn, as the validators leave it.\<close>

definition given :: "ap_option list \<Rightarrow> (int \<times> u8 list option) list \<Rightarrow> nat set" where
  "given es rs = {ap_find es c | c arg. (c, arg) \<in> set rs \<and> c \<noteq> 113 \<and> c \<noteq> 102}"

fun ap_values :: "ap_option list \<Rightarrow> (int \<times> u8 list option) list \<Rightarrow> ap_data \<Rightarrow> ap_data" where
  "ap_values es [] d = d"
| "ap_values es ((c, arg) # rs) d =
     (if c = 113 \<or> c = 102 then ap_values es rs d
      else let e = es ! ap_find es c
           in ap_values es rs (snd (ap_validated e (d(ap_offset e := the (ap_store e arg))))))"

lemma mark_length [simp]: "length (mark es J) = length es"
  by (simp add: mark_def)

lemma mark_nth: "j < length es \<Longrightarrow>
    mark es J ! j = (if j \<in> J then (es ! j)\<lparr>ap_flags := ap_flags (es ! j) OR AP_OPT_SEEN\<rparr> else es ! j)"
  by (simp add: mark_def)

lemma mark_empty [simp]: "mark es {} = es"
  by (simp add: mark_def map_nth)

lemma mark_find [simp]: "ap_find (mark es J) c = ap_find es c"
proof -
  have "ap_find xs c = length (takeWhile (\<lambda>n. c \<noteq> n) (map ap_short_name xs))" for xs
    by (simp add: ap_find_def takeWhile_map comp_def)
  moreover have "map ap_short_name (mark es J) = map ap_short_name es"
    by (rule nth_equalityI) (simp_all add: mark_nth)
  ultimately show ?thesis by simp
qed

lemma mark_insert:
  "i < length es \<Longrightarrow> (mark es J)[i := (mark es J ! i)\<lparr>ap_flags := ap_flags (mark es J ! i) OR AP_OPT_SEEN\<rparr>] = mark es (insert i J)"
  by (rule nth_equalityI) (auto simp: mark_nth nth_list_update or.assoc)

lemma given_Cons:
  "given es ((c, arg) # rs) = (if c = 113 \<or> c = 102 then given es rs else insert (ap_find es c) (given es rs))"
  by (auto simp: given_def)

text \<open>One round, and the whole loop, when the parser goes on.\<close>

lemma ap_step_goes_on:
  assumes "ap_step st (c, arg) = Some (Inr st')" and "as_opts st = mark es J"
  shows "as_opts st' = mark es (J \<union> given es [(c, arg)]) \<and> as_data st' = ap_values es [(c, arg)] (as_data st) \<and>
    given es [(c, arg)] \<subseteq> {..<length es}"
proof (cases "c = 113 \<or> c = 102")
  case True
  with assms show ?thesis by (auto simp: ap_step_def given_def)
next
  case False
  let ?i = "ap_find es c"
  have g: "given es [(c, arg)] = {?i}" using False by (simp add: given_Cons) (simp add: given_def)
  from assms False have i: "?i < length es" by (auto simp: ap_step_def Let_def split: if_splits)
  let ?e = "mark es J ! ?i"
  have e: "ap_offset ?e = ap_offset (es ! ?i)" "ap_store ?e arg = ap_store (es ! ?i) arg" "ap_validated ?e = ap_validated (es ! ?i)"
    using i by (simp_all add: mark_nth ap_store_def ap_validated_def fun_eq_iff)
  from assms False i obtain v where v: "ap_store ?e arg = Some v"
    "as_opts st' = (mark es J)[?i := ?e\<lparr>ap_flags := ap_flags ?e OR AP_OPT_SEEN\<rparr>]"
    "as_data st' = snd (ap_validated ?e ((as_data st)(ap_offset ?e := v)))"
    by (auto simp: ap_step_def Let_def split: if_splits bind_splits prod.splits)
  from v(1) e(2) have "the (ap_store (es ! ?i) arg) = v" by simp
  with v(2,3) i g False e(1,3) show ?thesis by (simp add: mark_insert Let_def)
qed

lemma ap_loop_goes_on:
  assumes "ap_loop st rs = Some (Inr st')" and "as_opts st = mark es J"
  shows "as_opts st' = mark es (J \<union> given es rs) \<and> as_data st' = ap_values es rs (as_data st) \<and>
    given es rs \<subseteq> {..<length es}"
  using assms
proof (induction rs arbitrary: st J)
  case Nil
  then show ?case by (simp add: given_def)
next
  case (Cons r rs)
  obtain c arg where r: "r = (c, arg)" by (cases r)
  from Cons.prems(1) obtain st1 where st1: "ap_step st (c, arg) = Some (Inr st1)" "ap_loop st1 rs = Some (Inr st')"
    by (auto simp: r split: bind_splits sum.splits)
  note one = ap_step_goes_on [OF st1(1) Cons.prems(2)]
  from Cons.IH [OF st1(2), of "J \<union> given es [(c, arg)]"] one have
    "as_opts st' = mark es (J \<union> given es [(c, arg)] \<union> given es rs)"
    "as_data st' = ap_values es rs (ap_values es [(c, arg)] (as_data st))" "given es rs \<subseteq> {..<length es}" by simp_all
  moreover have "given es [(c, arg)] \<union> given es rs = given es (r # rs)" by (auto simp: given_def r)
  ultimately show ?case using one by (auto simp: r Un_assoc Let_def)
qed

lemma ap_dispatch_runs:
  "ap_dispatch st pid argv optind k es = Some (ApRun i args d) \<Longrightarrow>
     k \<le> i \<and> i - k < length es \<and> is_cmd (es ! (i - k)) \<and> optind < length argv \<and>
     ap_long_name (es ! (i - k)) = argv ! optind \<and> args = drop (optind + 1) argv \<and> d = as_data st \<and>
     (\<forall>j < i - k. if is_cmd (es ! j) then ap_long_name (es ! j) \<noteq> argv ! optind else \<not> missing (es ! j))"
proof (induction es arbitrary: k)
  case (Cons e es)
  show ?case
  proof (cases "is_cmd e \<and> optind < length argv \<and> ap_long_name e = argv ! optind")
    case True
    with Cons.prems show ?thesis by (auto split: if_splits)
  next
    case False
    with Cons.prems have "ap_dispatch st pid argv optind (Suc k) es = Some (ApRun i args d)"
      "if is_cmd e then \<not> (optind < length argv \<and> ap_long_name e = argv ! optind) else \<not> missing e"
      by (auto split: if_splits)
    moreover from Cons.IH [OF this(1)] have "i - k = Suc (i - Suc k)" by linarith
    ultimately show ?thesis using Cons.IH [of "Suc k"] by (auto simp: All_less_Suc2)
  qed
qed simp

lemma ap_loop_stops: "ap_loop st rs = Some (Inl out) \<Longrightarrow> out \<noteq> ApRun i args d"
proof (induction rs arbitrary: st)
  case (Cons r rs)
  then show ?case
    by (cases r) (auto simp: ap_step_def Let_def split: bind_splits sum.splits if_splits prod.splits)
qed simp

text \<open>
  C7.  When a command is run it is the first of the table with the name given after the options; every
  mandatory option that stands before it in the table was given; its handler gets the arguments
  behind the name, in the array as \<open>getopt_long\<close> leaves it, and the object with the value of each option
  given, stored and validated in turn, so the last one counts where an option was repeated.
\<close>

theorem ap_parse_runs_command:
  assumes tables: "ap_getopt_tables es = Some (opts, ostr)" and getopt: "getopt opts ostr argv = (rs, argv', optind)"
    and run: "ap_parse getopt mem pid argv es data = Some (ApRun i args d)"
    and new: "\<forall>e \<in> set es. ap_flags e AND AP_OPT_SEEN = 0"
  shows "i < length es \<and> is_cmd (es ! i) \<and> optind < length argv' \<and> ap_long_name (es ! i) = argv' ! optind \<and>
    (\<forall>j < i. is_cmd (es ! j) \<longrightarrow> ap_long_name (es ! j) \<noteq> argv' ! optind) \<and>
    (\<forall>j < i. \<not> is_cmd (es ! j) \<and> ap_flags (es ! j) AND AP_OPT_REQUIRED \<noteq> 0 \<longrightarrow> j \<in> given es rs) \<and>
    args = drop (optind + 1) argv' \<and> d = ap_values es rs data"
proof -
  let ?st = "\<lparr> as_opts = es, as_data = data, as_fork = False, as_quiet = False, as_mem = tl mem \<rparr>"
  from run tables getopt obtain st where st: "ap_loop ?st rs = Some (Inr st)"
    "ap_dispatch st pid argv' optind 0 (as_opts st) = Some (ApRun i args d)"
    by (auto simp: ap_parse_def dest: ap_loop_stops split: bind_splits sum.splits option.splits if_splits)
  from ap_loop_goes_on [OF st(1), of es "{}"] have l: "as_opts st = mark es (given es rs)" "as_data st = ap_values es rs data"
    by simp_all
  note disp = ap_dispatch_runs [OF st(2) [unfolded l(1)], unfolded diff_zero l(2) mark_length]
  then have r: "i < length es" "is_cmd (mark es (given es rs) ! i)" "optind < length argv'"
    "ap_long_name (mark es (given es rs) ! i) = argv' ! optind" "args = drop (optind + 1) argv'" "d = ap_values es rs data"
    by blast+
  have before: "if is_cmd (mark es (given es rs) ! j) then ap_long_name (mark es (given es rs) ! j) \<noteq> argv' ! optind
      else \<not> missing (mark es (given es rs) ! j)" if "j < i" for j
    using disp that by blast
  have m: "is_cmd (mark es J ! j) = is_cmd (es ! j)" "ap_long_name (mark es J ! j) = ap_long_name (es ! j)" if "j < length es" for j J
    using that by (simp_all add: mark_nth is_cmd_def)
  have "ap_long_name (es ! j) \<noteq> argv' ! optind" if "j < i" "is_cmd (es ! j)" for j
    using before [OF that(1)] m [of j] r(1) that by simp
  moreover have "j \<in> given es rs" if "j < i" "\<not> is_cmd (es ! j)" "ap_flags (es ! j) AND AP_OPT_REQUIRED \<noteq> 0" for j
  proof (rule ccontr)
    assume "j \<notin> given es rs"
    moreover have "ap_flags (es ! j) AND AP_OPT_SEEN = 0" using new r(1) that(1) by simp
    ultimately have "missing (mark es (given es rs) ! j)" using that r(1) by (simp add: mark_nth missing_def)
    with before [OF that(1)] m [of j] r(1) that show False by simp
  qed
  ultimately show ?thesis using r m [of i] by simp
qed

text \<open>
  Without a command on the command line, a table that has commands makes the error message print a
  NULL string.
\<close>

lemma ap_parse_no_command:
  assumes "ap_getopt_tables es = Some (opts, ostr)" and "getopt opts ostr argv = ([], argv, length argv)" and "take 1 mem = [True]"
    and "\<forall>e \<in> set es. \<not> missing e" and "e \<in> set es" "is_cmd e"
  shows "ap_parse getopt mem pid argv es data = None"
proof -
  have "ap_dispatch st pid argv (length argv) i fs = None" if "\<forall>e \<in> set fs. \<not> missing e" for st i fs
    using that by (induction fs arbitrary: i) auto
  with assms show ?thesis by (auto simp: ap_parse_def)
qed

text \<open>
  A mandatory option that stands behind the command in the table is not asked for: the command runs
  without it.
\<close>

definition late_table :: "ap_option list" where
  "late_table =
     [\<lparr> ap_short_name = 110, ap_long_name = ascii ''number'', ap_type = AP_TYPE_INT, ap_offset = 8, ap_flags = 1, ap_validator = None \<rparr>,
      \<lparr> ap_short_name = - 1, ap_long_name = ascii ''run'', ap_type = AP_TYPE_CMD, ap_offset = 0, ap_flags = 0, ap_validator = None \<rparr>,
      \<lparr> ap_short_name = 109, ap_long_name = ascii ''must'', ap_type = AP_TYPE_BOOL, ap_offset = 0, ap_flags = 1, ap_validator = None \<rparr>]"

text \<open>What \<open>getopt_long\<close> makes of \<open>prog run -n 5 x\<close>: the option goes before the command.\<close>

definition some_getopt ::
    "long_option list \<Rightarrow> u8 list \<Rightarrow> u8 list list \<Rightarrow> (int \<times> u8 list option) list \<times> u8 list list \<times> nat" where
  "some_getopt opts ostr argv = ([(110, Some (ascii ''5''))], map ascii [''prog'', ''-n'', ''5'', ''run'', ''x''], 3)"

definition some_argv :: "u8 list list" where
  "some_argv = map ascii [''prog'', ''run'', ''-n'', ''5'', ''x'']"

lemma late_table_run:
  "ap_parse some_getopt [True] 0 some_argv late_table (\<lambda>_. VInt 0) = Some (ApRun 1 [ascii ''x''] ((\<lambda>_. VInt 0)(8 := VInt 5)))"
  by (simp add: ap_parse_def some_getopt_def some_argv_def late_table_def ap_getopt_tables_def is_cmd_def no_arg_def
      ap_step_def ap_validated_def ap_find_def ap_store_def atoi_def missing_def AP_OPT_REQUIRED_def AP_OPT_SEEN_def
      ascii_def Let_def isspace_def isdigit_def int_ok_def INT_MAX_def)

lemma required_behind_command_ignored:
  "\<exists>e \<in> set late_table. ap_flags e AND AP_OPT_REQUIRED \<noteq> 0 \<and> e \<notin> (!) late_table ` given late_table (fst (some_getopt [] [] []))"
  by (simp add: late_table_def some_getopt_def given_Cons)
    (simp add: given_def AP_OPT_REQUIRED_def ap_find_def ascii_def)

theorem ap_parse_runs_command_witness:
  "\<exists>d. ap_parse some_getopt [True] 0 some_argv late_table (\<lambda>_. VInt 0) = Some (ApRun 1 [ascii ''x''] d) \<and>
     0 \<in> given late_table [(110, Some (ascii ''5''))] \<and> d = ap_values late_table [(110, Some (ascii ''5''))] (\<lambda>_. VInt 0)"
proof -
  obtain opts ostr where t: "ap_getopt_tables late_table = Some (opts, ostr)"
    by (simp add: late_table_def ap_getopt_tables_def is_cmd_def no_arg_def)
  have n: "\<forall>e \<in> set late_table. ap_flags e AND AP_OPT_SEEN = 0" by (simp add: late_table_def AP_OPT_SEEN_def)
  have z: "\<not> is_cmd (late_table ! 0)" "ap_flags (late_table ! 0) AND AP_OPT_REQUIRED \<noteq> 0"
    by (simp_all add: late_table_def is_cmd_def AP_OPT_REQUIRED_def)
  from ap_parse_runs_command [OF t some_getopt_def late_table_run n] z late_table_run show ?thesis by simp
qed

end
