(* ===== verification/ArgHelp.thy ===== *)
theory ArgHelp
  imports ArgParser Logger
begin

text \<open>
  The help text of the command line parser (\<open>src/arg_parser.c\<close>).  \<open>names\<close> gives the argument name and
  the help of an entry, both pointers that may be null; printing a null pointer is undefined.
\<close>

declare decimal.simps [simp del]

record ap_app =
  ap_app_name :: "u8 list option"
  ap_app_desc :: "u8 list option"

definition ap_init :: "u8 list option \<Rightarrow> u8 list option \<Rightarrow> ap_app" where
  "ap_init app_name app_desc = \<lparr> ap_app_name = app_name, ap_app_desc = app_desc \<rparr>"

definition AP_HELP_SPACING :: nat where
  "AP_HELP_SPACING = 25"

type_synonym ap_names = "ap_option \<Rightarrow> u8 list option \<times> u8 list option"

text \<open>One line per option; \<open>opt_str\<close> has room for 63 characters.\<close>

definition option_line :: "ap_names \<Rightarrow> ap_option \<Rightarrow> u8 list option" where
  "option_line names e = do {
     opt_str \<leftarrow> (if no_arg e then Some (ap_long_name e)
                else map_option (\<lambda>n. ap_long_name e @ ascii '' <'' @ n @ ascii ''>'') (fst (names e)));
     help \<leftarrow> snd (names e);
     Some (ascii ''  -'' @ [word_of_int (ap_short_name e)] @ ascii '', --'' @ pad_right AP_HELP_SPACING (take 63 opt_str) @
       ascii '' '' @ help @ [10])
   }"

definition command_line :: "ap_names \<Rightarrow> ap_option \<Rightarrow> u8 list option" where
  "command_line names e = do {
     help \<leftarrow> snd (names e);
     Some (ascii ''  '' @ pad_right AP_HELP_SPACING (ap_long_name e) @ ascii ''       '' @ help @ [10])
   }"

text \<open>The two loops over the table, and the text of \<open>ap_print_help()\<close> before the process exits.\<close>

fun help_options :: "ap_names \<Rightarrow> ap_option list \<Rightarrow> u8 list option" where
  "help_options names [] = Some []"
| "help_options names (e # es) =
     (if is_cmd e then help_options names es
      else do { l \<leftarrow> option_line names e; ls \<leftarrow> help_options names es; Some (l @ ls) })"

fun help_commands :: "ap_names \<Rightarrow> nat \<Rightarrow> ap_option list \<Rightarrow> u8 list option" where
  "help_commands names count1 [] = Some []"
| "help_commands names count1 (e # es) =
     (if \<not> is_cmd e then help_commands names count1 es
      else do {
        l \<leftarrow> command_line names e;
        ls \<leftarrow> help_commands names (count1 + 1) es;
        Some ((if count1 = 0 then [10] @ ascii ''COMMANDS:'' @ [10] else []) @ l @ ls)
      })"

definition fixed_option :: "string \<Rightarrow> string \<Rightarrow> string \<Rightarrow> u8 list" where
  "fixed_option c name help = ascii ''  -'' @ ascii c @ ascii '', --'' @ pad_right AP_HELP_SPACING (ascii name) @
     ascii '' '' @ ascii help @ [10]"

definition ap_print_help :: "ap_app \<Rightarrow> ap_names \<Rightarrow> ap_option list \<Rightarrow> int \<Rightarrow> u8 list option" where
  "ap_print_help app names ap_opts exit_code = do {
     intro \<leftarrow> (if ap_app_name app \<noteq> None \<and> exit_code = 0
              then do { n \<leftarrow> ap_app_name app; d \<leftarrow> ap_app_desc app; Some (n @ ascii '' - '' @ d @ [10]) }
              else Some []);
     n \<leftarrow> ap_app_name app;
     options \<leftarrow> help_options names ap_opts;
     commands \<leftarrow> help_commands names 0 ap_opts;
     Some (intro @ [10] @ ascii ''Usage: '' @ n @ ascii '' [OPTIONS...] <COMMAND> [CMD_ARGS[0] ...]'' @ [10, 10] @
       ascii ''OPTIONS:'' @ [10] @ options @ fixed_option ''f'' ''fork'' ''Fork to background'' @
       fixed_option ''q'' ''quite'' ''Prevent writing to tty'' @ fixed_option ''h'' ''help'' ''Print this help message'' @ commands)
   }"

text \<open>
  The help lists every option of the table, then the three built in, then every command under one
  heading if there is any, each in the order of the table.
\<close>

lemma help_options_lines:
  assumes "\<forall>e \<in> set es. \<not> is_cmd e \<longrightarrow> option_line names e = Some (line e)"
  shows "help_options names es = Some (concat (map line (filter (\<lambda>e. \<not> is_cmd e) es)))"
  using assms by (induction es) auto

lemma help_commands_lines:
  assumes "\<forall>e \<in> set es. is_cmd e \<longrightarrow> command_line names e = Some (line e)"
  shows "help_commands names n es =
    Some ((if n = 0 \<and> (\<exists>e \<in> set es. is_cmd e) then [10] @ ascii ''COMMANDS:'' @ [10] else []) @
      concat (map line (filter is_cmd es)))"
  using assms by (induction es arbitrary: n) auto

lemma ap_print_help_lists:
  assumes app: "ap_app_name app = Some n" "ap_app_desc app = Some d"
    and "\<forall>e \<in> set es. \<not> is_cmd e \<longrightarrow> option_line names e = Some (line e)"
    and "\<forall>e \<in> set es. is_cmd e \<longrightarrow> command_line names e = Some (line e)"
  shows "\<exists>intro. ap_print_help app names es exit_code =
    Some (intro @ concat (map line (filter (\<lambda>e. \<not> is_cmd e) es)) @ fixed_option ''f'' ''fork'' ''Fork to background'' @
      fixed_option ''q'' ''quite'' ''Prevent writing to tty'' @ fixed_option ''h'' ''help'' ''Print this help message'' @
      (if \<exists>e \<in> set es. is_cmd e then [10] @ ascii ''COMMANDS:'' @ [10] else []) @ concat (map line (filter is_cmd es)))"
  using help_options_lines [OF assms(3)] help_commands_lines [OF assms(4), of 0]
  by (cases "exit_code = 0") (simp_all add: ap_print_help_def app)

text \<open>Without \<open>ap_init()\<close> the help prints a null pointer.\<close>

lemma ap_print_help_needs_init: "ap_print_help (ap_init None None) names es exit_code = None"
  by (simp add: ap_print_help_def ap_init_def)

end
