(* ===== verification/ArgTable.thy ===== *)
theory ArgTable
  imports ArgHelp
begin

text \<open>
  Writing an option table with the macros of \<open>include/utils/arg_parser.h\<close>.  An entry is the list of its
  initialisers, which C assigns to the members of \<open>struct ap_option\<close> by their position; members
  without one are zero.
\<close>

datatype ini =
    IChar int
  | IPtr "u8 list"
  | INull
  | IType ap_type
  | INum nat
  | IValidator "ap_data \<Rightarrow> int \<times> ap_data"
  | IHandler nat

definition AP_OPT_NOFLAG :: nat where "AP_OPT_NOFLAG = 0"

definition AP_STORE_INT :: "nat \<Rightarrow> ini list" where
  "AP_STORE_INT offset_m = [IType AP_TYPE_INT, INum offset_m]"

definition AP_STORE_STR :: "nat \<Rightarrow> ini list" where
  "AP_STORE_STR offset_m = [IType AP_TYPE_STR, INum offset_m]"

definition AP_STORE_BOOL :: "nat \<Rightarrow> ini list" where
  "AP_STORE_BOOL offset_m = [IType AP_TYPE_BOOL, INum offset_m]"

definition AP_CMD :: "u8 list \<Rightarrow> nat \<Rightarrow> ini list" where
  "AP_CMD x y = [IChar (- 1), IPtr x, INull, IType AP_TYPE_CMD, INum 0, INum 0, INull, IHandler y]"

definition AP_ARG_BOOL :: "int \<Rightarrow> u8 list \<Rightarrow> nat \<Rightarrow> u8 list \<Rightarrow> ini list" where
  "AP_ARG_BOOL s l h m = [IChar s, IPtr l, INull, IType AP_TYPE_BOOL_HANDLER, INum 0, INum 0, INull, INull, IPtr m, IHandler h]"

definition AP_SENTINEL :: "ini list" where
  "AP_SENTINEL = [IChar 0, INull, INull, IType AP_TYPE_SENTINEL, INum 0, INum 0, INull, INull, INull, INull]"

definition AP_ARG :: "int \<Rightarrow> u8 list \<Rightarrow> u8 list \<Rightarrow> ini list" where
  "AP_ARG s l n = [IChar s, IPtr l, IPtr n]"

definition AP_VALIDATOR :: "(ap_data \<Rightarrow> int \<times> ap_data) \<Rightarrow> ini list" where
  "AP_VALIDATOR x = [IValidator x, INull]"

definition AP_FLAGS :: "nat \<Rightarrow> ini list" where
  "AP_FLAGS x = [INum x]"

definition AP_HELP :: "u8 list \<Rightarrow> ini list" where
  "AP_HELP x = [IPtr x, INull]"

text \<open>
  An entry with all its members, in the order of the struct; a member gets only what has its type, and
  \<open>None\<close> is an entry that does not compile.
\<close>

record full_option =
  fo_option :: ap_option
  fo_opt_name :: "u8 list option"
  fo_handler :: "nat option"
  fo_help :: "u8 list option"
  fo_bool_handler :: "nat option"

definition ini_ptr :: "ini \<Rightarrow> u8 list option option" where
  "ini_ptr i = (case i of IPtr s \<Rightarrow> Some (Some s) | INull \<Rightarrow> Some None | _ \<Rightarrow> None)"

definition ini_validator :: "ini \<Rightarrow> (ap_data \<Rightarrow> int \<times> ap_data) option option" where
  "ini_validator i = (case i of IValidator f \<Rightarrow> Some (Some f) | INull \<Rightarrow> Some None | _ \<Rightarrow> None)"

definition ini_handler :: "ini \<Rightarrow> nat option option" where
  "ini_handler i = (case i of IHandler f \<Rightarrow> Some (Some f) | INull \<Rightarrow> Some None | _ \<Rightarrow> None)"

definition ini_num :: "ini \<Rightarrow> nat option" where
  "ini_num i = (case i of INum n \<Rightarrow> Some n | _ \<Rightarrow> None)"

definition initialise :: "ini list \<Rightarrow> full_option option" where
  "initialise is = (case is @ drop (length is) [IChar 0, INull, INull, IType AP_TYPE_CMD, INum 0, INum 0, INull, INull, INull, INull] of
       [IChar s, l, n, IType t, off, fl, v, h, hlp, bh] \<Rightarrow> do {
         l \<leftarrow> ini_ptr l; n \<leftarrow> ini_ptr n; off \<leftarrow> ini_num off; fl \<leftarrow> ini_num fl;
         v \<leftarrow> ini_validator v; h \<leftarrow> ini_handler h; hlp \<leftarrow> ini_ptr hlp; bh \<leftarrow> ini_handler bh;
         Some \<lparr> fo_option = \<lparr> ap_short_name = s, ap_long_name = (case l of None \<Rightarrow> [] | Some l \<Rightarrow> l), ap_type = t,
                  ap_offset = off, ap_flags = of_nat fl, ap_validator = v \<rparr>,
                fo_opt_name = n, fo_handler = h, fo_help = hlp, fo_bool_handler = bh \<rparr>
       }
     | _ \<Rightarrow> None)"

lemmas ap_macros = AP_STORE_INT_def AP_STORE_STR_def AP_STORE_BOOL_def AP_CMD_def AP_ARG_BOOL_def AP_SENTINEL_def
  AP_ARG_def AP_VALIDATOR_def AP_FLAGS_def AP_HELP_def

lemmas initialise_simps = initialise_def ini_ptr_def ini_validator_def ini_handler_def ini_num_def

text \<open>The macros put everything where it belongs.\<close>

lemma AP_ARG_entry:
  assumes "store \<in> {AP_STORE_INT, AP_STORE_STR, AP_STORE_BOOL}"
  shows "initialise (AP_ARG s l n @ store off @ AP_FLAGS fl @ AP_VALIDATOR f @ AP_HELP h) =
    Some \<lparr> fo_option = \<lparr> ap_short_name = s, ap_long_name = l,
        ap_type = (if store = AP_STORE_INT then AP_TYPE_INT else if store = AP_STORE_STR then AP_TYPE_STR else AP_TYPE_BOOL),
        ap_offset = off, ap_flags = of_nat fl, ap_validator = Some f \<rparr>,
      fo_opt_name = Some n, fo_handler = None, fo_help = Some h, fo_bool_handler = None \<rparr>"
proof -
  have "AP_STORE_INT \<noteq> AP_STORE_STR" "AP_STORE_INT \<noteq> AP_STORE_BOOL" "AP_STORE_STR \<noteq> AP_STORE_BOOL"
    by (auto simp: fun_eq_iff ap_macros)
  with assms show ?thesis by (auto simp: ap_macros initialise_simps)
qed

lemma AP_CMD_entry:
  "initialise (AP_CMD x y @ AP_HELP h) =
     Some \<lparr> fo_option = \<lparr> ap_short_name = - 1, ap_long_name = x, ap_type = AP_TYPE_CMD, ap_offset = 0, ap_flags = 0,
         ap_validator = None \<rparr>,
       fo_opt_name = None, fo_handler = Some y, fo_help = Some h, fo_bool_handler = None \<rparr>"
  by (simp add: ap_macros initialise_simps)

lemma AP_ARG_BOOL_entry:
  "initialise (AP_ARG_BOOL s l h m) =
     Some \<lparr> fo_option = \<lparr> ap_short_name = s, ap_long_name = l, ap_type = AP_TYPE_BOOL_HANDLER, ap_offset = 0, ap_flags = 0,
         ap_validator = None \<rparr>,
       fo_opt_name = None, fo_handler = None, fo_help = Some m, fo_bool_handler = Some h \<rparr>"
  by (simp add: ap_macros initialise_simps)

text \<open>
  Without \<open>AP_VALIDATOR\<close> the help text lands in the validator: the types do not match.  The
  members without an initialiser have to be written out.
\<close>

lemma AP_ARG_needs_validator: "initialise (AP_ARG s l n @ AP_STORE_INT off @ AP_FLAGS fl @ AP_HELP h) = None"
  by (simp add: ap_macros initialise_simps)

text \<open>
  A table of such entries ends at its sentinel: what \<open>ap_parse()\<close> goes through is what was written before it.
\<close>

fun table_of :: "full_option list \<Rightarrow> full_option list" where
  "table_of [] = []"
| "table_of (e # es) = (if ap_short_name (fo_option e) = 0 then [] else e # table_of es)"

lemma table_of_sentinel:
  assumes "\<forall>e \<in> set es. ap_short_name (fo_option e) \<noteq> 0" and "initialise AP_SENTINEL = Some z"
  shows "table_of (es @ z # rest) = es"
proof -
  have "ap_short_name (fo_option z) = 0" using assms(2) by (auto simp: ap_macros initialise_simps)
  with assms(1) show ?thesis by (induction es) auto
qed

text \<open>
  An option written with \<open>AP_ARG\<close> has all that its line of the help needs.
\<close>

lemma AP_ARG_helps:
  assumes "initialise (AP_ARG s l n @ store off @ AP_FLAGS fl @ AP_VALIDATOR f @ AP_HELP h) = Some o1"
    and "store \<in> {AP_STORE_INT, AP_STORE_STR, AP_STORE_BOOL}"
  shows "option_line (\<lambda>_. (fo_opt_name o1, fo_help o1)) (fo_option o1) \<noteq> None"
  using assms(1) unfolding AP_ARG_entry [OF assms(2)] by (auto simp: option_line_def)

end
