(* ===== verification/SysUtils.thy ===== *)
theory SysUtils
  imports Logger "HOL-Library.Signed_Division"
begin

text \<open>
  Random numbers, dumps and clocks (\<open>src/utils.c\<close>, \<open>src/random.c\<close>).  What \<open>rand\<close>, the kernel's random
  sources and the clock give are parameters.
\<close>

declare decimal.simps [simp del]

subsection \<open>Random numbers in a range\<close>

text \<open>The loop over the values of \<open>rand()\<close>; \<open>None\<close> while none of them ends it.\<close>

fun randint_loop :: "int \<Rightarrow> int \<Rightarrow> int list \<Rightarrow> (int \<times> int list) option" where
  "randint_loop divisor limit [] = None"
| "randint_loop divisor limit (v # vs) =
     (let r = v sdiv divisor in if r > limit then randint_loop divisor limit vs else Some (r, vs))"

text \<open>Outside, \<open>None\<close> is undefined behaviour: an overflow of \<open>limit + 1\<close>, or a division by zero.\<close>

definition randint :: "int \<Rightarrow> int \<Rightarrow> int list \<Rightarrow> (int \<times> int list) option option" where
  "randint RAND_MAX limit draws =
     (if \<not> int_ok (limit + 1) \<or> limit + 1 = 0 then None
      else let divisor = RAND_MAX sdiv (limit + 1)
        in if divisor = 0 \<and> draws \<noteq> [] then None else Some (randint_loop divisor limit draws))"

lemma le_div_iff: "0 < d \<Longrightarrow> k \<le> v div d \<longleftrightarrow> k * d \<le> v" for d :: int
proof
  assume "0 < d" "k \<le> v div d"
  then have "k * d \<le> v div d * d" by (simp add: mult_right_mono)
  also have "\<dots> \<le> v" using \<open>0 < d\<close> div_mult_mod_eq [of v d] pos_mod_sign [of d v] by linarith
  finally show "k * d \<le> v" .
next
  assume "0 < d" "k * d \<le> v"
  then show "k \<le> v div d" using zdiv_mono1 [of "k * d" v d] by simp
qed

lemma randint_loop_draws:
  assumes "0 < d" and "0 \<le> limit" and "set draws \<subseteq> {0..M}"
  shows "randint_loop d limit draws =
    (case dropWhile (\<lambda>v. (limit + 1) * d \<le> v) draws of [] \<Rightarrow> None | v # rest \<Rightarrow> Some (v div d, rest))"
  using assms(3)
proof (induction draws)
  case (Cons v draws)
  have "limit < v div d \<longleftrightarrow> (limit + 1) * d \<le> v"
    using le_div_iff [OF assms(1), of "limit + 1" v] by linarith
  then show ?case using Cons assms(1) by (simp add: sdiv_nonneg)
qed simp

text \<open>
  C21.  For every limit below \<open>RAND_MAX\<close>, \<open>randint()\<close> takes the first draw below a bound that is more than
  half of the draws, and every result from 0 to the limit comes from equally many of those draws.
\<close>

theorem randint_uniform:
  assumes "0 \<le> limit" and "limit < RAND_MAX" and "RAND_MAX \<le> INT_MAX"
  defines "d \<equiv> RAND_MAX div (limit + 1)"
  shows "0 < d \<and> RAND_MAX < 2 * ((limit + 1) * d) \<and>
    (set draws \<subseteq> {0..RAND_MAX} \<longrightarrow>
       randint RAND_MAX limit draws =
         Some (case dropWhile (\<lambda>v. (limit + 1) * d \<le> v) draws of [] \<Rightarrow> None | v # rest \<Rightarrow> Some (v div d, rest))) \<and>
    (\<forall>r \<in> {0..limit}. {v \<in> {0..RAND_MAX}. v < (limit + 1) * d \<and> v div d = r} = {r * d ..< r * d + d})"
proof (intro conjI impI ballI)
  have p: "0 < limit + 1" using assms(1) by simp
  have m: "(limit + 1) * d \<le> RAND_MAX" "RAND_MAX < (limit + 1) * d + (limit + 1)"
    using mult_div_mod_eq [of "limit + 1" RAND_MAX] pos_mod_sign [OF p, of RAND_MAX] pos_mod_bound [OF p, of RAND_MAX]
    unfolding d_def by linarith+
  show d: "0 < d" using assms by (simp add: d_def le_div_iff [where k = 1, simplified] pos_imp_zdiv_pos_iff)
  have "limit + 1 \<le> (limit + 1) * d" using mult_left_mono [of 1 d "limit + 1"] d assms(1) by simp
  then show "RAND_MAX < 2 * ((limit + 1) * d)" using m unfolding mult_2 by linarith
  show "randint RAND_MAX limit draws =
      Some (case dropWhile (\<lambda>v. (limit + 1) * d \<le> v) draws of [] \<Rightarrow> None | v # rest \<Rightarrow> Some (v div d, rest))"
    if "set draws \<subseteq> {0..RAND_MAX}"
    using randint_loop_draws [OF d assms(1) that] assms(1,2,3) d
    by (simp add: randint_def int_ok_def Let_def INT_MAX_def d_def [symmetric])
  show "{v \<in> {0..RAND_MAX}. v < (limit + 1) * d \<and> v div d = r} = {r * d ..< r * d + d}" if r: "r \<in> {0..limit}" for r
  proof -
    have e: "v div d = r \<longleftrightarrow> r * d \<le> v \<and> v < r * d + d" for v
      using le_div_iff [OF d, of r v] le_div_iff [OF d, of "r + 1" v] by (auto simp: algebra_simps)
    have "0 \<le> r * d" "r * d + d \<le> (limit + 1) * d"
      using r d mult_right_mono [of "r + 1" "limit + 1" d] by (auto simp: algebra_simps)
    then show ?thesis using m(1) by (auto simp: e)
  qed
qed

theorem randint_uniform_witness:
  "0 < (7 :: int) div (2 + 1) \<and> randint 7 2 [6, 3] = Some (Some (1, []))"
  using randint_uniform [of 2 7 "[6, 3]"] by (simp add: INT_MAX_def)

subsection \<open>Random bytes\<close>

text \<open>
  What the kernel's sources give: \<open>getentropy\<close> and \<open>getrandom\<close> the bytes asked for if they work, the
  descriptor of \<open>/dev/urandom\<close>, and the results of reading it: bytes, or nothing and the error left
  in \<open>errno\<close> (0 at the end of the file).
\<close>

datatype rnd_read = RGot "u8 list" | RNone int

record rnd_kernel =
  rk_getentropy :: "nat \<Rightarrow> u8 list option"
  rk_getrandom :: "nat \<Rightarrow> u8 list option"
  rk_fd :: int
  rk_reads :: "rnd_read list"

definition EOVERFLOW :: int where "EOVERFLOW = 75"
definition EIO :: int where "EIO = 5"

text \<open>The loop: the buffer, how much of it is filled, and the error.  Without a further result, it blocks.\<close>

fun urandom_loop :: "rnd_read list \<Rightarrow> u8 list \<Rightarrow> nat \<Rightarrow> nat \<Rightarrow> (u8 list \<times> nat \<times> int) option" where
  "urandom_loop reads out i len =
     (if len \<le> i then Some (out, i, 0)
      else case reads of
          [] \<Rightarrow> None
        | RNone err # _ \<Rightarrow> Some (out, i, if err \<noteq> 0 then err else EIO)
        | RGot bs # reads \<Rightarrow>
            let bs = take (len - i) bs
            in if bs = [] then Some (out, i, EIO)
               else do {
                 out \<leftarrow> buf_write out i bs;
                 urandom_loop reads out (i + length bs) len
               })"

text \<open>The result, the buffer, and \<open>errno\<close> where the function sets it.\<close>

definition get_random_bytes :: "rnd_kernel \<Rightarrow> u8 list \<Rightarrow> nat \<Rightarrow> (bool \<times> u8 list \<times> int option) option" where
  "get_random_bytes k out len =
     (if len > 256 then Some (False, out, Some EOVERFLOW)
      else case rk_getentropy k len of
          Some bs \<Rightarrow> map_option (\<lambda>out. (True, out, None)) (buf_write out 0 (take len bs))
        | None \<Rightarrow> (case rk_getrandom k len of
            Some bs \<Rightarrow> map_option (\<lambda>out. (True, out, None)) (buf_write out 0 (take len bs))
          | None \<Rightarrow>
              if rk_fd k < 0 then Some (False, out, None)
              else do {
                (out, i, err) \<leftarrow> urandom_loop (rk_reads k) out 0 len;
                Some (i = len, out, Some err)
              }))"

text \<open>
  When the kernel's sources keep to the length asked for, success means that every byte of the
  buffer is one they gave, and what lies behind is untouched.
\<close>

fun given :: "rnd_read list \<Rightarrow> u8 list" where
  "given [] = []"
| "given (RNone err # reads) = []"
| "given (RGot bs # reads) = bs @ given reads"

definition rnd_ok :: "rnd_kernel \<Rightarrow> bool" where
  "rnd_ok k \<longleftrightarrow> (\<forall>n bs. rk_getentropy k n = Some bs \<longrightarrow> length bs = n) \<and>
     (\<forall>n bs. rk_getrandom k n = Some bs \<longrightarrow> length bs = n)"

declare urandom_loop.simps [simp del]

lemma urandom_loop_reads:
  assumes "urandom_loop reads out i len = Some (out', j, err)" and "len \<le> length out"
    and "\<forall>bs. RGot bs \<in> set reads \<longrightarrow> 0 < length bs" and "i \<le> len"
  shows "i \<le> j \<and> j \<le> len \<and> (\<exists>bs. length bs = j - i \<and> out' = take i out @ bs @ drop j out) \<and>
    (err = 0 \<longleftrightarrow> j = len)"
  using assms
proof (induction reads out i len rule: urandom_loop.induct)
  case (1 reads out i len)
  show ?case
  proof (cases "len \<le> i")
    case True
    then show ?thesis using "1.prems" by (auto simp: urandom_loop.simps [of reads])
  next
    case less: False
    show ?thesis
    proof (cases reads)
      case Nil
      then show ?thesis using less "1.prems" by (simp add: urandom_loop.simps [of "[]"])
    next
      case (Cons r rs)
      show ?thesis
      proof (cases r)
        case (RNone e)
        then show ?thesis using less Cons "1.prems" by (auto simp: urandom_loop.simps [of "RNone e # rs"] EIO_def split: if_splits)
      next
        case (RGot bs)
        let ?bs = "take (len - i) bs"
        have "?bs \<noteq> []" using less RGot Cons "1.prems"(3) by fastforce
        then obtain o2 where o2: "buf_write out i ?bs = Some o2" "urandom_loop rs o2 (i + length ?bs) len = Some (out', j, err)"
          using less RGot Cons "1.prems"(1) by (auto simp: urandom_loop.simps [of "RGot bs # rs"] Let_def bind_eq_Some_conv)
        then have o2': "o2 = take i out @ ?bs @ drop (i + length ?bs) out"
          using less "1.prems"(2) by (auto simp: buf_write_def split: if_splits)
        then have l: "length o2 = length out" using less "1.prems"(2) by auto
        have le: "i + length ?bs \<le> len" using less by simp
        have pos: "\<forall>bs. RGot bs \<in> set rs \<longrightarrow> 0 < length bs" using "1.prems"(3) Cons by auto
        have "len \<le> length o2" using l "1.prems"(2) by simp
        from "1.IH" [OF less Cons RGot refl \<open>?bs \<noteq> []\<close> o2 this pos le]
        obtain bs' where "i + length ?bs \<le> j" "j \<le> len" "length bs' = j - (i + length ?bs)"
          "out' = take (i + length ?bs) o2 @ bs' @ drop j o2" "err = 0 \<longleftrightarrow> j = len" by blast
        moreover have "take (min (length bs) (len - i)) bs = take (len - i) bs" by (simp add: min_def)
        ultimately show ?thesis using o2' less "1.prems"(2)
          by (intro conjI exI [of _ "?bs @ bs'"]) auto
      qed
    qed
  qed
qed

lemma get_random_bytes_success:
  assumes "get_random_bytes k out len = Some (True, out', e)" and "len \<le> length out" and "rnd_ok k"
    and "\<forall>bs. RGot bs \<in> set (rk_reads k) \<longrightarrow> 0 < length bs"
  shows "len \<le> 256 \<and> (\<exists>bs. length bs = len \<and> out' = bs @ drop len out)"
proof -
  have "len \<le> 256" using assms(1) by (auto simp: get_random_bytes_def split: if_splits)
  moreover have "\<exists>bs. length bs = len \<and> out' = bs @ drop len out"
  proof (cases "rk_getentropy k len = None \<and> rk_getrandom k len = None")
    case True
    then obtain err where "urandom_loop (rk_reads k) out 0 len = Some (out', len, err)"
      using assms(1) by (auto simp: get_random_bytes_def bind_eq_Some_conv split: if_splits)
    from urandom_loop_reads [OF this assms(2,4)] show ?thesis by auto
  next
    case False
    then show ?thesis using assms
      by (auto simp: get_random_bytes_def rnd_ok_def buf_write_def split: if_splits option.splits)
  qed
  ultimately show ?thesis ..
qed

text \<open>More than 256 bytes are refused, and the buffer is left as it was.\<close>

lemma get_random_bytes_limit: "256 < len \<Longrightarrow> get_random_bytes k out len = Some (False, out, Some EOVERFLOW)"
  by (simp add: get_random_bytes_def)

subsection \<open>Hexadecimal dumps\<close>

text \<open>\<open>%02x\<close>, \<open>%04zu\<close> and the character shown for a byte.\<close>

definition hex_digit :: "u8 \<Rightarrow> u8" where
  "hex_digit n = (if n < 10 then 0x30 + n else 0x57 + n)"

definition hex02 :: "u8 \<Rightarrow> u8 list" where
  "hex02 b = [hex_digit (b div 16), hex_digit (b mod 16)]"

definition zu04 :: "nat \<Rightarrow> u8 list" where
  "zu04 n = replicate (4 - length (decimal n)) 0x30 @ decimal n"

definition shown :: "u8 \<Rightarrow> u8" where
  "shown b = (if 0x20 \<le> b \<and> b \<le> 0x7e then b else 0x2e)"

text \<open>\<open>printf(" |%16s|", str)\<close>\<close>

definition print_str :: "u8 list \<Rightarrow> u8 list" where
  "print_str str = ascii '' |'' @ pad_left 16 (takeWhile (\<lambda>c. c \<noteq> 0) str) @ ascii ''|''"

text \<open>The loop over the bytes from \<open>i\<close> on, and the end of the last row.\<close>

fun hexdump_loop :: "u8 list \<Rightarrow> nat \<Rightarrow> u8 list \<Rightarrow> u8 list \<times> nat \<times> u8 list" where
  "hexdump_loop [] i str = ([], i, str)"
| "hexdump_loop (b # data) i str =
     (let (out, j, str') = hexdump_loop data (i + 1) (str[i mod 16 := shown b])
      in ((if i mod 16 = 0 then print_str str @ [10] @ ascii ''    '' @ zu04 i @ ascii ''  ''
           else if i mod 8 = 0 then ascii '' '' else []) @ hex02 b @ ascii '' '' @ out, j, str'))"

definition hexdump_end :: "nat \<Rightarrow> u8 list \<Rightarrow> u8 list" where
  "hexdump_end i str =
     (let i = i mod 16
      in if i \<noteq> 0
         then (if i \<le> 8 then ascii '' '' else []) @ concat (replicate (16 - i) (ascii ''   '')) @
              print_str (take i str @ replicate (16 - i) 0x20 @ drop 16 str)
         else print_str str)"

text \<open>
  The text printed for \<open>len\<close> bytes at \<open>p\<close> with the heading \<open>head\<close>.  The first byte is always read, so
  an empty object is undefined; when \<open>len\<close> is 0 the byte is printed.
\<close>

definition hexdump :: "u8 list \<Rightarrow> nat \<Rightarrow> u8 list \<Rightarrow> u8 list option" where
  "hexdump p len head = do {
     data0 \<leftarrow> get_at p 0;
     data \<leftarrow> (if len = 0 then Some [] else buf_read p 1 (len - 1));
     let (out, i, str) = hexdump_loop data 1 ((replicate 17 0)[0 := shown data0]);
     Some (head @ ascii '' ['' @ decimal len @ ascii ''] =>'' @ [10] @ ascii ''    0000  '' @ hex02 data0 @ ascii '' '' @
       out @ hexdump_end i str @ [10])
   }"

text \<open>
  The layout: rows of up to sixteen bytes, the offset before them, a gap after the eighth, and the
  characters behind them, with blanks for the bytes the last row lacks.
\<close>

definition gap :: "nat \<Rightarrow> u8 list" where
  "gap j = (if j = 8 then ascii '' '' else [])"

fun cells :: "nat \<Rightarrow> u8 list \<Rightarrow> u8 list" where
  "cells j [] = []"
| "cells j (b # bs) = gap j @ hex02 b @ ascii '' '' @ cells (j + 1) bs"

fun blanks :: "nat \<Rightarrow> nat \<Rightarrow> u8 list" where
  "blanks j 0 = []"
| "blanks j (Suc n) = gap j @ ascii ''   '' @ blanks (j + 1) n"

definition dump_row :: "nat \<Rightarrow> u8 list \<Rightarrow> u8 list" where
  "dump_row off bs = [10] @ ascii ''    '' @ zu04 off @ ascii ''  '' @ cells 0 bs @ blanks (length bs) (16 - length bs) @
     ascii '' |'' @ map shown bs @ replicate (16 - length bs) 0x20 @ ascii ''|''"

function dump_rows :: "nat \<Rightarrow> u8 list \<Rightarrow> u8 list" where
  "dump_rows off bs =
     (if length bs \<le> 16 then dump_row off bs else dump_row off (take 16 bs) @ dump_rows (off + 16) (drop 16 bs))"
  by pat_completeness auto
termination by (relation "measure (\<lambda>(off, bs). length bs)") auto

declare dump_rows.simps [simp del]

lemma cells_snoc: "cells j (bs @ [b]) = cells j bs @ gap (j + length bs) @ hex02 b @ ascii '' ''"
  by (induction bs arbitrary: j) auto

lemma blanks_end:
  "0 < j \<Longrightarrow> j \<le> 16 \<Longrightarrow> blanks j (16 - j) = (if j \<le> 8 then ascii '' '' else []) @ concat (replicate (16 - j) (ascii ''   ''))"
proof (induction "16 - j" arbitrary: j)
  case (Suc n)
  then have n: "16 - j = Suc n" "16 - Suc j = n" by auto
  show ?case
  proof (cases "j = 8")
    case True
    then show ?thesis by (simp add: eval_nat_numeral gap_def)
  next
    case False
    have "blanks (Suc j) (16 - Suc j) = (if Suc j \<le> 8 then ascii '' '' else []) @ concat (replicate (16 - Suc j) (ascii ''   ''))"
      by (rule Suc.hyps(1)) (use n in auto)
    moreover have "ascii ''   '' @ ascii '' '' = ascii '' '' @ ascii ''   ''" by (simp add: ascii_def)
    ultimately show ?thesis using False n by (simp add: gap_def)
  qed
qed simp

lemma shown_nonzero [simp]: "shown b \<noteq> 0"
  by (auto simp: shown_def)

lemma shown_image [simp]: "0 \<notin> shown ` A"
  by (auto dest: sym [of 0])

lemma print_str_full:
  assumes "length p = 16" and "0 \<notin> set p"
  shows "print_str (p @ [0]) = ascii '' |'' @ p @ ascii ''|''"
proof -
  have "takeWhile (\<lambda>c. c \<noteq> 0) (p @ [0]) = p" using assms(2) by (simp add: takeWhile_string)
  then show ?thesis using assms(1) by (simp add: print_str_def pad_left_def)
qed

text \<open>A row is open: its bytes so far are \<open>p\<close>, the rest follows.\<close>

lemma hexdump_loop_rows:
  assumes "0 < length p" and "length p \<le> 16" and "off mod 16 = 0"
    and "length str = 16" and "take (length p) str = map shown p"
  shows "(case hexdump_loop data (off + length p) (str @ [0]) of (out, i, str') \<Rightarrow>
      [10] @ ascii ''    '' @ zu04 off @ ascii ''  '' @ cells 0 p @ out @ hexdump_end i str') = dump_rows off (p @ data)"
  using assms
proof (induction data arbitrary: p off str)
  case Nil
  have "hexdump_end (off + length p) (str @ [0]) = blanks (length p) (16 - length p) @
      ascii '' |'' @ map shown p @ replicate (16 - length p) 0x20 @ ascii ''|''"
  proof (cases "length p = 16")
    case True
    moreover have "(off + 16) mod 16 = 0" using Nil.prems(3) by presburger
    moreover have "str = map shown p" using True Nil.prems(4,5) by simp
    ultimately show ?thesis using print_str_full [of "map shown p"] by (auto simp: hexdump_end_def)
  next
    case False
    then have m: "(off + length p) mod 16 = length p" using Nil.prems(1-3) by (simp add: mod_add_eq [symmetric])
    have "print_str ((map shown p @ replicate (16 - length p) 0x20) @ [0]) =
        ascii '' |'' @ (map shown p @ replicate (16 - length p) 0x20) @ ascii ''|''"
      using Nil.prems(1,2) by (intro print_str_full) auto
    then show ?thesis using Nil.prems m blanks_end [of "length p"] by (simp add: hexdump_end_def Let_def)
  qed
  then show ?case using Nil.prems by (simp add: dump_rows.simps dump_row_def)
next
  case (Cons b data)
  show ?case
  proof (cases "length p = 16")
    case True
    have str: "str = map shown p" using True Cons.prems(4,5) by simp
    have o: "(off + 16) mod 16 = 0" using Cons.prems(3) by presburger
    have "(str @ [0])[0 := shown b] = str[0 := shown b] @ [0]" using Cons.prems(4) by (cases str) auto
    moreover have "take 1 (str[0 := shown b]) = map shown [b]" using Cons.prems(4) by (cases str) auto
    moreover have "dump_rows off (p @ b # data) = dump_row off p @ dump_rows (off + 16) ([b] @ data)"
      using True by (subst dump_rows.simps) simp
    ultimately show ?thesis
      using Cons.IH [of "[b]" "off + 16" "str[0 := shown b]"] Cons.prems o True print_str_full [of "map shown p"]
      by (auto simp: str dump_row_def gap_def Let_def split: prod.splits)
  next
    case False
    have m: "(off + length p) mod 16 = length p" using False Cons.prems(2,3) by (simp add: mod_add_eq [symmetric])
    have m8: "(off + length p) mod 8 = 0 \<longleftrightarrow> length p = 8" using False Cons.prems(1-3) by presburger
    have "(str @ [0])[length p := shown b] = str[length p := shown b] @ [0]"
      using False Cons.prems(2,4) by (simp add: list_update_append)
    moreover have "take (length (p @ [b])) (str[length p := shown b]) = map shown (p @ [b])"
      using False Cons.prems(2,4,5) by (simp add: take_Suc_conv_app_nth)
    ultimately show ?thesis
      using Cons.IH [of "p @ [b]" off "str[length p := shown b]"] Cons.prems False m m8
      by (auto simp: cells_snoc gap_def Let_def split: prod.splits)
  qed
qed

text \<open>C22.  A dump of \<open>len\<close> bytes, at least one, is the heading, the length, and the rows of the bytes.\<close>

theorem hexdump_layout:
  assumes "0 < len" and "len \<le> length p"
  shows "hexdump p len head = Some (head @ ascii '' ['' @ decimal len @ ascii ''] =>'' @ dump_rows 0 (take len p) @ [10])"
proof -
  obtain b q where p: "p = b # q" using assms by (cases p) auto
  have z: "zu04 0 = ascii ''0000''" by (simp add: zu04_def decimal.simps ascii_def eval_nat_numeral)
  have str: "(replicate 17 0)[0 := shown b] = (shown b # replicate 15 0) @ [0]" by (simp add: eval_nat_numeral)
  have q: "(if len = 0 then Some [] else buf_read p 1 (len - 1)) = Some (take (len - 1) q)" "take len p = [b] @ take (len - 1) q"
    using assms by (cases len; simp add: p buf_read_def)+
  obtain out i s where l: "hexdump_loop (take (len - 1) q) 1 ((replicate 17 0)[0 := shown b]) = (out, i, s)"
    by (rule prod_cases3)
  have "[10] @ ascii ''    '' @ zu04 0 @ ascii ''  '' @ cells 0 [b] @ out @ hexdump_end i s = dump_rows 0 (take len p)"
    using hexdump_loop_rows [of "[b]" 0 "shown b # replicate 15 0" "take (len - 1) q"] l unfolding str q(2) by simp
  then have "dump_rows 0 (take len p) = [10] @ ascii ''    0000  '' @ hex02 b @ ascii '' '' @ out @ hexdump_end i s"
    by (simp add: z gap_def) (simp add: ascii_def)
  then show ?thesis unfolding hexdump_def q(1) by (simp add: p l del: One_nat_def)
qed

theorem hexdump_layout_witness:
  "hexdump [65] 1 [] = Some (ascii '' ['' @ decimal 1 @ ascii ''] =>'' @ dump_rows 0 [65] @ [10])"
  using hexdump_layout [of 1 "[65]" "[]"] by simp

subsection \<open>Clocks\<close>

text \<open>
  \<open>tv\<close> is what \<open>gettimeofday\<close> gives: seconds and microseconds.  The width of \<open>tick_t\<close> is that of the
  result: 64 bits, or 32 on bare metal when asked for.
\<close>

definition usec_now :: "int \<times> int \<Rightarrow> 'a::len word" where
  "usec_now tv = ucast (word_of_int (fst tv * 1000 * 1000 + snd tv) :: u64)"

definition get_time :: "int \<times> int \<Rightarrow> u32 \<times> u32" where
  "get_time tv = (word_of_int (fst tv), word_of_int (snd tv))"

definition usec_since :: "int \<times> int \<Rightarrow> 'a::len word \<Rightarrow> 'a word" where
  "usec_since tv last1 = usec_now tv - last1"

definition millis_now :: "int \<times> int \<Rightarrow> 'a::len word" where
  "millis_now tv = usec_now tv div 1000"

definition millis_since :: "int \<times> int \<Rightarrow> 'a::len word \<Rightarrow> 'a word" where
  "millis_since tv last1 = millis_now tv - last1"

definition usecs :: "int \<times> int \<Rightarrow> int" where
  "usecs tv = fst tv * 1000000 + snd tv"

text \<open>Intervals in microseconds are right modulo the width, whatever the clock shows at their ends.\<close>

lemma usec_since_interval:
  assumes "LENGTH('a::len) \<le> 64"
  shows "usec_since tv (usec_now tv0) = (word_of_int (usecs tv - usecs tv0) :: 'a word)"
proof -
  have "usec_now t = (word_of_int (usecs t) :: 'a word)" for t
  proof (rule bit_word_eqI)
    have u: "usec_now t = (ucast (word_of_int (usecs t) :: u64) :: 'a word)" by (simp add: usec_now_def usecs_def mult.assoc)
    fix n assume "n < LENGTH('a)"
    with assms show "bit (usec_now t :: 'a word) n \<longleftrightarrow> bit (word_of_int (usecs t) :: 'a word) n"
      unfolding u by (simp add: bit_ucast_iff bit_word_of_int_iff)
  qed
  then show ?thesis by (simp add: usec_since_def)
qed

text \<open>
  Intervals in milliseconds are not: with 32 bits, one of 300 microseconds across the wrap of the
  microseconds, 71 minutes after a multiple of it, counts as about -71 minutes.
\<close>

lemma millis_since_wraps:
  "millis_since (4294, 967400) (millis_now (4294, 967100)) = (- 4294967 :: u32)"
  by (simp add: millis_since_def millis_now_def usec_now_def)

text \<open>With 64 bits, and a clock that shows a time since 1970, they are.\<close>

lemma millis_since_interval:
  assumes "0 \<le> usecs tv0" and "0 \<le> usecs tv" and "usecs tv0 < 2 ^ 64" and "usecs tv < 2 ^ 64"
  shows "(millis_since tv (millis_now tv0) :: u64) = word_of_int (usecs tv div 1000 - usecs tv0 div 1000)"
proof -
  have "(millis_now t :: u64) = word_of_int (usecs t div 1000)" if "0 \<le> usecs t" "usecs t < 2 ^ 64" for t
  proof -
    have "uint (word_of_int (usecs t) :: u64) = usecs t" using that by (simp add: uint_word_of_int take_bit_int_eq_self)
    then show ?thesis by (simp add: millis_now_def usec_now_def usecs_def word_div_def mult.assoc)
  qed
  then show ?thesis using assms by (simp add: millis_since_def)
qed

text \<open>
  \<open>strftime(buf, size, "%Y-%m-%dT%H:%M:%SZ", t)\<close>: nothing of use is in the buffer if the text and its
  terminator do not fit; it may be anything then.
\<close>

definition zero_padded :: "nat \<Rightarrow> nat \<Rightarrow> u8 list" where
  "zero_padded w n = replicate (w - length (decimal n)) 0x30 @ decimal n"

record tm =
  tm_year :: nat
  tm_mon :: nat
  tm_mday :: nat
  tm_hour :: nat
  tm_min :: nat
  tm_sec :: nat

definition iso8601 :: "tm \<Rightarrow> u8 list" where
  "iso8601 t = decimal (tm_year t) @ ascii ''-'' @ zero_padded 2 (tm_mon t) @ ascii ''-'' @ zero_padded 2 (tm_mday t) @
     ascii ''T'' @ zero_padded 2 (tm_hour t) @ ascii '':'' @ zero_padded 2 (tm_min t) @ ascii '':'' @
     zero_padded 2 (tm_sec t) @ ascii ''Z''"

definition add_iso8601_utc_datetime :: "(u8 list \<Rightarrow> u8 list) \<Rightarrow> tm \<Rightarrow> u8 list \<Rightarrow> nat \<Rightarrow> (nat \<times> u8 list) option" where
  "add_iso8601_utc_datetime junk now buf size1 =
     (let text = iso8601 now
      in if length text < size1 then map_option (\<lambda>buf. (length text, buf)) (buf_write buf 0 (text @ [0]))
         else Some (0, junk buf))"

text \<open>For the years from 1000 to 9999 the text has 20 characters, so 21 bytes are needed and enough.\<close>

lemma length_decimal_2: "n < 100 \<Longrightarrow> length (zero_padded 2 n) = 2"
  by (simp add: zero_padded_def decimal.simps [of n] decimal.simps [of "n div 10"])

lemma iso8601_length:
  assumes "1000 \<le> tm_year t" "tm_year t < 10000" "tm_mon t < 100" "tm_mday t < 100" "tm_hour t < 100"
    "tm_min t < 100" "tm_sec t < 100"
  shows "length (iso8601 t) = 20"
proof -
  let ?y = "tm_year t"
  have "\<not> ?y < 10" "\<not> ?y div 10 < 10" "\<not> ?y div 10 div 10 < 10" "?y div 10 div 10 div 10 < 10"
    using assms(1,2) by linarith+
  then have "length (decimal ?y) = 4"
    by (simp add: decimal.simps [of ?y] decimal.simps [of "?y div 10"] decimal.simps [of "?y div 10 div 10"]
        decimal.simps [of "?y div 10 div 10 div 10"] del: div_mult2_eq)
  then show ?thesis using assms by (simp add: iso8601_def length_decimal_2 ascii_def)
qed

end
