(* ===== verification/Platform.thy ===== *)
theory Platform
  imports SysUtils
begin

text \<open>
  What depends on the system the library is built for (\<open>src/utils.c\<close>): the clocks and time stamps of
  Windows, Arduino, Zephyr and bare metal, and the stack trace, with the assertion of
  \<open>include/utils/assert.h\<close> that prints it.  What the system answers is a parameter.
\<close>

declare decimal.simps [simp del]

subsection \<open>Clocks\<close>

text \<open>
  Windows counts 100 nanoseconds since 1601 in two halves; a \<open>long\<close> has 32 bits there.  The epoch is
  the count at the start of 1970.
\<close>

definition FILETIME_EPOCH :: u64 where
  "FILETIME_EPOCH = 116444736000000000"

definition gettimeofday_windows :: "u32 \<Rightarrow> u32 \<Rightarrow> u16 \<Rightarrow> int \<times> int" where
  "gettimeofday_windows low high milliseconds =
     (let time = ucast low;
          time = time + push_bit 32 (ucast high)
      in (sint (ucast ((time - FILETIME_EPOCH) div 10000000) :: 32 word), uint milliseconds * 1000))"

text \<open>\<open>micros()\<close> is read twice.\<close>

definition gettimeofday_arduino :: "u32 \<Rightarrow> u32 \<Rightarrow> int \<times> int" where
  "gettimeofday_arduino micros1 micros2 = (uint (micros1 div 1000000), uint (micros2 mod 1000000))"

definition gettimeofday_bare_metal :: "int \<times> int" where
  "gettimeofday_bare_metal = (0, 0)"

lemma halves: "ucast (ucast T :: u32) + push_bit 32 (ucast (ucast (drop_bit 32 T) :: u32)) = (T :: u64)"
proof -
  have "ucast (ucast T :: u32) = take_bit 32 T"
    by (rule bit_word_eqI) (auto simp: bit_ucast_iff bit_take_bit_iff)
  moreover have "ucast (ucast (drop_bit 32 T) :: u32) = drop_bit 32 T"
    by (rule bit_word_eqI) (auto simp: bit_ucast_iff bit_drop_bit_eq dest: bit_imp_le_length)
  ultimately show ?thesis using bits_ident [of 32 T] by (simp add: add.commute)
qed

text \<open>Windows: right until January 2038, when the seconds turn negative.\<close>

lemma gettimeofday_windows_correct:
  fixes s ms :: nat
  assumes s: "s < 2 ^ 31" and ms: "ms < 1000"
  defines "T \<equiv> FILETIME_EPOCH + of_nat (s * 10000000 + ms * 10000)"
  shows "gettimeofday_windows (ucast T) (ucast (drop_bit 32 T)) (of_nat ms) = (int s, int ms * 1000)"
proof -
  have "s * 10000000 + ms * 10000 < 2 ^ 64" using s ms by simp
  then have "unat (of_nat (s * 10000000 + ms * 10000) :: u64) = s * 10000000 + ms * 10000"
    by (simp only: unat_of_nat take_bit_nat_eq_self) (simp add: take_bit_nat_eq_self)
  then have "(T - FILETIME_EPOCH) div 10000000 = of_nat ((s * 10000000 + ms * 10000) div 10000000)"
    by (simp add: T_def word_arith_nat_div)
  also have "(s * 10000000 + ms * 10000) div 10000000 = s" using ms by simp
  finally have q: "(T - FILETIME_EPOCH) div 10000000 = of_nat s" .
  have "sint (ucast ((T - FILETIME_EPOCH) div 10000000) :: 32 word) = int s"
    unfolding q using s by (simp add: sint_uint unsigned_ucast_eq unsigned_of_nat take_bit_nat_eq_self take_bit_int_eq_self signed_take_bit_int_eq_self)
  moreover have "uint (of_nat ms :: u16) = int ms" using ms by (simp add: unsigned_of_nat take_bit_nat_eq_self)
  ultimately show ?thesis unfolding gettimeofday_windows_def Let_def halves by simp
qed

lemma gettimeofday_windows_2038:
  "gettimeofday_windows (ucast T) (ucast (drop_bit 32 T)) 0 = (- (2 ^ 31), 0)" if "T = FILETIME_EPOCH + 2 ^ 31 * 10000000"
  unfolding gettimeofday_windows_def Let_def halves that by (simp add: FILETIME_EPOCH_def)

text \<open>
  Arduino: one reading of the counter gives its value; but when the second reading falls into the
  next second the clock goes back by a second, and after 71 minutes, when the counter wraps, an
  interval in 64-bit ticks is that much off.
\<close>

lemma gettimeofday_arduino_steady: "usecs (gettimeofday_arduino m m) = uint m"
  by (simp add: gettimeofday_arduino_def usecs_def uint_div uint_mod)

lemma gettimeofday_arduino_goes_back:
  "usecs (gettimeofday_arduino 1999998 1999999) = 1999999" "usecs (gettimeofday_arduino 1999999 2000000) = 1000000"
  by (simp_all add: gettimeofday_arduino_def usecs_def)

lemma gettimeofday_arduino_wraps:
  "(usec_since (gettimeofday_arduino 0 0) (usec_now (gettimeofday_arduino 4294967295 4294967295)) :: u64) = - 4294967295"
  by (simp add: gettimeofday_arduino_def usec_since_def usec_now_def)

text \<open>Bare metal: no time ever passes.\<close>

lemma gettimeofday_bare_metal_stops:
  "usec_since gettimeofday_bare_metal (usec_now gettimeofday_bare_metal) = (0 :: 'a::len word)"
  "millis_since gettimeofday_bare_metal (millis_now gettimeofday_bare_metal) = (0 :: 'a::len word)"
  by (simp_all add: usec_since_def millis_since_def)

subsection \<open>Time stamps\<close>

text \<open>Windows: \<open>snprintf\<close> with four digits for the year, which returns the length of the whole text.\<close>

definition add_iso8601_utc_datetime_windows :: "tm \<Rightarrow> u8 list \<Rightarrow> nat \<Rightarrow> (nat \<times> u8 list) option" where
  "add_iso8601_utc_datetime_windows utc buf size1 =
     (let text = zero_padded 4 (tm_year utc) @ ascii ''-'' @ zero_padded 2 (tm_mon utc) @ ascii ''-'' @
            zero_padded 2 (tm_mday utc) @ ascii ''T'' @ zero_padded 2 (tm_hour utc) @ ascii '':'' @
            zero_padded 2 (tm_min utc) @ ascii '':'' @ zero_padded 2 (tm_sec utc) @ ascii ''Z''
      in map_option (Pair (length text)) (vsnprintf_at buf 0 size1 text))"

definition add_iso8601_utc_datetime_arduino :: "u8 list \<Rightarrow> nat \<Rightarrow> (nat \<times> u8 list) option" where
  "add_iso8601_utc_datetime_arduino buf size1 = Some (0, buf)"

definition add_iso8601_utc_datetime_zephyr :: "u8 list \<Rightarrow> nat \<Rightarrow> (nat \<times> u8 list) option" where
  "add_iso8601_utc_datetime_zephyr buf size1 = Some (0, buf)"

definition add_iso8601_utc_datetime_bare_metal :: "u8 list \<Rightarrow> nat \<Rightarrow> (nat \<times> u8 list) option" where
  "add_iso8601_utc_datetime_bare_metal buf size1 = Some (0, buf)"

definition tm_ok :: "tm \<Rightarrow> bool" where
  "tm_ok t \<longleftrightarrow> 1000 \<le> tm_year t \<and> tm_year t < 10000 \<and> tm_mon t < 100 \<and> tm_mday t < 100 \<and>
     tm_hour t < 100 \<and> tm_min t < 100 \<and> tm_sec t < 100"

lemma zero_padded_year: "1000 \<le> y \<Longrightarrow> zero_padded 4 y = decimal y"
proof -
  assume "1000 \<le> y"
  then have "\<not> y < 10" "\<not> y div 10 < 10" "\<not> y div 10 div 10 < 10" by linarith+
  then have "4 \<le> length (decimal y)"
    by (simp add: decimal.simps [of y] decimal.simps [of "y div 10"] decimal.simps [of "y div 10 div 10"]
        decimal.simps [of "y div 10 div 10 div 10"] del: div_mult2_eq)
  then show ?thesis by (simp add: zero_padded_def)
qed

lemma iso8601_20: "tm_ok t \<Longrightarrow> length (iso8601 t) = 20"
  by (simp add: tm_ok_def iso8601_length)

lemma windows_text:
  assumes "tm_ok t"
  shows "add_iso8601_utc_datetime_windows t buf size1 = map_option (Pair 20) (vsnprintf_at buf 0 size1 (iso8601 t))"
proof -
  have "1000 \<le> tm_year t" using assms by (simp add: tm_ok_def)
  from zero_padded_year [OF this] show ?thesis
    using iso8601_20 [OF assms] by (simp add: add_iso8601_utc_datetime_windows_def Let_def iso8601_def)
qed

text \<open>
  With room for the text and its terminator, Windows writes and returns what the others do.  Without,
  it returns the 20 characters that would have been needed, the others 0.
\<close>

lemma add_iso8601_windows_same:
  "tm_ok t \<Longrightarrow> 21 \<le> size1 \<Longrightarrow> add_iso8601_utc_datetime_windows t buf size1 = add_iso8601_utc_datetime junk t buf size1"
  using iso8601_20 [of t]
  by (simp add: windows_text add_iso8601_utc_datetime_def Let_def vsnprintf_at_def map_option_case split: option.splits)

lemma add_iso8601_windows_short:
  assumes "tm_ok t" and "size1 < 21" and "size1 \<le> length buf"
  shows "\<exists>buf'. add_iso8601_utc_datetime_windows t buf size1 = Some (20, buf')"
    and "add_iso8601_utc_datetime junk t buf size1 = Some (0, junk buf)"
  using assms iso8601_20 [of t]
  by (simp_all add: windows_text add_iso8601_utc_datetime_def Let_def vsnprintf_at_def buf_write_def)

subsection \<open>Stack traces and assertions\<close>

text \<open>
  \<open>frames\<close> are the symbols of the calls in progress, innermost first.  \<open>backtrace\<close> is given the size of
  the array in bytes and takes it for the number of its elements, of which there are 1024; the
  symbols are one allocation, which may fail.
\<close>

definition dump_trace :: "bool \<Rightarrow> u8 list list \<Rightarrow> u8 list option" where
  "dump_trace malloc_fails frames =
     (let array_len = 1024;
          size1 = min (length frames) (array_len * 8)
      in if size1 > array_len then None
      else if malloc_fails \<and> size1 > 0 then None
      else Some (concat (map (\<lambda>s. 9 # s @ [10]) (take size1 frames)) @ [10]))"

text \<open>Elsewhere: \<open>puts\<close> adds a second newline.\<close>

definition dump_trace_unavailable :: "u8 list" where
  "dump_trace_unavailable = ascii ''Stack trace unavailable!'' @ [10, 10]"

text \<open>An assertion goes on, or ends the process after printing.\<close>

datatype asserted = Passed | Exited int "u8 list"

definition ASSERT_LOC :: "u8 list \<Rightarrow> u8 list \<Rightarrow> nat \<Rightarrow> u8 list" where
  "ASSERT_LOC test file line =
     ascii ''ASSERTION FAIL ['' @ test @ ascii ''] @ '' @ file @ ascii '':'' @ decimal line @ [10]"

definition ASSERT_MSG_INFO :: "u8 list \<Rightarrow> u8 list" where
  "ASSERT_MSG_INFO msg = [9] @ msg @ [10]"

definition C_ASSERT :: "u8 list option \<Rightarrow> bool \<Rightarrow> u8 list \<Rightarrow> u8 list \<Rightarrow> nat \<Rightarrow> u8 list \<Rightarrow> asserted option" where
  "C_ASSERT trace test text file line msg =
     (if test then Some Passed
      else do {
        trace \<leftarrow> trace;
        Some (Exited 1 (ASSERT_LOC text file line @ ASSERT_MSG_INFO msg @ trace))
      })"

text \<open>All frames are printed in order, up to 1024; with more the array is overrun.\<close>

lemma dump_trace_prints:
  "dump_trace malloc_fails frames =
     (if length frames \<le> 1024 \<and> (malloc_fails \<longrightarrow> frames = [])
      then Some (concat (map (\<lambda>s. 9 # s @ [10]) frames) @ [10]) else None)"
  by (auto simp: dump_trace_def Let_def ascii_def)

text \<open>
  An assertion that holds does nothing; one that fails never continues: it ends the process with
  status 1 after saying where, or the trace overruns its array.
\<close>

lemma C_ASSERT_fails_closed:
  "C_ASSERT (dump_trace m frames) test text file line msg = Some Passed \<longleftrightarrow> test"
  "\<not> test \<Longrightarrow> length frames \<le> 1024 \<Longrightarrow> \<exists>out. C_ASSERT (dump_trace False frames) test text file line msg =
     Some (Exited 1 (ASSERT_LOC text file line @ out))"
  "\<not> test \<Longrightarrow> length frames > 1024 \<Longrightarrow> C_ASSERT (dump_trace m frames) test text file line msg = None"
  by (auto simp: C_ASSERT_def dump_trace_prints split: bind_splits)

end
