(* ===== verification/LogMacros.thy ===== *)
theory LogMacros
  imports Platform
begin

text \<open>
  The logger as programs use it: the global logger, the time stamp and the \<open>LOG_\<close> macros
  (\<open>src/logger.c\<close>, \<open>include/utils/logger.h\<close>).
\<close>

definition LOG_EMERG :: int where "LOG_EMERG = 0"
definition LOG_ALERT :: int where "LOG_ALERT = 1"
definition LOG_CRIT :: int where "LOG_CRIT = 2"
definition LOG_ERR :: int where "LOG_ERR = 3"
definition LOG_WARNING :: int where "LOG_WARNING = 4"
definition LOG_NOTICE :: int where "LOG_NOTICE = 5"
definition LOG_INFO :: int where "LOG_INFO = 6"
definition LOG_DEBUG :: int where "LOG_DEBUG = 7"

lemmas log_levels = LOG_EMERG_def LOG_ALERT_def LOG_CRIT_def LOG_ERR_def LOG_WARNING_def LOG_NOTICE_def LOG_INFO_def LOG_DEBUG_def

definition LOGGER_FLAG_NONE :: u32 where "LOGGER_FLAG_NONE = 0"

text \<open>The function \<open>puts\<close> of the C library has number 1.\<close>

definition default_logger :: logger where
  "default_logger = \<lparr> lg_name = ascii ''GLOBAL'' @ replicate (LOGGER_NAME_MAXLEN - 6) 0, lg_root_path = None,
     lg_log_level = LOG_INFO, lg_flags = LOGGER_FLAG_NONE, lg_file = None, lg_puts = Some 1, lg_cb = None \<rparr>"

text \<open>\<open>get_tstamp()\<close> formats into its static buffer of 24 bytes and returns it.\<close>

definition get_tstamp :: "(u8 list \<Rightarrow> u8 list) \<Rightarrow> tm \<Rightarrow> u8 list \<Rightarrow> u8 list option" where
  "get_tstamp junk now time_buf = map_option snd (add_iso8601_utc_datetime junk now time_buf 24)"

text \<open>
  A call of a macro: the logger is the global one, \<open>file\<close> and \<open>line\<close> are where the macro stands.  The time
  stamp of a call that prints nothing is not looked at.
\<close>

record log_env =
  le_junk :: "u8 list \<Rightarrow> u8 list"
  le_now :: tm
  le_time_buf :: "u8 list"
  le_isatty :: "nat \<Rightarrow> bool"

definition global_log :: "log_env \<Rightarrow> int \<Rightarrow> u8 list \<Rightarrow> nat \<Rightarrow> u8 list \<Rightarrow> (nat \<times> log_output list) option" where
  "global_log env level file line text = do {
     buf \<leftarrow> get_tstamp (le_junk env) (le_now env) (le_time_buf env);
     tstamp \<leftarrow> c_string buf 0;
     logger_log default_logger (le_isatty env) tstamp None level file line text
   }"

definition LOG_EM :: "log_env \<Rightarrow> u8 list \<Rightarrow> nat \<Rightarrow> u8 list \<Rightarrow> (nat \<times> log_output list) option" where
  "LOG_EM env = global_log env LOG_EMERG"
definition C_LOG_ALERT :: "log_env \<Rightarrow> u8 list \<Rightarrow> nat \<Rightarrow> u8 list \<Rightarrow> (nat \<times> log_output list) option" where
  "C_LOG_ALERT env = global_log env LOG_ALERT"
definition C_LOG_CRIT :: "log_env \<Rightarrow> u8 list \<Rightarrow> nat \<Rightarrow> u8 list \<Rightarrow> (nat \<times> log_output list) option" where
  "C_LOG_CRIT env = global_log env LOG_CRIT"
definition C_LOG_ERR :: "log_env \<Rightarrow> u8 list \<Rightarrow> nat \<Rightarrow> u8 list \<Rightarrow> (nat \<times> log_output list) option" where
  "C_LOG_ERR env = global_log env LOG_ERR"
definition LOG_INF :: "log_env \<Rightarrow> u8 list \<Rightarrow> nat \<Rightarrow> u8 list \<Rightarrow> (nat \<times> log_output list) option" where
  "LOG_INF env = global_log env LOG_INFO"
definition LOG_WRN :: "log_env \<Rightarrow> u8 list \<Rightarrow> nat \<Rightarrow> u8 list \<Rightarrow> (nat \<times> log_output list) option" where
  "LOG_WRN env = global_log env LOG_WARNING"
definition LOG_NOT :: "log_env \<Rightarrow> u8 list \<Rightarrow> nat \<Rightarrow> u8 list \<Rightarrow> (nat \<times> log_output list) option" where
  "LOG_NOT env = global_log env LOG_NOTICE"
definition LOG_DBG :: "log_env \<Rightarrow> u8 list \<Rightarrow> nat \<Rightarrow> u8 list \<Rightarrow> (nat \<times> log_output list) option" where
  "LOG_DBG env = global_log env LOG_DEBUG"
definition LOG_PRINT :: "log_env \<Rightarrow> u8 list \<Rightarrow> nat \<Rightarrow> u8 list \<Rightarrow> (nat \<times> log_output list) option" where
  "LOG_PRINT env = global_log env LOG_INFO"

lemmas log_macros = LOG_EM_def C_LOG_ALERT_def C_LOG_CRIT_def C_LOG_ERR_def LOG_INF_def LOG_WRN_def LOG_NOT_def LOG_DBG_def LOG_PRINT_def

subsection \<open>Lines with a time stamp\<close>

lemma zero_padded_no_nul: "0 \<notin> set (zero_padded w n)"
  using decimal_no_nul [of n] by (simp add: zero_padded_def)

lemma iso8601_no_nul: "0 \<notin> set (iso8601 t)"
  using decimal_no_nul [of "tm_year t"] zero_padded_no_nul by (simp add: iso8601_def ascii_def)

lemma get_tstamp_correct:
  assumes "tm_ok now" and "length time_buf = 24"
  shows "\<exists>buf. get_tstamp junk now time_buf = Some buf \<and> c_string buf 0 = Some (iso8601 now)"
proof -
  have "get_tstamp junk now time_buf = Some (iso8601 now @ 0 # drop 21 time_buf)"
    using assms iso8601_20 [OF assms(1)] by (simp add: get_tstamp_def add_iso8601_utc_datetime_def Let_def)
  then show ?thesis using iso8601_no_nul [of now] by (simp add: c_string_def takeWhile_string)
qed

text \<open>The level a call prints at, by the levels' names.\<close>

definition stamped_text :: "tm \<Rightarrow> int \<Rightarrow> u8 list \<Rightarrow> nat \<Rightarrow> u8 list \<Rightarrow> u8 list" where
  "stamped_text now level file line text =
     log_prefix (ascii ''GLOBAL'') (iso8601 now) (base_name file) line (log_level_names ! nat level) @ text"

text \<open>
  A call of the global logger at a level up to \<open>LOG_INFO\<close> makes one line, with the time in ISO
  8601 and the name of the level, cut to 191 characters and with a newline at its end, and hands it to
  \<open>puts\<close>; at \<open>LOG_DEBUG\<close> it prints nothing.  The static buffer always has room for the time stamp.
\<close>

theorem global_log_stamps:
  assumes now: "tm_ok (le_now env)" "length (le_time_buf env) = 24"
    and nul: "0 \<notin> set file" "0 \<notin> set text" and level: "0 \<le> level" "level \<le> LOG_DEBUG"
  shows "global_log env level file line text =
    (if level = LOG_DEBUG then Some (0, [])
     else let m = line_of (take 191 (stamped_text (le_now env) level file line text)) in Some (length m, [Puts 1 m]))"
proof -
  obtain buf where b: "get_tstamp (le_junk env) (le_now env) (le_time_buf env) = Some buf" "c_string buf 0 = Some (iso8601 (le_now env))"
    using get_tstamp_correct [OF now] by blast
  have lg: "default_logger = (case None of None \<Rightarrow> default_logger | Some c \<Rightarrow> c)" by simp
  have name: "c_string (lg_name default_logger) 0 = Some (ascii ''GLOBAL'')"
    by (simp add: default_logger_def ascii_def c_string_def LOGGER_NAME_MAXLEN_def)
  have run: "global_log env level file line text = logger_log default_logger (le_isatty env) (iso8601 (le_now env)) None level file line text"
    by (simp add: global_log_def b)
  show ?thesis
  proof (cases "level = LOG_DEBUG")
    case True
    then show ?thesis unfolding run by (simp add: logger_log_def default_logger_def log_levels LOG_MAX_LEVEL_def Let_def)
  next
    case False
    with level have en: "log_enabled default_logger level"
      by (simp add: log_enabled_def default_logger_def log_levels LOG_MAX_LEVEL_def)
    have full: "log_text default_logger (ascii ''GLOBAL'') (iso8601 (le_now env)) level file line text =
        stamped_text (le_now env) level file line text"
      by (simp add: log_text_def stamped_text_def default_logger_def)
    have "stamped_text (le_now env) level file line text \<noteq> []" by (simp add: stamped_text_def log_prefix_def ascii_def)
    with False show ?thesis
      unfolding run logger_log_enabled [OF lg name iso8601_no_nul nul en] full
      by (simp add: log_emit_def logger_log_set_color_def default_logger_def Let_def)
  qed
qed

theorem global_log_stamps_witness:
  "\<exists>m. global_log \<lparr> le_junk = id, le_now = \<lparr> tm_year = 2026, tm_mon = 1, tm_mday = 2, tm_hour = 3, tm_min = 4, tm_sec = 5 \<rparr>,
       le_time_buf = replicate 24 0, le_isatty = (\<lambda>_. False) \<rparr> LOG_ERR (ascii ''a.c'') 7 (ascii ''x'') = Some (length m, [Puts 1 m])"
  (is "\<exists>m. global_log ?env _ _ _ _ = _")
proof -
  have "tm_ok (le_now ?env)" "length (le_time_buf ?env) = 24" "0 \<notin> set (ascii ''a.c'')" "0 \<notin> set (ascii ''x'')"
    "0 \<le> LOG_ERR" "LOG_ERR \<le> LOG_DEBUG" "LOG_ERR \<noteq> LOG_DEBUG"
    by (simp_all add: tm_ok_def ascii_def log_levels)
  with global_log_stamps [of ?env "ascii ''a.c''" "ascii ''x''" LOG_ERR 7] show ?thesis by (simp add: Let_def)
qed

text \<open>
  \<open>puts\<close> writes a newline of its own, behind the one the line ends in: every line of the global logger
  is followed by an empty one.
\<close>

definition puts_prints :: "u8 list \<Rightarrow> u8 list" where
  "puts_prints s = s @ [10]"

lemma default_logger_empty_lines: "\<exists>s. puts_prints (line_of t) = s @ [10, 10]"
proof (cases "t \<noteq> [] \<and> last t = 10")
  case True
  then have "t = butlast t @ [10]" by (metis append_butlast_last_id)
  with True show ?thesis by (intro exI [of _ "butlast t"]) (simp add: puts_prints_def line_of_def)
qed (auto simp: puts_prints_def line_of_def)

end
