(* ===== verification/Macros.thy ===== *)
theory Macros
  imports BitUtils CBytes
begin

text \<open>
  The byte order macros of \<open>include/utils/byteorder.h\<close> and the value macros of
  \<open>include/utils/utils.h\<close>.  The byte order is the branch the preprocessor takes.
\<close>

subsection \<open>Byte order\<close>

datatype byte_order = LittleEndian | BigEndian

definition sys_le16_to_cpu :: "byte_order \<Rightarrow> u16 \<Rightarrow> u16" where
  "sys_le16_to_cpu e val = (case e of LittleEndian \<Rightarrow> val | BigEndian \<Rightarrow> bswap_16 val)"

definition sys_cpu_to_le16 :: "byte_order \<Rightarrow> u16 \<Rightarrow> u16" where
  "sys_cpu_to_le16 e val = (case e of LittleEndian \<Rightarrow> val | BigEndian \<Rightarrow> bswap_16 val)"

definition sys_le24_to_cpu :: "byte_order \<Rightarrow> u32 \<Rightarrow> u32" where
  "sys_le24_to_cpu e val = (case e of LittleEndian \<Rightarrow> val | BigEndian \<Rightarrow> bswap_24 val)"

definition sys_cpu_to_le24 :: "byte_order \<Rightarrow> u32 \<Rightarrow> u32" where
  "sys_cpu_to_le24 e val = (case e of LittleEndian \<Rightarrow> val | BigEndian \<Rightarrow> bswap_24 val)"

definition sys_le32_to_cpu :: "byte_order \<Rightarrow> u32 \<Rightarrow> u32" where
  "sys_le32_to_cpu e val = (case e of LittleEndian \<Rightarrow> val | BigEndian \<Rightarrow> bswap_32 val)"

definition sys_cpu_to_le32 :: "byte_order \<Rightarrow> u32 \<Rightarrow> u32" where
  "sys_cpu_to_le32 e val = (case e of LittleEndian \<Rightarrow> val | BigEndian \<Rightarrow> bswap_32 val)"

definition sys_le48_to_cpu :: "byte_order \<Rightarrow> u64 \<Rightarrow> u64" where
  "sys_le48_to_cpu e val = (case e of LittleEndian \<Rightarrow> val | BigEndian \<Rightarrow> bswap_48 val)"

definition sys_cpu_to_le48 :: "byte_order \<Rightarrow> u64 \<Rightarrow> u64" where
  "sys_cpu_to_le48 e val = (case e of LittleEndian \<Rightarrow> val | BigEndian \<Rightarrow> bswap_48 val)"

definition sys_le64_to_cpu :: "byte_order \<Rightarrow> u64 \<Rightarrow> u64" where
  "sys_le64_to_cpu e val = (case e of LittleEndian \<Rightarrow> val | BigEndian \<Rightarrow> bswap_64 val)"

definition sys_cpu_to_le64 :: "byte_order \<Rightarrow> u64 \<Rightarrow> u64" where
  "sys_cpu_to_le64 e val = (case e of LittleEndian \<Rightarrow> val | BigEndian \<Rightarrow> bswap_64 val)"

definition sys_be16_to_cpu :: "byte_order \<Rightarrow> u16 \<Rightarrow> u16" where
  "sys_be16_to_cpu e val = (case e of LittleEndian \<Rightarrow> bswap_16 val | BigEndian \<Rightarrow> val)"

definition sys_cpu_to_be16 :: "byte_order \<Rightarrow> u16 \<Rightarrow> u16" where
  "sys_cpu_to_be16 e val = (case e of LittleEndian \<Rightarrow> bswap_16 val | BigEndian \<Rightarrow> val)"

definition sys_be24_to_cpu :: "byte_order \<Rightarrow> u32 \<Rightarrow> u32" where
  "sys_be24_to_cpu e val = (case e of LittleEndian \<Rightarrow> bswap_24 val | BigEndian \<Rightarrow> val)"

definition sys_cpu_to_be24 :: "byte_order \<Rightarrow> u32 \<Rightarrow> u32" where
  "sys_cpu_to_be24 e val = (case e of LittleEndian \<Rightarrow> bswap_24 val | BigEndian \<Rightarrow> val)"

definition sys_be32_to_cpu :: "byte_order \<Rightarrow> u32 \<Rightarrow> u32" where
  "sys_be32_to_cpu e val = (case e of LittleEndian \<Rightarrow> bswap_32 val | BigEndian \<Rightarrow> val)"

definition sys_cpu_to_be32 :: "byte_order \<Rightarrow> u32 \<Rightarrow> u32" where
  "sys_cpu_to_be32 e val = (case e of LittleEndian \<Rightarrow> bswap_32 val | BigEndian \<Rightarrow> val)"

definition sys_be48_to_cpu :: "byte_order \<Rightarrow> u64 \<Rightarrow> u64" where
  "sys_be48_to_cpu e val = (case e of LittleEndian \<Rightarrow> bswap_48 val | BigEndian \<Rightarrow> val)"

definition sys_cpu_to_be48 :: "byte_order \<Rightarrow> u64 \<Rightarrow> u64" where
  "sys_cpu_to_be48 e val = (case e of LittleEndian \<Rightarrow> bswap_48 val | BigEndian \<Rightarrow> val)"

definition sys_be64_to_cpu :: "byte_order \<Rightarrow> u64 \<Rightarrow> u64" where
  "sys_be64_to_cpu e val = (case e of LittleEndian \<Rightarrow> bswap_64 val | BigEndian \<Rightarrow> val)"

definition sys_cpu_to_be64 :: "byte_order \<Rightarrow> u64 \<Rightarrow> u64" where
  "sys_cpu_to_be64 e val = (case e of LittleEndian \<Rightarrow> bswap_64 val | BigEndian \<Rightarrow> val)"

lemmas sys_defs =
  sys_le16_to_cpu_def sys_cpu_to_le16_def sys_le24_to_cpu_def sys_cpu_to_le24_def sys_le32_to_cpu_def sys_cpu_to_le32_def sys_le48_to_cpu_def sys_cpu_to_le48_def sys_le64_to_cpu_def sys_cpu_to_le64_def
  sys_be16_to_cpu_def sys_cpu_to_be16_def sys_be24_to_cpu_def sys_cpu_to_be24_def sys_be32_to_cpu_def sys_cpu_to_be32_def sys_be48_to_cpu_def sys_cpu_to_be48_def sys_be64_to_cpu_def sys_cpu_to_be64_def

text \<open>The bytes of a value, lowest first, and as a processor of either order stores them.\<close>

definition le_bytes :: "nat \<Rightarrow> 'a::len word \<Rightarrow> u8 list" where
  "le_bytes n w = map (\<lambda>i. ucast (drop_bit (8 * i) w)) [0..<n]"

definition stored :: "byte_order \<Rightarrow> nat \<Rightarrow> 'a::len word \<Rightarrow> u8 list" where
  "stored e n w = (case e of LittleEndian \<Rightarrow> le_bytes n w | BigEndian \<Rightarrow> rev (le_bytes n w))"

lemma le_bytes_mirror:
  assumes "\<And>i. bit (f x) i \<longleftrightarrow> i < 8 * n \<and> bit x (byte_mirror n i)"
  shows "le_bytes n (f x) = rev (le_bytes n (x :: 'a::len word))"
proof (rule nth_equalityI)
  fix i assume "i < length (le_bytes n (f x))"
  then have i: "i < n" by (simp add: le_bytes_def)
  have "(ucast (drop_bit (8 * i) (f x)) :: u8) = ucast (drop_bit (8 * (n - 1 - i)) x)"
  proof (rule bit_word_eqI)
    fix k assume "k < LENGTH(8)"
    then have k: "k < 8" by simp
    have "byte_mirror n (8 * i + k) = 8 * (n - 1 - i) + k" using k by (simp add: byte_mirror_def)
    moreover have "8 * i + k < 8 * n" using i k by linarith
    ultimately show "bit (ucast (drop_bit (8 * i) (f x)) :: u8) k \<longleftrightarrow> bit (ucast (drop_bit (8 * (n - 1 - i)) x) :: u8) k"
      using k by (simp add: bit_ucast_iff bit_drop_bit_eq assms)
  qed
  with i show "le_bytes n (f x) ! i = rev (le_bytes n x) ! i"
    by (simp add: le_bytes_def rev_nth)
qed (simp add: le_bytes_def)

text \<open>
  On either kind of processor, a converted value is stored in the order the name says, and
  converting back gives the value; of 24 and 48 bits, the lowest ones.
\<close>

theorem sys_byte_order:
  "stored e 2 (sys_cpu_to_le16 e a) = le_bytes 2 a \<and> stored e 2 (sys_cpu_to_be16 e a) = rev (le_bytes 2 a) \<and>
   stored e 4 (sys_cpu_to_le32 e b) = le_bytes 4 b \<and> stored e 4 (sys_cpu_to_be32 e b) = rev (le_bytes 4 b) \<and>
   stored e 8 (sys_cpu_to_le64 e c) = le_bytes 8 c \<and> stored e 8 (sys_cpu_to_be64 e c) = rev (le_bytes 8 c)"
  using le_bytes_mirror [of bswap_16 a 2] le_bytes_mirror [of bswap_32 b 4] le_bytes_mirror [of bswap_64 c 8]
  by (cases e) (simp_all add: sys_defs stored_def swap16.bit_value swap32.bit_value swap64.bit_value)

lemma sys_round_trip:
  "sys_le16_to_cpu e (sys_cpu_to_le16 e a) = a" "sys_be16_to_cpu e (sys_cpu_to_be16 e a) = a"
  "take_bit 24 (sys_le24_to_cpu e (sys_cpu_to_le24 e b)) = take_bit 24 b"
  "take_bit 24 (sys_be24_to_cpu e (sys_cpu_to_be24 e b)) = take_bit 24 b"
  "sys_le32_to_cpu e (sys_cpu_to_le32 e b) = b" "sys_be32_to_cpu e (sys_cpu_to_be32 e b) = b"
  "take_bit 48 (sys_le48_to_cpu e (sys_cpu_to_le48 e c)) = take_bit 48 c"
  "take_bit 48 (sys_be48_to_cpu e (sys_cpu_to_be48 e c)) = take_bit 48 c"
  "sys_le64_to_cpu e (sys_cpu_to_le64 e c) = c" "sys_be64_to_cpu e (sys_cpu_to_be64 e c) = c"
  using take_bit_length [of a] take_bit_length [of b] take_bit_length [of c]
  by (cases e; simp add: sys_defs swap16.twice swap24.twice swap32.twice swap48.twice swap64.twice)+

subsection \<open>Values\<close>

definition BYTE_0 :: "u64 \<Rightarrow> u8" where "BYTE_0 x = ucast (drop_bit 0 x AND 0xFF)"
definition BYTE_1 :: "u64 \<Rightarrow> u8" where "BYTE_1 x = ucast (drop_bit 8 x AND 0xFF)"
definition BYTE_2 :: "u64 \<Rightarrow> u8" where "BYTE_2 x = ucast (drop_bit 16 x AND 0xFF)"
definition BYTE_3 :: "u64 \<Rightarrow> u8" where "BYTE_3 x = ucast (drop_bit 24 x AND 0xFF)"

lemma BYTE_bytes: "[BYTE_0 x, BYTE_1 x, BYTE_2 x, BYTE_3 x] = le_bytes 4 x"
proof -
  have "(ucast (y AND 0xFF) :: u8) = ucast y" for y :: u64
  proof -
    have "y AND 0xFF = take_bit 8 y" by (simp add: take_bit_eq_mask mask_eq_exp_minus_1)
    moreover have "(ucast (take_bit 8 y) :: u8) = ucast y"
      by (rule bit_word_eqI) (simp add: bit_ucast_iff bit_take_bit_iff)
    ultimately show ?thesis by simp
  qed
  then show ?thesis by (simp add: BYTE_0_def BYTE_1_def BYTE_2_def BYTE_3_def le_bytes_def upt_rec)
qed

definition C_MAX :: "int \<Rightarrow> int \<Rightarrow> int" where
  "C_MAX a b = (let a1 = a; b1 = b in if a1 > b1 then a1 else b1)"

definition C_MIN :: "int \<Rightarrow> int \<Rightarrow> int" where
  "C_MIN a b = (let a1 = a; b1 = b in if a1 > b1 then b1 else a1)"

text \<open>\<open>-INT_MIN\<close> overflows.\<close>

definition C_ABS :: "int \<Rightarrow> int option" where
  "C_ABS x = (if x \<ge> 0 then Some x else if int_ok (- x) then Some (- x) else None)"

lemma C_ABS_abs: "int_ok x \<Longrightarrow> C_ABS x = (if x = - (2 ^ 31) then None else Some \<bar>x\<bar>)"
  by (auto simp: C_ABS_def int_ok_def INT_MAX_def)

text \<open>Sizes and addresses are 64 bits wide; types and members are given by their sizes and offsets.\<close>

definition ARRAY_SIZEOF :: "u64 \<Rightarrow> u64 \<Rightarrow> u64" where
  "ARRAY_SIZEOF sizeof_x sizeof_x0 = sizeof_x div sizeof_x0"

definition ARRAY_BASE :: "u64 \<Rightarrow> u64 \<Rightarrow> u64 \<Rightarrow> u64" where
  "ARRAY_BASE ptr sizeof_type offset = ptr - sizeof_type * offset"

definition CONTAINER_OF :: "u64 \<Rightarrow> u64 \<Rightarrow> u64" where
  "CONTAINER_OF ptr offset_field = ptr - offset_field"

lemma CONTAINER_OF_member: "CONTAINER_OF (p + offset_field) offset_field = p"
  by (simp add: CONTAINER_OF_def)

lemma ARRAY_BASE_element: "ARRAY_BASE (base + sizeof_type * i) sizeof_type i = base"
  by (simp add: ARRAY_BASE_def)

lemma ARRAY_SIZEOF_elements:
  assumes "0 < e" "n * e < 2 ^ 64" shows "ARRAY_SIZEOF (of_nat (n * e)) (of_nat e) = of_nat n"
proof -
  have "e < 2 ^ 64 \<or> n = 0" using assms(2) by (cases n) auto
  then show ?thesis
  proof
    assume "e < 2 ^ 64"
    then have "unat (of_nat (n * e) :: u64) = n * e" "unat (of_nat e :: u64) = e"
      using assms(2) by (simp_all only: unat_of_nat take_bit_nat_eq_self)
        (simp_all add: take_bit_nat_eq_self)
    then show ?thesis using assms(1) by (simp add: ARRAY_SIZEOF_def word_arith_nat_div del: of_nat_mult)
  qed (simp add: ARRAY_SIZEOF_def)
qed

text \<open>Both variables afterwards.\<close>

definition SWAP :: "'a \<Rightarrow> 'a \<Rightarrow> 'a \<times> 'a" where
  "SWAP a b = (let tmp = a; b = a; a = tmp in (a, b))"

lemma C_MAX_MIN: "C_MAX a b = max a b" "C_MIN a b = min a b"
  by (auto simp: C_MAX_def C_MIN_def)

text \<open>Nothing is swapped: the second value is lost.\<close>

lemma SWAP_loses: "SWAP a b = (a, a)"
  by (simp add: SWAP_def)

end
