(* ===== verification/BuildConfig.thy ===== *)
theory BuildConfig
  imports Macros
begin

text \<open>
  What the preprocessor decides: the byte order of the host (\<open>include/utils/byteorder.h\<close>) and whether
  a flag is enabled (\<open>include/utils/utils.h\<close>).  The macros a compiler defines are a map from names to
  values; in a condition a name that is not defined is 0.
\<close>

subsection \<open>Byte order of the host\<close>

type_synonym macros = "string \<rightharpoonup> int"

definition defined :: "macros \<Rightarrow> string \<Rightarrow> bool" where
  "defined m x \<longleftrightarrow> m x \<noteq> None"

definition macro_value :: "macros \<Rightarrow> string \<Rightarrow> int" where
  "macro_value m x = (case m x of None \<Rightarrow> 0 | Some v \<Rightarrow> v)"

definition selects :: "macros \<Rightarrow> string \<Rightarrow> string \<Rightarrow> bool" where
  "selects m x y \<longleftrightarrow> defined m x \<and> macro_value m x = macro_value m y"

definition is_big_endian_host :: "macros \<Rightarrow> bool" where
  "is_big_endian_host m \<longleftrightarrow>
     selects m ''__BYTE_ORDER__'' ''__ORDER_BIG_ENDIAN__'' \<or>
     selects m ''__BYTE_ORDER'' ''__BIG_ENDIAN'' \<or>
     selects m ''_BYTE_ORDER'' ''_BIG_ENDIAN'' \<or>
     selects m ''BYTE_ORDER'' ''BIG_ENDIAN'' \<or>
     defined m ''__sun'' \<and> defined m ''__SVR4'' \<and> defined m ''_BIG_ENDIAN'' \<or>
     list_ex (defined m) [''__ARMEB__'', ''__THUMBEB__'', ''__AARCH64EB__'', ''_MIBSEB'', ''__MIBSEB'', ''__MIBSEB__'', ''_M_PPC'']"

definition is_little_endian_host :: "macros \<Rightarrow> bool" where
  "is_little_endian_host m \<longleftrightarrow>
     selects m ''__BYTE_ORDER__'' ''__ORDER_LITTLE_ENDIAN__'' \<or>
     selects m ''__BYTE_ORDER'' ''__LITTLE_ENDIAN'' \<or>
     selects m ''_BYTE_ORDER'' ''_LITTLE_ENDIAN'' \<or>
     selects m ''BYTE_ORDER'' ''LITTLE_ENDIAN'' \<or>
     defined m ''__sun'' \<and> defined m ''__SVR4'' \<and> defined m ''_LITTLE_ENDIAN'' \<or>
     list_ex (defined m) [''__ARMEL__'', ''__THUMBEL__'', ''__AARCH64EL__'', ''_MIPSEL'', ''__MIPSEL'', ''__MIPSEL__'',
       ''_M_IX86'', ''_M_X64'', ''_M_IA64'', ''_M_ARM'']"

text \<open>
  The branch of the macros that is taken: little-endian when \<open>__LITTLE_ENDIAN__\<close> is defined in the end,
  big-endian otherwise; \<open>None\<close> is the error.
\<close>

definition host_byte_order :: "macros \<Rightarrow> byte_order option" where
  "host_byte_order m =
     (let m = (if \<not> defined m ''__LITTLE_ENDIAN__'' \<and> \<not> defined m ''__BIG_ENDIAN__''
               then (if is_big_endian_host m then m(''__BIG_ENDIAN__'' \<mapsto> 1)
                     else if is_little_endian_host m then m(''__LITTLE_ENDIAN__'' \<mapsto> 1) else m)
               else m)
      in if \<not> defined m ''__LITTLE_ENDIAN__'' \<and> \<not> defined m ''__BIG_ENDIAN__'' then None
         else if defined m ''__LITTLE_ENDIAN__'' then Some LittleEndian else Some BigEndian)"

lemma host_byte_order_eq:
  "\<not> defined m ''__LITTLE_ENDIAN__'' \<Longrightarrow> \<not> defined m ''__BIG_ENDIAN__'' \<Longrightarrow> host_byte_order m =
     (if is_big_endian_host m then Some BigEndian else if is_little_endian_host m then Some LittleEndian else None)"
  by (simp add: host_byte_order_def Let_def defined_def)

text \<open>
  The compilers that define \<open>__BYTE_ORDER__\<close> and the constants it is compared with, as gcc and clang
  do: the order found is theirs, whatever else they define of their own order.
\<close>

definition gcc_macros :: "byte_order \<Rightarrow> macros" where
  "gcc_macros e = [''__ORDER_LITTLE_ENDIAN__'' \<mapsto> 1234, ''__ORDER_BIG_ENDIAN__'' \<mapsto> 4321,
     ''__BYTE_ORDER__'' \<mapsto> (case e of LittleEndian \<Rightarrow> 1234 | BigEndian \<Rightarrow> 4321)]"

lemma host_byte_order_gcc: "host_byte_order (gcc_macros e) = Some e"
  by (cases e) (simp_all add: host_byte_order_def is_big_endian_host_def is_little_endian_host_def selects_def
      defined_def macro_value_def gcc_macros_def Let_def)

lemma host_byte_order_msvc: "host_byte_order [''_M_X64'' \<mapsto> 100] = Some LittleEndian"
  by (simp add: host_byte_order_def is_big_endian_host_def is_little_endian_host_def selects_def
      defined_def macro_value_def Let_def)

text \<open>
  A big-endian MIPS compiler that has nothing but its own macro is not recognised: the names are
  misspelt.  A little-endian one is.
\<close>

lemma host_byte_order_mips:
  "host_byte_order [''_MIPSEB'' \<mapsto> 1, ''__MIPSEB'' \<mapsto> 1, ''__MIPSEB__'' \<mapsto> 1] = None"
  "host_byte_order [''_MIPSEL'' \<mapsto> 1] = Some LittleEndian"
  by (simp_all add: host_byte_order_def is_big_endian_host_def is_little_endian_host_def selects_def
      defined_def macro_value_def Let_def)

text \<open>
  A comparison with a constant that is not defined is one with 0: a header that defines the order as
  0 and no constants makes every host big-endian.
\<close>

lemma host_byte_order_zero: "host_byte_order [''BYTE_ORDER'' \<mapsto> 0] = Some BigEndian"
  by (simp add: host_byte_order_def is_big_endian_host_def selects_def defined_def macro_value_def Let_def)

text \<open>On the host found, what is converted is stored in the order the macro's name says.\<close>

lemma host_stores_le32:
  "host_byte_order m = Some e \<Longrightarrow> stored e 4 (sys_cpu_to_le32 e b) = le_bytes 4 b"
  using le_bytes_mirror [of bswap_32 b 4]
  by (cases e) (simp_all add: sys_defs stored_def swap32.bit_value)

subsection \<open>Flags\<close>

text \<open>
  The argument of \<open>IS_ENABLED\<close> is expanded before it is pasted; what it expands to is one token.  The
  arguments of the inner macros are the texts between commas.
\<close>

definition XXXX1 :: "string list" where
  "XXXX1 = [''__YYYY'', []]"

definition IS_ENABLED3 :: "string list \<Rightarrow> string" where
  "IS_ENABLED3 args = args ! 1"

definition IS_ENABLED2 :: "string list \<Rightarrow> string" where
  "IS_ENABLED2 y = IS_ENABLED3 (butlast y @ [last y @ ''1'', ''0''])"

definition IS_ENABLED1 :: "string \<Rightarrow> string" where
  "IS_ENABLED1 x = IS_ENABLED2 (if ''__XXXX'' @ x = ''__XXXX1'' then XXXX1 else [''__XXXX'' @ x @ '' ''])"

definition IS_ENABLED :: "(string \<Rightarrow> string) \<Rightarrow> string \<Rightarrow> string" where
  "IS_ENABLED expand x = IS_ENABLED1 (expand x)"

text \<open>1 for a flag defined as 1 and 0 for any other, undefined ones too, which the file asserts of two.\<close>

lemma IS_ENABLED_correct: "IS_ENABLED expand x = (if expand x = ''1'' then ''1'' else ''0'')"
  by (simp add: IS_ENABLED_def IS_ENABLED1_def IS_ENABLED2_def IS_ENABLED3_def XXXX1_def)

lemma utils_static_asserts:
  "IS_ENABLED (id(''_IS_ENABLED_SELFTEST_ON'' := ''1'')) ''_IS_ENABLED_SELFTEST_ON'' = ''1''"
  "IS_ENABLED (id(''_IS_ENABLED_SELFTEST_ON'' := ''1'')) ''_IS_ENABLED_SELFTEST_OFF'' = ''0''"
  by (simp_all add: IS_ENABLED_correct)

end
