(* ===== verification/Spec2Isabelle.thy ===== *)
theory Spec2Isabelle
  imports FileOps ProcUtils CircBuf Filo Crc32 Crc16 BitUtils NumUtils SList DisjointSet HashMap HexStr StrUtils StrTok Slab StrLib PcapGen PathWalk WorkBacklog ChannelLink BusServe ArgTable LogMacros BuildConfig
begin

text \<open>
  A verification development for c-utils, a collection of C utilities: each file of \<open>src/\<close> with its
  header in \<open>include/utils/\<close> is a component, and most of them stand alone.  This theory imports the
  others; each of them opens with what it models.

  \<^bold>\<open>Conventions.\<close>  They are set in \<open>CPrelude\<close>, with the lemmas the components share.  A struct is a
  record, an enum a datatype, and a function has its name in C, with a suffix where HOL has taken the
  name.  State is passed in and returned updated.
    \<^item> \<open>option\<close>: \<open>None\<close> is undefined behaviour (an access outside an object, a null or dangling pointer,
      an overflow of \<open>int\<close>), a call that blocks for ever, or a loop that does not end.  That a
      function returns \<open>Some\<close> is therefore a statement of memory safety and of termination.
    \<^item> \<open>int + 'a\<close>: \<open>Inl\<close> is a process that has exited, with its status; \<open>and_then\<close> (\<open>Memory\<close>) continues
      otherwise.  A return code is the \<open>int\<close> the function returns.
    \<^item> Unsigned integers whose wrap-around matters are words (\<open>u8\<close> to \<open>u64\<close>), \<open>int\<close> is \<open>int\<close> with
      \<open>int_ok\<close> where it can overflow, and a \<open>size_t\<close> that counts what exists is a \<open>nat\<close>.  A length assigned
      to an \<open>int\<close> is cut to 32 bits (\<open>int_of_size\<close>), an index of type \<open>int\<close> that is counted up is checked
      (\<open>int_index\<close>); a message number past \<open>INT_MAX\<close> may be any (\<open>next_message_id\<close>).
    \<^item> A flat object is the list of its bytes, read and written through bounds-checked operations.  A
      string is what precedes the first NUL of its object (\<open>CString\<close>); a linked structure lives in a
      heap, a partial map from addresses, with null as address 0.
    \<^item> What is not under \<open>src/\<close> is a parameter: the allocator (\<open>malloc_ok\<close> states what C says of it), the
      answers of system calls, \<open>getopt_long\<close> (its results and the order it leaves \<open>argv\<close> in), the clock,
      \<open>rand()\<close>.  Standard library functions the code
      calls on values (\<open>atoi\<close>, \<open>strncpy\<close>, \<open>strtok_r\<close>, \<open>qsort\<close>) are defined as the standard says.
    \<^item> Threads are step relations: a step makes one access to what other threads use, or is what is
      done under a lock.  Statements about them hold for every interleaving.

  \<^bold>\<open>Containers.\<close>  \<open>BufferSpec\<close> has the contract of a bounded container that gives elements back in order
  or in reverse, as locales with the behaviour of sequences of calls proved once.  \<open>CircBuf\<close>
  (\<open>circbuf.c\<close>), \<open>Filo\<close> (\<open>filo.c\<close>) and \<open>SList\<close> (the singly linked part of \<open>list.c\<close>, \<open>queue.c\<close>, \<open>stack.c\<close>)
  interpret it: for every sequence of calls the ring buffer and the queue are first-in first-out, the
  two stacks last-in first-out, bounded by their capacity.  \<open>CList\<close> is the doubly linked part of
  \<open>list.c\<close>: each operation on a well-linked list gives the well-linked list it should and touches no
  other node.  \<open>DisjointSet\<close> (\<open>disjoint_set.c\<close>) decides connectivity through path compression and
  union by rank.  \<open>HashMap\<close> (\<open>hashmap.c\<close>) refines a finite map through rehashes; iteration visits
  each binding once and freeing releases exactly the items.  \<open>Slab\<close> (\<open>slab.c\<close>) hands out disjoint
  aligned blocks inside its blob.

  \<^bold>\<open>Bits and checksums.\<close>  \<open>WordMaps\<close> reduces facts on XOR-linear functions of words to their values at
  the powers of two.  \<open>Crc32\<close> with the tables of \<open>Crc32Tables\<close> (\<open>crc32.c\<close>) and \<open>Crc16\<close> (\<open>crc16.c\<close>) are
  the bit-serial reference checksums; \<open>BitUtils\<close>, \<open>NumUtils\<close> and \<open>Macros\<close> (\<open>utils.h\<close>, \<open>byteorder.h\<close>, the
  integer part of \<open>utils.c\<close>) permute, round and count as they claim, except where a lemma says not.

  \<^bold>\<open>Strings.\<close>  \<open>HexStr\<close>, \<open>StrUtils\<close>, \<open>StrTok\<close> and \<open>StrHash\<close> are the parts of \<open>strutils.c\<close>, \<open>StrLib\<close> is
  \<open>strlib.c\<close>.  The buffers are those of C, in place; the results are stated on lists of characters, as
  long as the \<open>int\<close> lengths and indices of the code can count them.

  \<^bold>\<open>Files and processes.\<close>  \<open>FileUtils\<close>, \<open>PathWalk\<close> and \<open>FileOps\<close> are \<open>file.c\<close>: reading a stream and
  walking a finite tree end and give exactly what is there.  \<open>PcapGen\<close> (\<open>pcap_gen.c\<close>) writes captures
  that a reader of the format gets back.  \<open>ProcUtils\<close> (\<open>procutils.c\<close>) uses \<open>FileOps.path_extract\<close> to find
  processes.  \<open>SysUtils\<close> has the draws of \<open>randint\<close>, the bytes of \<open>random.c\<close>, the text of \<open>hexdump\<close> and
  the clock arithmetic of \<open>utils.c\<close>; \<open>Platform\<close> the clocks and time stamps of the other systems, the stack
  trace and the assertion of \<open>assert.h\<close>; \<open>BuildConfig\<close> what the preprocessor decides from the macros of
  a compiler.  \<open>Memory\<close> (\<open>memory.c\<close>) wraps the allocator.

  \<^bold>\<open>Command line and log.\<close>  \<open>ArgParser\<close> and \<open>ArgHelp\<close> are \<open>arg_parser.c\<close>: which command runs, with what,
  and the help; \<open>ArgTable\<close> reads the macros a table is written with.  \<open>Logger\<close> (\<open>logger.c\<close>) builds each line
  in a buffer it does not overrun; \<open>LogMacros\<close> is the global logger with its time stamps.

  \<^bold>\<open>Descriptors, threads and channels.\<close>  \<open>FdEvent\<close> (\<open>fdutils.c\<close>, \<open>event.c\<close>) reads the answers of the kernel from
  a script; an event is a pipe of limited capacity whose pending bytes are counted.  \<open>WorkQueue\<close>
  (\<open>workqueue.c\<close>) runs workers on those events over a list of items: items are neither lost nor run by two
  workers at once, each completion is reported by the worker that made it, though others can see it before,
  and wake-ups can be lost; \<open>WorkBacklog\<close> shows that the list is the queue of \<open>SList\<close> over the nodes inside
  the items, step by step.
  \<open>BusServer\<close> (the worker of \<open>bus_server.c\<close>) is run by that queue: what a client is sent is in order and
  from others; a message sent alone reaches everybody, while of two that are published together at
  least one is lost to somebody for ever, and a full socket cuts messages.  \<open>BusServe\<close> is the thread that accepts clients, interleaved
  with the workers: a client keeps its item, but the thread can wait for ever.  \<open>UnixBus\<close> has the
  rest of \<open>bus_server.c\<close>, \<open>sockutils.c\<close>, and the bus driver of \<open>channel.c\<close>; \<open>Serial\<close> is \<open>serial.c\<close>, whose termios
  words are read back as the mode string.  \<open>ChannelMgr\<close> (\<open>channel.c\<close>) keeps channels in \<open>HashMap\<close>, used
  through its dictionary interface, and refines a registry of names; \<open>ChannelTeardown\<close> shows that its
  teardown, which deletes what it iterates over, ends and closes every channel once.
  \<open>ChannelDrivers\<close> has the drivers it dispatches to: what they deliver, and which descriptors they leave
  open on every path.  \<open>ChannelLink\<close> puts a driver behind the manager: two processes that open the ends
  of a message queue exchange messages through what the manager returns.

  \<^bold>\<open>Interfaces.\<close>  \<open>bounded_buffer\<close> and \<open>disciplined\<close> (\<open>BufferSpec\<close>), \<open>union_find\<close> (\<open>DisjointSet\<close>),
  \<open>dictionary\<close> (\<open>HashMap\<close>), \<open>channel_registry\<close> (\<open>ChannelMgr\<close>) and \<open>bit_permutation\<close> (\<open>WordMaps\<close>) are locales;
  each is interpreted on the model of the code that provides it.

  \<^bold>\<open>Loops and bounds.\<close>  Loops over pointers, and those whose end has to be proved, are partial functions
  in the option monad, others are structural or have a measure; there is no fuel.  Where a script of
  answers drives a loop (\<open>FdEvent\<close>, \<open>SysUtils\<close>), the end of the script is a call that blocks.  The
  bounds of the statements are those of the code's types: 64-bit sizes, 32-bit hashes and counters,
  \<open>int\<close> counters of the ring buffer.

  \<^bold>\<open>Components together.\<close>  The theorems of this theory span components: every run of the bus server with its
  work queue is followed, step by step, by the queue of nodes in memory, and a capture written by
  \<open>pcap_gen.c\<close> is read back by \<open>file.c\<close>.

  \<^bold>\<open>Not modelled.\<close>  The branches for Windows are modelled for the clocks only, not for random bytes; compiler
  attributes and \<open>READ_ONCE\<close>, \<open>WRITE_ONCE\<close> have no effect on values.  The weak memory of the processor is
  not modelled: the ring buffer is used from one context, and threads see each other's writes at
  once.  \<open>PathWalk\<close>, \<open>ChannelMgr\<close>, \<open>HashMap\<close> and the creation of a work queue assume that memory,
  threads and pipes can be had; where the code checks an allocation elsewhere, the failing branch is modelled.  The programs under \<open>tests/\<close> only call the library.
\<close>

section \<open>Components together\<close>

text \<open>
  C23.  A capture goes to a file and back: what \<open>pcap_gen.c\<close> writes of one or more packets of at most 4080
  bytes, on a disk that takes every write, \<open>file.c\<close> reads as a whole, and a reader of the format finds
  in what was read the snap length, the link type and all packets with their time stamps.  The process ends
  before that only when the allocator refuses a request, which is of at most twice the length of
  the file and 2049 bytes.  (A capture without packets is not closed: stopping it fails.)
\<close>

theorem capture_read_back:
  assumes "\<forall>p\<in>set ps. length (snd p) \<le> 4080" and "ps \<noteq> []" and "realloc_ok realloc"
    and "24 + (\<Sum>p\<leftarrow>ps. 16 + length (snd p)) < 2 ^ 62"
  shows "\<exists>cap0 cap file1. pcap_start True True True True snap link = Some cap0 \<and> pcap_adds ps cap0 = Some cap \<and>
    pcap_stop True 0 0 cap = Some (0, file1, True) \<and> length file1 = 24 + (\<Sum>p\<leftarrow>ps. 16 + length (snd p)) \<and>
    (let r = file_read_all realloc (Some \<lparr> sm_rest = file1, sm_bad = False, sm_err = False, sm_eof = False \<rparr>)
     in r = Some (Inl (- 1)) \<and> realloc_fails realloc (2 * length file1 + 2049) \<or>
        (\<exists>data n. r = Some (Inr (0, Some (data, n))) \<and> read_pcap (take n data) = Some (snap, link, ps)))"
proof -
  let ?f = "pcap_header snap link @ concat (map record_of ps)"
  let ?r = "file_read_all realloc (Some \<lparr> sm_rest = ?f, sm_bad = False, sm_err = False, sm_eof = False \<rparr>)"
  have "length (concat (map record_of ps)) = (\<Sum>p\<leftarrow>ps. 16 + length (snd p))"
    by (induction ps) (auto simp: record_of_def pcap_record_header_def)
  then have len: "length ?f = 24 + (\<Sum>p\<leftarrow>ps. 16 + length (snd p))" by (simp add: pcap_header_def u16_bytes_def)
  then have "?r = Some (Inl (- 1)) \<and> realloc_fails realloc (2 * length ?f + 2049) \<or> ?r = Some (Inr (0, Some (?f @ [0], length ?f)))"
    using file_read_all_reads [OF assms(3), of "\<lparr> sm_rest = ?f, sm_bad = False, sm_err = False, sm_eof = False \<rparr>"] assms(4) by auto
  moreover have "read_pcap (take (length ?f) (?f @ [0])) = Some (snap, link, ps)"
    using read_pcap_of [OF assms(1)] by simp
  ultimately have "let r = ?r in r = Some (Inl (- 1)) \<and> realloc_fails realloc (2 * length ?f + 2049) \<or>
      (\<exists>data n. r = Some (Inr (0, Some (data, n))) \<and> read_pcap (take n data) = Some (snap, link, ps))"
    unfolding Let_def by blast
  with pcap_capture_file [OF assms(1,2), of snap link] len show ?thesis by blast
qed

text \<open>One packet of three bytes, with an allocator that does not fail.\<close>

theorem capture_read_back_witness:
  "\<exists>cap0 cap file1. pcap_start True True True True 65535 1 = Some cap0 \<and> pcap_adds [((5, 6), [1, 2, 3])] cap0 = Some cap \<and>
     pcap_stop True 0 0 cap = Some (0, file1, True) \<and> length file1 = 43 \<and>
     (\<exists>data n. file_read_all plain_realloc (Some \<lparr> sm_rest = file1, sm_bad = False, sm_err = False, sm_eof = False \<rparr>) =
        Some (Inr (0, Some (data, n))) \<and> read_pcap (take n data) = Some (65535, 1, [((5, 6), [1, 2, 3])]))"
  using capture_read_back [OF _ _ plain_realloc_ok, of "[((5, 6), [1, 2, 3])]" 65535 1] plain_realloc_never_fails
  unfolding Let_def by simp

text \<open>
  A step of the bus server and what it does to the backlog in memory.  The acceptor's \<open>memset\<close> of an item
  changes a node that is not linked.
\<close>

lemma serve_act_follows:
  assumes "serve_act n s a s'" and inv: "serve_inv n s" and rel: "backlog_rel base n b (wq_backlog (se_wq s)) (wq_count (se_wq s))"
  shows "\<exists>b'. backlog_does base a b = Some b' \<and> backlog_rel base n b' (wq_backlog (se_wq s')) (wq_count (se_wq s'))"
  using assms(1)
proof cases
  case (accept k)
  show ?thesis
  proof (cases n k s rule: bus_server_serve_cases)
    case (taken fd w)
    then have w: "w < n" "\<not> active (se_wq s) w" using free_workD by blast+
    have "w \<notin> set (wq_backlog (se_wq s))" using inactive_not_in_backlog inv w(2) by (simp add: serve_inv_def)
    from clear_backlog_sim [OF rel w(1) this] accept taken show ?thesis
      by (simp add: workqueue_add_work_def clear_work_def)
  qed (use rel accept in \<open>simp_all add: backlog_does_def\<close>)
next
  case (adding wq)
  with backlog_follows [OF _ rel, of a wq] inv show ?thesis by (auto simp: serve_inv_def client_act.put)
next
  case (worker wq)
  with backlog_follows [OF _ rel, of a wq] inv show ?thesis by (auto simp: serve_inv_def)
qed

lemma serve_trace_follows:
  "serve_trace n s as s' \<Longrightarrow> serve_inv n s \<Longrightarrow> backlog_rel base n b (wq_backlog (se_wq s)) (wq_count (se_wq s)) \<Longrightarrow>
     \<exists>b'. backlog_run base as b = Some b' \<and> backlog_rel base n b' (wq_backlog (se_wq s')) (wq_count (se_wq s')) \<and> serve_inv n s'"
proof (induction arbitrary: b rule: serve_trace.induct)
  case (Cons s a s' as s'')
  from serve_act_follows [OF Cons.hyps(1) Cons.prems] obtain b' where
    b': "backlog_does base a b = Some b'" "backlog_rel base n b' (wq_backlog (se_wq s')) (wq_count (se_wq s'))" by blast
  with Cons.IH [OF serve_act_inv [OF Cons.hyps(1) Cons.prems(1)]] show ?case by auto
qed simp

text \<open>
  C1.  The bus server down to memory.  Take any run of the server, however accepting and the workers
  interleave, and let each of its steps do in memory what the code does: an addition to the backlog is the
  enqueueing of the item's node, a removal a dequeueing and \<open>CONTAINER_OF\<close>, and a \<open>memset\<close> overwrites
  the node.  From an array of \<open>n\<close> allocated items and an empty queue, no operation faults; each removal yields
  the very item the worker of the run takes, or none when it finds none; and at the end the queue
  links the nodes of the items of the backlog in order, and the count is their number.
\<close>

theorem bus_server_in_memory:
  assumes "serve_trace n (serve_start capacity n) as s" and "base \<noteq> NULL" and "\<forall>w < n. item_addr base w \<in> dom h"
  shows "\<exists>b. backlog_run base as \<lparr> bl_heap = h, bl_queue = queue_init, bl_count = 0 \<rparr> = Some b \<and>
    queue_repr (bl_heap b) (bl_queue b) (map (item_addr base) (wq_backlog (se_wq s))) \<and>
    bl_count b = int (length (wq_backlog (se_wq s)))"
proof -
  have "backlog_rel base n \<lparr> bl_heap = h, bl_queue = queue_init, bl_count = 0 \<rparr>
      (wq_backlog (se_wq (serve_start capacity n))) (wq_count (se_wq (serve_start capacity n)))"
    using assms(2,3) list_repr_empty
    by (simp add: backlog_rel_def queue_repr_def queue_init_def serve_start_def workqueue_create_def)
  from serve_trace_follows [OF assms(1) serve_start_inv this] show ?thesis
    by (auto simp: backlog_rel_def serve_inv_def wq_inv_def)
qed

text \<open>Two items: the first client's is taken by a worker, then the second client's waits.\<close>

theorem bus_server_in_memory_witness:
  "\<exists>b. backlog_run 1000 [Other, Cleared 0, Enqueued 0, Other, Other, Other, Other, Dequeued (Some 0), Other, Other, Other,
       Cleared 1, Enqueued 1] \<lparr> bl_heap = [1000 \<mapsto> mk_node 5 6, 1056 \<mapsto> mk_node 7 8], bl_queue = queue_init, bl_count = 0 \<rparr> = Some b \<and>
     queue_repr (bl_heap b) (bl_queue b) [1056] \<and> bl_count b = 1"
proof -
  let ?cs = "[Work 0 0, Accept (Accepted 7), Add, Add, Add, Work 0 0, Work 0 0, Work 0 0, Work 0 0, Work 0 0,
    Accept Again, Accept (Accepted 8), Add]"
  have "\<exists>s. serve_exec 2 ?cs (serve_start 65536 2) = Some ([Other, Cleared 0, Enqueued 0, Other, Other, Other, Other,
      Dequeued (Some 0), Other, Other, Other, Cleared 1, Enqueued 1], s) \<and> wq_backlog (se_wq s) = [1]"
    by (simp add: serve_start_def bus_server_serve_def bus_server_queue_work_def free_work_def clear_work_def
        accept_act_def wq_eval numeral_2_eq_2)
  then obtain s where s: "serve_trace 2 (serve_start 65536 2) [Other, Cleared 0, Enqueued 0, Other, Other, Other, Other,
      Dequeued (Some 0), Other, Other, Other, Cleared 1, Enqueued 1] s" "wq_backlog (se_wq s) = [1]"
    using serve_exec_trace by blast
  from bus_server_in_memory [OF s(1), of 1000 "[1000 \<mapsto> mk_node 5 6, 1056 \<mapsto> mk_node 7 8]"] s(2) show ?thesis
    by (auto simp: item_addr_def less_2_cases_iff)
qed

end
